(* ===== verification/Xv6_Prelude.thy ===== *)
theory Xv6_Prelude
  imports Main "HOL-Library.Word" "HOL-Library.Monad_Syntax"
begin

unbundle bit_operations_syntax

text \<open>
  Shared vocabulary of the development.

  \<^item> The machine types of the Rust sources as words of their width.  The kernel is always
    built with \<open>--release\<close> (see the Makefile), so \<open>+\<close>, \<open>-\<close> and \<open>*\<close> on them wrap,
    exactly as word arithmetic does.
  \<^item> \<open>Result<T, &str>\<close> as a sum (\<open>Inl\<close> is \<open>Err\<close>, \<open>Inr\<close> is \<open>Ok\<close>).  A panic is not a
    value of the Rust program: an operation that can panic (or that waits for a lock its own
    caller holds, and so never returns) is modelled with a further \<open>option\<close> around its result, and
    \<open>None\<close> is that outcome.
  \<^item> The search loop \<open>for (i, x) in xs.iter().enumerate() { if p(x) { return i } }\<close>, which
    occurs throughout the kernel's fixed-size tables, as \<open>find_index\<close>.
  \<^item> Address arithmetic: rounding to a power of two by masking, and little-endian fields of
    byte arrays.
\<close>

section \<open>Types\<close>

type_synonym u8 = "8 word"
type_synonym u16 = "16 word"
type_synonym u32 = "32 word"
type_synonym u64 = "64 word"
type_synonym usize = "64 word"

type_synonym 'a result = "string + 'a"

abbreviation Ok :: "'a \<Rightarrow> 'e + 'a" where
  "Ok \<equiv> Inr"

abbreviation Err :: "'e \<Rightarrow> 'e + 'a" where
  "Err \<equiv> Inl"

text \<open>Loops that follow pointers are partial functions; their bodies branch on null.\<close>

lemma case_option_mono [partial_function_mono]:
  assumes "monotone orda ordb f" and "\<And>y. monotone orda ordb (g y)"
  shows "monotone orda ordb (\<lambda>F. case x of None \<Rightarrow> f F | Some y \<Rightarrow> g y F)"
  using assms by (cases x) simp_all

named_theorems unat_simps
  \<open>facts that read word expressions as natural numbers\<close>

section \<open>Searching a fixed-size table\<close>

primrec find_index :: "('a \<Rightarrow> bool) \<Rightarrow> 'a list \<Rightarrow> nat option" where
  "find_index P [] = None"
| "find_index P (x # xs) = (if P x then Some 0 else map_option Suc (find_index P xs))"

lemma find_index_None_iff [simp]:
  "find_index P xs = None \<longleftrightarrow> (\<forall>x \<in> set xs. \<not> P x)"
  by (induction xs) auto

lemma find_index_Some_iff:
  "find_index P xs = Some i \<longleftrightarrow>
     i < length xs \<and> P (xs ! i) \<and> (\<forall>j < i. \<not> P (xs ! j))"
proof (induction xs arbitrary: i)
  case Nil
  then show ?case by simp
next
  case (Cons x xs)
  then show ?case
    by (cases i) (auto simp: less_Suc_eq_0_disj)
qed

lemma find_index_SomeD:
  assumes "find_index P xs = Some i"
  shows "i < length xs" "P (xs ! i)" "\<And>j. j < i \<Longrightarrow> \<not> P (xs ! j)"
  using assms by (auto simp: find_index_Some_iff)

lemma find_index_ex:
  "i < length xs \<Longrightarrow> P (xs ! i) \<Longrightarrow> \<exists>k. find_index P xs = Some k \<and> k \<le> i"
  by (metis find_index_None_iff find_index_Some_iff linorder_not_less not_None_eq nth_mem)

section \<open>Words as natural numbers\<close>

lemma unat_plus_no_overflow [unat_simps]:
  fixes a b :: "'a::len word"
  assumes "unat a + unat b < 2 ^ LENGTH('a)"
  shows "unat (a + b) = unat a + unat b"
  using assms by (simp add: unat_add_lem [symmetric])

lemma unat_minus_no_underflow [unat_simps]:
  fixes a b :: "'a::len word"
  assumes "unat b \<le> unat a"
  shows "unat (a - b) = unat a - unat b"
  using assms by (simp add: unat_sub word_le_nat_alt)

lemma unat_lt_64 [simp]: "unat (w :: usize) < 18446744073709551616"
  using unsigned_less [of w] by simp

lemma unat_not_mask:
  fixes w :: "'a::len word"
  shows "unat (w AND NOT (mask n)) = unat w div 2 ^ n * 2 ^ n"
proof -
  have "w AND NOT (mask n) = push_bit n (drop_bit n w)"
    by (rule bit_word_eqI) (auto simp: bit_simps)
  then have w: "w AND NOT (mask n) = w - take_bit n w"
    using bits_ident [of n w] by (simp add: algebra_simps)
  have t: "unat (take_bit n w) = unat w mod 2 ^ n"
    by (simp only: unsigned_take_bit_eq) (simp add: take_bit_eq_mod)
  have "unat (take_bit n w) \<le> unat w"
    by (simp add: t)
  then have "unat (w - take_bit n w) = unat w - unat w mod 2 ^ n"
    by (simp add: unat_minus_no_underflow t)
  then show ?thesis
    by (simp add: w minus_mod_eq_div_mult)
qed

section \<open>Rounding addresses\<close>

definition is_power_of_two :: "usize \<Rightarrow> bool" where
  "is_power_of_two w = list_ex (\<lambda>i. w = 2 ^ i) [0..<64]"

lemma is_power_of_two_iff: "is_power_of_two w \<longleftrightarrow> (\<exists>n < 64. w = 2 ^ n)"
  by (auto simp: is_power_of_two_def list_ex_iff)

lemma is_power_of_two_obtain:
  assumes "is_power_of_two w"
  obtains n where "n < 64" "w = 2 ^ n" "unat w = 2 ^ n" "w - 1 = mask n"
proof -
  from assms obtain n where n: "n < 64" "w = 2 ^ n"
    by (auto simp: is_power_of_two_iff)
  moreover have "unat w = 2 ^ n"
  proof -
    have "unat (of_nat (2 ^ n) :: usize) = 2 ^ n"
      using n(1) by (simp only: unsigned_of_nat) (simp add: take_bit_nat_eq_self)
    with n(2) show ?thesis by simp
  qed
  moreover have "w - 1 = mask n"
    using n by (simp add: mask_eq_decr_exp)
  ultimately show thesis by (rule that)
qed

definition mask_align_down :: "usize \<Rightarrow> usize \<Rightarrow> usize" where
  "mask_align_down addr align = addr AND NOT (align - 1)"

definition mask_align_up :: "usize \<Rightarrow> usize \<Rightarrow> usize" where
  "mask_align_up addr align = (addr + align - 1) AND NOT (align - 1)"

lemma unat_mask_align_down:
  assumes "is_power_of_two align"
  shows "unat (mask_align_down addr align) = unat addr div unat align * unat align"
  using assms by (elim is_power_of_two_obtain) (simp add: mask_align_down_def unat_not_mask)

lemma unat_mask_align_up:
  assumes "is_power_of_two align" and "unat addr + unat align \<le> 2 ^ 64"
  shows "unat (mask_align_up addr align) =
    (unat addr + unat align - 1) div unat align * unat align"
proof -
  from assms(1) obtain n where n: "n < 64" "align = 2 ^ n" "unat align = 2 ^ n" "align - 1 = mask n"
    by (rule is_power_of_two_obtain)
  have m: "unat (align - 1) = unat align - 1"
    using n(3) by (subst unat_minus_no_underflow) auto
  have "unat (addr + (align - 1)) = unat addr + unat (align - 1)"
    using assms(2) n(3) m by (intro unat_plus_no_overflow) simp
  then have "unat (addr + align - 1) = unat addr + unat align - 1"
    using m n(3) by (simp only: add_diff_eq) simp
  then show ?thesis
    using n by (simp add: mask_align_up_def unat_not_mask)
qed

lemma nat_round_up_ge:
  assumes "0 < (k::nat)"
  shows "a \<le> (a + k - 1) div k * k"
proof -
  have "(a + k - 1) mod k \<le> k - 1"
    using assms by (simp add: less_Suc_eq_le [symmetric])
  then show ?thesis
    using div_mult_mod_eq [of "a + k - 1" k] assms by linarith
qed

lemma nat_round_up_less: "0 < (k::nat) \<Longrightarrow> (a + k - 1) div k * k < a + k"
  by (metis One_nat_def Suc_pred add_gr_0 div_times_less_eq_dividend le_imp_less_Suc)

lemma nat_round_up_dvd:
  assumes "k dvd (a::nat)" and "0 < k"
  shows "(a + k - 1) div k * k = a"
proof -
  from assms(1) obtain m where a: "a = k * m"
    by (elim dvdE)
  have "(k * m + (k - 1)) div k = m + (k - 1) div k"
    using assms(2) by (subst div_mult_self4) simp_all
  then have "(a + k - 1) div k = m"
    using assms(2) by (simp add: a)
  then show ?thesis
    by (simp add: a)
qed

section \<open>Loops and fields\<close>

text \<open>\<open>for i in xs { body }\<close> with a body that can panic.\<close>

primrec for_each :: "'i list \<Rightarrow> ('i \<Rightarrow> 's \<Rightarrow> 's option) \<Rightarrow> 's \<Rightarrow> 's option" where
  "for_each [] body s = Some s"
| "for_each (i # is) body s = body i s \<bind> for_each is body"

lemma for_each_append: "for_each (xs @ ys) body s = for_each xs body s \<bind> for_each ys body"
  by (induction xs arbitrary: s) (auto split: Option.bind_split)

text \<open>A loop whose body keeps an invariant that counts the iterations.\<close>

lemma for_each_upt:
  assumes "I 0 s" and "\<And>k s. k < n \<Longrightarrow> I k s \<Longrightarrow> \<exists>s'. body k s = Some s' \<and> I (Suc k) s'"
  shows "\<exists>s'. for_each [0..<n] body s = Some s' \<and> I n s'"
proof -
  have "\<exists>s'. for_each [0..<m] body s = Some s' \<and> I m s'" if "m \<le> n" for m
    using that
  proof (induction m)
    case (Suc m)
    then obtain t where "for_each [0..<m] body s = Some t" "I m t" by auto
    with assms(2) [of m t] Suc.prems show ?case by (auto simp: for_each_append)
  qed (simp add: assms(1))
  then show ?thesis by simp
qed

text \<open>Little-endian fields of byte arrays.\<close>

definition le_byte :: "'a::len word \<Rightarrow> nat \<Rightarrow> u8" where
  "le_byte w k = ucast (drop_bit (8 * k) w)"

definition le_u32 :: "(nat \<Rightarrow> u8) \<Rightarrow> nat \<Rightarrow> u32" where
  "le_u32 d off = ucast (d off) OR push_bit 8 (ucast (d (off + 1))) OR
     push_bit 16 (ucast (d (off + 2))) OR push_bit 24 (ucast (d (off + 3)))"

lemma le_u32_bytes:
  assumes "\<And>k. k < 4 \<Longrightarrow> d (off + k) = le_byte w k"
  shows "le_u32 d off = w"
proof -
  have "le_u32 d off = ucast (le_byte w 0) OR push_bit 8 (ucast (le_byte w 1)) OR
      push_bit 16 (ucast (le_byte w 2)) OR push_bit 24 (ucast (le_byte w 3))"
    using assms [of 0] assms [of 1] assms [of 2] assms [of 3] by (simp add: le_u32_def)
  also have "\<dots> = w"
  proof (rule bit_word_eqI, goal_cases)
    case (1 n)
    then consider "n < 8" | "8 \<le> n" "n < 16" | "16 \<le> n" "n < 24" | "24 \<le> n" "n < 32"
      by fastforce
    then show ?case
      by cases (auto simp: le_byte_def bit_simps)
  qed
  finally show ?thesis .
qed

definition le_u16 :: "(nat \<Rightarrow> u8) \<Rightarrow> nat \<Rightarrow> u16" where
  "le_u16 d off = ucast (d off) OR push_bit 8 (ucast (d (off + 1)))"

definition u16_bytes :: "u16 \<Rightarrow> u8 list" where
  "u16_bytes w = map (le_byte w) [0..<2]"

definition u32_bytes :: "u32 \<Rightarrow> u8 list" where
  "u32_bytes w = map (le_byte w) [0..<4]"

lemma length_field_bytes [simp]: "length (u16_bytes w) = 2" "length (u32_bytes v) = 4"
  by (simp_all add: u16_bytes_def u32_bytes_def)

lemma le_u16_bytes:
  assumes "\<And>k. k < 2 \<Longrightarrow> d (off + k) = le_byte w k"
  shows "le_u16 d off = w"
proof -
  have "le_u16 d off = ucast (le_byte w 0) OR push_bit 8 (ucast (le_byte w 1))"
    using assms [of 0] assms [of 1] by (simp add: le_u16_def)
  also have "\<dots> = w"
  proof (rule bit_word_eqI, goal_cases)
    case (1 n)
    then consider "n < 8" | "8 \<le> n" "n < 16" by fastforce
    then show ?case by cases (auto simp: le_byte_def bit_simps)
  qed
  finally show ?thesis .
qed

lemma le_u16_nth: "k + 2 \<le> length bs \<Longrightarrow> take 2 (drop k bs) = u16_bytes w \<Longrightarrow> le_u16 (\<lambda>i. bs ! i) k = w"
proof (rule le_u16_bytes)
  fix j :: nat
  assume *: "k + 2 \<le> length bs" "take 2 (drop k bs) = u16_bytes w" "j < 2"
  have "bs ! (k + j) = take 2 (drop k bs) ! j" using *(1,3) by simp
  also have "\<dots> = le_byte w j" unfolding *(2) using *(3) by (simp add: u16_bytes_def)
  finally show "bs ! (k + j) = le_byte w j" .
qed

lemma le_u32_nth: "k + 4 \<le> length bs \<Longrightarrow> take 4 (drop k bs) = u32_bytes w \<Longrightarrow> le_u32 (\<lambda>i. bs ! i) k = w"
proof (rule le_u32_bytes)
  fix j :: nat
  assume *: "k + 4 \<le> length bs" "take 4 (drop k bs) = u32_bytes w" "j < 4"
  have "bs ! (k + j) = take 4 (drop k bs) ! j" using *(1,3) by simp
  also have "\<dots> = le_byte w j" unfolding *(2) using *(3) by (simp add: u32_bytes_def)
  finally show "bs ! (k + j) = le_byte w j" .
qed

section \<open>Kernel parameters\<close>

definition NCPU :: nat where
  "NCPU = 8"

definition NOFILE :: nat where
  "NOFILE = 16"

definition KERNBASE :: usize where
  "KERNBASE = 0x80000000"

definition PHYSTOP :: usize where
  "PHYSTOP = KERNBASE + 1 * 1024 * 1024 * 1024"

definition PAGESIZE :: usize where
  "PAGESIZE = 4096"

definition MAXVA :: usize where
  "MAXVA = push_bit (9 + 9 + 9 + 12 - 1) 1"

definition KSTACK_SIZE :: usize where
  "KSTACK_SIZE = PAGESIZE * 4"

definition TRAMPOLINE :: usize where
  "TRAMPOLINE = MAXVA - PAGESIZE"

definition TRAPFRAME :: usize where
  "TRAPFRAME = TRAMPOLINE - PAGESIZE"

definition ROOTDEV :: u32 where
  "ROOTDEV = 1"

definition MAXOPBLOCKS :: usize where
  "MAXOPBLOCKS = 10"

lemma param_values:
  "NCPU = 8" "NOFILE = 16" "KERNBASE = 0x80000000" "PHYSTOP = 0xC0000000" "PAGESIZE = 0x1000"
  "MAXVA = 0x4000000000" "KSTACK_SIZE = 0x4000" "TRAMPOLINE = 0x3FFFFFF000"
  "TRAPFRAME = 0x3FFFFFE000" "ROOTDEV = 1" "MAXOPBLOCKS = 10"
  by (simp_all add: NCPU_def NOFILE_def KERNBASE_def PHYSTOP_def PAGESIZE_def MAXVA_def
      KSTACK_SIZE_def TRAMPOLINE_def TRAPFRAME_def ROOTDEV_def MAXOPBLOCKS_def)

end
