(* ===== verification/Heap_Iface.thy ===== *)
theory Heap_Iface
  imports Xv6_Prelude
begin

text \<open>
  The contract of a \<open>GlobalAlloc\<close> and its client.  The kernel heap
  (\<open>kernel/src/kalloc/linked_list.rs\<close>) and the user heap (\<open>user/src/allocator.rs\<close>) are two
  providers of it.  A client is any sequence of \<open>alloc\<close> and \<open>dealloc\<close> calls in which every
  block is freed at most once and with the layout it was allocated with; \<open>run_heap\<close> plays
  such a sequence and keeps the list of live blocks.
\<close>

record layout =
  lsize :: usize
  lalign :: usize

text \<open>The invariants of \<open>core::alloc::Layout\<close>: the alignment is a power of two and the size,
  rounded up to it, does not exceed \<open>isize::MAX\<close>.  Both allocators first raise the alignment
  to that of a list node (8), and panic when the size bound fails for the raised alignment, so
  it is stated for that one.\<close>

definition valid_layout :: "layout \<Rightarrow> bool" where
  "valid_layout l \<longleftrightarrow> is_power_of_two (lalign l) \<and> unat (lsize l) + max (unat (lalign l)) 8 \<le> 2 ^ 63"

definition checked_add :: "usize \<Rightarrow> usize \<Rightarrow> usize option" where
  "checked_add a b = (if unat a + unat b < 2 ^ 64 then Some (a + b) else None)"

lemma checked_add_Some_iff:
  "checked_add a b = Some c \<longleftrightarrow> unat a + unat b < 2 ^ 64 \<and> c = a + b"
  by (auto simp: checked_add_def)

lemma unat_checked_add: "checked_add a b = Some c \<Longrightarrow> unat c = unat a + unat b"
  by (simp add: checked_add_Some_iff unat_plus_no_overflow)

datatype heap_cmd = Alloc layout | Dealloc nat

fun run_heap :: "('s \<Rightarrow> layout \<Rightarrow> (usize \<times> 's) option) \<Rightarrow> ('s \<Rightarrow> usize \<Rightarrow> layout \<Rightarrow> 's option) \<Rightarrow>
    heap_cmd list \<Rightarrow> 's \<Rightarrow> (usize \<times> layout) list \<Rightarrow> ('s \<times> (usize \<times> layout) list) option" where
  "run_heap al de [] s live = Some (s, live)"
| "run_heap al de (Alloc l # cs) s live =
     (case al s l of None \<Rightarrow> None
      | Some (p, s') \<Rightarrow> run_heap al de cs s' (if p = 0 then live else (p, l) # live))"
| "run_heap al de (Dealloc i # cs) s live =
     (if i < length live
      then (case de s (fst (live ! i)) (snd (live ! i)) of None \<Rightarrow> None
            | Some s' \<Rightarrow> run_heap al de cs s' (take i live @ drop (Suc i) live))
      else run_heap al de cs s live)"

fun cmd_ok :: "heap_cmd \<Rightarrow> bool" where
  "cmd_ok (Alloc l) = valid_layout l"
| "cmd_ok (Dealloc i) = True"

definition block :: "(layout \<Rightarrow> nat) \<Rightarrow> usize \<times> layout \<Rightarrow> nat set" where
  "block sz b = {unat (fst b) ..< unat (fst b) + sz (snd b)}"

fun pairwise_disjoint :: "('a \<Rightarrow> nat set) \<Rightarrow> 'a list \<Rightarrow> bool" where
  "pairwise_disjoint f [] \<longleftrightarrow> True"
| "pairwise_disjoint f (x # xs) \<longleftrightarrow> f x \<inter> \<Union> (f ` set xs) = {} \<and> pairwise_disjoint f xs"

lemma pairwise_disjoint_append:
  "pairwise_disjoint f (xs @ ys) \<longleftrightarrow>
     pairwise_disjoint f xs \<and> pairwise_disjoint f ys \<and>
     (\<forall>x \<in> set xs. \<forall>y \<in> set ys. f x \<inter> f y = {})"
  by (induction xs) auto

lemma pairwise_disjoint_nth:
  assumes "pairwise_disjoint f xs" "i < j" "j < length xs"
  shows "f (xs ! i) \<inter> f (xs ! j) = {}"
proof -
  have "xs = take j xs @ xs ! j # drop (Suc j) xs"
    using assms(3) by (rule id_take_nth_drop)
  moreover have "xs ! i \<in> set (take j xs)"
    using assms(2,3) by (auto simp: in_set_conv_nth intro!: exI [of _ i])
  ultimately show ?thesis
    using assms(1) pairwise_disjoint_append [of f "take j xs" "xs ! j # drop (Suc j) xs"] by auto
qed

locale heap_provider =
  fixes al :: "'s \<Rightarrow> layout \<Rightarrow> (usize \<times> 's) option"
    and de :: "'s \<Rightarrow> usize \<Rightarrow> layout \<Rightarrow> 's option"
    and inv :: "'s \<Rightarrow> bool"
    and room :: "'s \<Rightarrow> nat set"
    and sz :: "layout \<Rightarrow> nat"
    and fits :: "usize \<Rightarrow> layout \<Rightarrow> bool"
  assumes al_returns: "inv s \<Longrightarrow> valid_layout l \<Longrightarrow> \<exists>p s'. al s l = Some (p, s')"
    and al_inv: "inv s \<Longrightarrow> valid_layout l \<Longrightarrow> al s l = Some (p, s') \<Longrightarrow> inv s'"
    and al_shrinks: "inv s \<Longrightarrow> valid_layout l \<Longrightarrow> al s l = Some (p, s') \<Longrightarrow> room s' \<subseteq> room s"
    and al_block: "inv s \<Longrightarrow> valid_layout l \<Longrightarrow> al s l = Some (p, s') \<Longrightarrow> p \<noteq> 0 \<Longrightarrow>
      fits p l \<and> block sz (p, l) \<subseteq> room s \<and> block sz (p, l) \<inter> room s' = {}"
    and de_returns: "inv s \<Longrightarrow> valid_layout l \<Longrightarrow> fits p l \<Longrightarrow> block sz (p, l) \<inter> room s = {} \<Longrightarrow>
      \<exists>s'. de s p l = Some s'"
    and de_inv: "inv s \<Longrightarrow> valid_layout l \<Longrightarrow> fits p l \<Longrightarrow> block sz (p, l) \<inter> room s = {} \<Longrightarrow>
      de s p l = Some s' \<Longrightarrow> inv s' \<and> room s' = room s \<union> block sz (p, l)"
begin

definition client_inv :: "nat set \<Rightarrow> 's \<Rightarrow> (usize \<times> layout) list \<Rightarrow> bool" where
  "client_inv U s live \<longleftrightarrow> inv s \<and> room s \<subseteq> U \<and>
     (\<forall>b \<in> set live. fits (fst b) (snd b) \<and> valid_layout (snd b) \<and> block sz b \<subseteq> U - room s) \<and>
     pairwise_disjoint (block sz) live"

lemma client_alloc:
  assumes "client_inv U s live" "valid_layout l" "al s l = Some (p, s')"
  shows "client_inv U s' (if p = 0 then live else (p, l) # live)"
proof -
  from assms have s': "inv s'" "room s' \<subseteq> room s"
    by (auto simp: client_inv_def dest: al_inv al_shrinks)
  moreover have "fits p l \<and> block sz (p, l) \<subseteq> room s \<and> block sz (p, l) \<inter> room s' = {}" if "p \<noteq> 0"
    using al_block [OF _ assms(2,3) that] assms(1) by (auto simp: client_inv_def)
  ultimately show ?thesis
    using assms(1,2) by (fastforce simp: client_inv_def)
qed

lemma client_dealloc:
  assumes "client_inv U s live" "i < length live"
  shows "\<exists>s'. de s (fst (live ! i)) (snd (live ! i)) = Some s' \<and>
    client_inv U s' (take i live @ drop (Suc i) live)"
proof -
  let ?b = "live ! i"
  have b: "?b \<in> set live"
    using assms(2) by simp
  then have ok: "inv s" "valid_layout (snd ?b)" "fits (fst ?b) (snd ?b)"
      "block sz (fst ?b, snd ?b) \<inter> room s = {}"
    using assms(1) by (auto simp: client_inv_def)
  from de_returns [OF ok] obtain s' where s': "de s (fst ?b) (snd ?b) = Some s'" by blast
  from de_inv [OF ok s'] have r: "inv s'" "room s' = room s \<union> block sz ?b"
    by auto
  have split: "live = take i live @ ?b # drop (Suc i) live"
    using assms(2) by (rule id_take_nth_drop)
  have d: "pairwise_disjoint (block sz) (take i live @ ?b # drop (Suc i) live)"
    using assms(1) split by (simp add: client_inv_def)
  let ?rest = "take i live @ drop (Suc i) live"
  have rest: "set ?rest \<subseteq> set live"
    by (auto dest: in_set_takeD in_set_dropD)
  have "\<forall>c \<in> set ?rest. block sz c \<inter> block sz ?b = {}"
    using d by (auto simp: pairwise_disjoint_append)
  with rest assms(1) r(2)
  have "\<forall>c \<in> set ?rest. fits (fst c) (snd c) \<and> valid_layout (snd c) \<and> block sz c \<subseteq> U - room s'"
    unfolding client_inv_def by blast
  moreover have "pairwise_disjoint (block sz) ?rest"
    using d by (auto simp: pairwise_disjoint_append)
  ultimately have "client_inv U s' ?rest"
    using r assms(1) b by (auto simp: client_inv_def)
  with s' show ?thesis by blast
qed

lemma run_heap_client:
  assumes "client_inv U s live" "list_all cmd_ok cs"
  shows "\<exists>s' live'. run_heap al de cs s live = Some (s', live') \<and> client_inv U s' live'"
  using assms
proof (induction cs arbitrary: s live)
  case Nil
  then show ?case by simp
next
  case (Cons c cs)
  show ?case
  proof (cases c)
    case (Alloc l)
    with Cons.prems have l: "valid_layout l" "inv s" by (auto simp: client_inv_def)
    then obtain p s' where "al s l = Some (p, s')" using al_returns by blast
    moreover from this have "client_inv U s' (if p = 0 then live else (p, l) # live)"
      using Cons.prems(1) l(1) by (rule client_alloc [rotated 2])
    ultimately show ?thesis
      using Cons.IH Cons.prems(2) Alloc by simp
  next
    case (Dealloc i)
    show ?thesis
    proof (cases "i < length live")
      case True
      from client_dealloc [OF Cons.prems(1) True] obtain s' where
        "de s (fst (live ! i)) (snd (live ! i)) = Some s'"
        "client_inv U s' (take i live @ drop (Suc i) live)"
        by blast
      with True Dealloc Cons.IH Cons.prems(2) show ?thesis by simp
    next
      case False
      with Dealloc Cons show ?thesis by simp
    qed
  qed
qed

lemma client_inv_initial: "inv s \<Longrightarrow> client_inv (room s) s []"
  by (simp add: client_inv_def)

end

end
