(* ===== verification/Kalloc.thy ===== *)
theory Kalloc
  imports Heap_Iface
begin

text \<open>
  The kernel heap: \<open>kernel/src/kalloc/linked_list.rs\<close> and \<open>kernel/src/kalloc.rs\<close>.

  The free list is a chain of nodes owned by \<open>LinkedListAllocator::head\<close>; each node is
  stored at the start of the free region it describes, so a node is its address and its
  size, and the chain is a list of nodes (the head node itself, of size 0, is not a region).
  Every operation runs under the allocator's spin lock.  The theorems show that the
  allocator never violates its own assertions, that a block it hands out is aligned, free and
  disjoint from everything still free, that a freed block is reused by the next allocation of
  its layout, and exactly which bytes an allocation takes out of the free list.
\<close>

section \<open>Data and operations\<close>

record list_node =
  node_start :: usize
  node_size :: usize

definition sizeof_ListNode :: usize where
  "sizeof_ListNode = 16"

definition alignof_ListNode :: usize where
  "alignof_ListNode = 8"

definition end_addr :: "list_node \<Rightarrow> usize" where
  "end_addr r = node_start r + node_size r"

definition ll_align_up :: "usize \<Rightarrow> usize \<Rightarrow> usize" where
  "ll_align_up addr align = (addr + align - 1) AND NOT (align - 1)"

definition add_free_region :: "list_node list \<Rightarrow> usize \<Rightarrow> usize \<Rightarrow> list_node list option" where
  "add_free_region rs addr sz =
     (let aligned_addr = ll_align_up addr alignof_ListNode;
          size_reduction = aligned_addr - addr
      in if \<not> sz > size_reduction then None
         else if \<not> sz - size_reduction \<ge> sizeof_ListNode then None
         else let adjusted_size = sz - size_reduction
              in Some (\<lparr>node_start = aligned_addr, node_size = adjusted_size\<rparr> # rs))"

definition alloc_from_region :: "list_node \<Rightarrow> usize \<Rightarrow> usize \<Rightarrow> unit + usize" where
  "alloc_from_region region sz align =
     (let alloc_start = ll_align_up (node_start region) align
      in case checked_add alloc_start sz of
           None \<Rightarrow> Err ()
         | Some alloc_end \<Rightarrow>
             if alloc_end > end_addr region then Err ()
             else let excess_size = end_addr region - alloc_end
                  in if excess_size > 0 \<and> excess_size < sizeof_ListNode then Err ()
                     else Ok alloc_start)"

fun find_region :: "list_node list \<Rightarrow> usize \<Rightarrow> usize \<Rightarrow>
    ((list_node \<times> usize) \<times> list_node list) option" where
  "find_region [] sz align = None"
| "find_region (region # rs) sz align =
     (case alloc_from_region region sz align of
        Inr alloc_start \<Rightarrow> Some ((region, alloc_start), rs)
      | Inl _ \<Rightarrow> map_option (\<lambda>(found, rs'). (found, region # rs')) (find_region rs sz align))"

definition size_align :: "layout \<Rightarrow> (usize \<times> usize) option" where
  "size_align l =
     (let align = max (lalign l) alignof_ListNode
      in if unat (lsize l) > 2 ^ 63 - unat align then None
         else let padded = (lsize l + align - 1) AND NOT (align - 1)
              in Some (max padded sizeof_ListNode, align))"

definition kalloc :: "list_node list \<Rightarrow> layout \<Rightarrow> (usize \<times> list_node list) option" where
  "kalloc rs l = do {
     (sz, align) \<leftarrow> size_align l;
     case find_region rs sz align of
       Some ((region, alloc_start), rs') \<Rightarrow> do {
         alloc_end \<leftarrow> checked_add alloc_start sz;
         let excess_size = end_addr region - alloc_end;
         rs'' \<leftarrow> (if excess_size > 0 then add_free_region rs' alloc_end excess_size else Some rs');
         Some (alloc_start, rs'') }
     | None \<Rightarrow> Some (0, rs) }"

definition kdealloc :: "list_node list \<Rightarrow> usize \<Rightarrow> layout \<Rightarrow> list_node list option" where
  "kdealloc rs ptr l = do {
     (sz, _) \<leftarrow> size_align l;
     add_free_region rs ptr sz }"

definition heap_init :: "usize \<Rightarrow> list_node list option" where
  "heap_init heap_start = add_free_region [] heap_start (PHYSTOP - heap_start)"

section \<open>Well-formed free lists\<close>

definition region_bytes :: "list_node \<Rightarrow> nat set" where
  "region_bytes r = {unat (node_start r) ..< unat (node_start r) + unat (node_size r)}"

definition free_bytes :: "list_node list \<Rightarrow> nat set" where
  "free_bytes rs = \<Union> (region_bytes ` set rs)"

definition wf_region :: "list_node \<Rightarrow> bool" where
  "wf_region r \<longleftrightarrow> 0 < unat (node_start r) \<and> 8 dvd unat (node_start r) \<and> 16 \<le> unat (node_size r) \<and>
     unat (node_start r) + unat (node_size r) \<le> 2 ^ 63"

definition wf_free :: "list_node list \<Rightarrow> bool" where
  "wf_free rs \<longleftrightarrow> list_all wf_region rs \<and> pairwise_disjoint region_bytes rs"

text \<open>The number of bytes the allocator sets aside for a layout, and the addresses at which a
  block of that layout may lie.\<close>

definition block_size :: "layout \<Rightarrow> nat" where
  "block_size l = (case size_align l of None \<Rightarrow> 0 | Some (sz, _) \<Rightarrow> unat sz)"

definition block_fits :: "usize \<Rightarrow> layout \<Rightarrow> bool" where
  "block_fits p l \<longleftrightarrow> 0 < unat p \<and> 8 dvd unat p \<and> unat (lalign l) dvd unat p \<and>
     unat p + block_size l \<le> 2 ^ 63"

lemmas list_node_consts [simp] = sizeof_ListNode_def alignof_ListNode_def

lemma ll_align_up_eq: "ll_align_up a k = mask_align_up a k"
  by (simp add: ll_align_up_def mask_align_up_def)

lemma power_of_two_8 [simp]: "is_power_of_two 8"
  by (auto simp: is_power_of_two_iff intro!: exI [of _ 3])

lemma power_of_two_max:
  "is_power_of_two a \<Longrightarrow> is_power_of_two b \<Longrightarrow> is_power_of_two (max a b)"
  by (simp add: max_def)

lemma power_of_two_dvd:
  assumes "is_power_of_two a" "is_power_of_two b" "a \<le> b"
  shows "unat a dvd unat b"
proof -
  obtain i j where "unat a = 2 ^ i" "unat b = 2 ^ j"
    using assms(1,2) by (elim is_power_of_two_obtain) auto
  moreover from this have "(2::nat) ^ i \<le> 2 ^ j"
    using assms(3) by (simp add: word_le_nat_alt)
  ultimately show ?thesis
    by (simp add: le_imp_power_dvd)
qed

lemma unat_max: "unat (max (a :: usize) b) = max (unat a) (unat b)"
  by (simp add: max_def word_le_nat_alt)

lemma power_of_two_pos: "is_power_of_two a \<Longrightarrow> 0 < unat a"
  by (elim is_power_of_two_obtain) simp

lemma power_of_two_ge8: "is_power_of_two a \<Longrightarrow> 8 \<le> a \<Longrightarrow> 8 dvd unat a"
  using power_of_two_dvd [of 8 a] by simp

text \<open>What \<open>size_align\<close> computes for a valid layout.\<close>

lemma size_align_valid:
  assumes "valid_layout l"
  obtains sz align where "size_align l = Some (sz, align)"
    "is_power_of_two align" "unat (lalign l) dvd unat align"
    "8 dvd unat align" "8 dvd unat sz" "16 \<le> unat sz" "unat (lsize l) \<le> unat sz"
    "unat sz \<le> 2 ^ 63" "unat align \<le> 2 ^ 63" "block_size l = unat sz"
proof -
  let ?al = "max (lalign l) 8"
  let ?p = "mask_align_up (lsize l) ?al"
  have pow: "is_power_of_two (lalign l)" "is_power_of_two ?al"
    using assms by (simp_all add: valid_layout_def power_of_two_max)
  have bound: "unat (lsize l) + unat ?al \<le> 2 ^ 63"
    using assms by (simp add: valid_layout_def unat_max)
  have pos: "0 < unat ?al"
    using pow(2) by (rule power_of_two_pos)
  have d8: "8 dvd unat ?al"
    using pow(2) by (rule power_of_two_ge8) simp
  have p: "unat ?p = (unat (lsize l) + unat ?al - 1) div unat ?al * unat ?al"
    using pow(2) bound by (intro unat_mask_align_up) simp_all
  have sa: "size_align l = Some (max ?p 16, ?al)"
    using bound by (simp add: size_align_def mask_align_up_def Let_def not_less)
  have pb: "unat (lsize l) \<le> unat ?p" "unat ?p < unat (lsize l) + unat ?al"
    using nat_round_up_ge [OF pos, of "unat (lsize l)"] nat_round_up_less [OF pos, of "unat (lsize l)"]
    by (simp_all add: p)
  have "8 dvd unat ?p"
    using d8 by (simp add: p)
  then have "8 dvd unat (max ?p 16)"
    by (simp add: max_def)
  moreover have "unat (max ?p 16) = max (unat ?p) 16"
    by (simp add: unat_max)
  moreover have "unat (lalign l) dvd unat ?al"
    using pow by (intro power_of_two_dvd) simp_all
  ultimately show thesis
    using pb bound sa d8 pow(2) by (intro that [of "max ?p 16" ?al]) (auto simp: block_size_def)
qed

lemma unat_end_addr:
  "wf_region r \<Longrightarrow> unat (end_addr r) = unat (node_start r) + unat (node_size r)"
  by (simp add: wf_region_def end_addr_def unat_plus_no_overflow)

lemma alloc_from_region_Ok:
  assumes "wf_region r" "is_power_of_two align" "unat align \<le> 2 ^ 63"
    and "alloc_from_region r sz align = Inr a"
  shows "unat (node_start r) \<le> unat a" "unat align dvd unat a"
    "unat a + unat sz \<le> unat (end_addr r)"
    "checked_add a sz = Some (a + sz)" "unat (a + sz) = unat a + unat sz"
    "end_addr r = a + sz \<or> unat a + unat sz + 16 \<le> unat (end_addr r)"
proof -
  have a: "a = mask_align_up (node_start r) align"
    using assms(4) by (auto simp: alloc_from_region_def Let_def ll_align_up_eq
        split: option.splits if_splits)
  have ca: "checked_add a sz = Some (a + sz)" and le: "\<not> a + sz > end_addr r"
    and ex: "\<not> (end_addr r - (a + sz) > 0 \<and> end_addr r - (a + sz) < 16)"
    using assms(4) a by (auto simp: alloc_from_region_def Let_def ll_align_up_eq checked_add_Some_iff
        split: option.splits if_splits)
  have ua: "unat a = (unat (node_start r) + unat align - 1) div unat align * unat align"
    unfolding a using assms(1,2,3) by (intro unat_mask_align_up) (simp_all add: wf_region_def)
  show "unat (node_start r) \<le> unat a" "unat align dvd unat a"
    using nat_round_up_ge [OF power_of_two_pos [OF assms(2)]] by (simp_all add: ua)
  show s: "unat (a + sz) = unat a + unat sz"
    using ca by (rule unat_checked_add)
  show b: "unat a + unat sz \<le> unat (end_addr r)"
    using le by (simp add: word_less_nat_alt s)
  show "checked_add a sz = Some (a + sz)"
    by (rule ca)
  have "unat (end_addr r - (a + sz)) = unat (end_addr r) - (unat a + unat sz)"
    using b by (simp add: unat_minus_no_underflow s)
  with ex have "unat (end_addr r) - (unat a + unat sz) = 0 \<or> 16 \<le> unat (end_addr r) - (unat a + unat sz)"
    by (simp add: word_less_nat_alt) linarith
  then show "end_addr r = a + sz \<or> unat a + unat sz + 16 \<le> unat (end_addr r)"
    using b s by (auto intro: word_unat_eq_iff [THEN iffD2])
qed

lemma find_region_Some:
  assumes "find_region rs sz align = Some ((r, a), rs')"
  shows "\<exists>xs ys. rs = xs @ r # ys \<and> rs' = xs @ ys \<and> alloc_from_region r sz align = Inr a \<and>
    (\<forall>x \<in> set xs. alloc_from_region x sz align = Inl ())"
  using assms
proof (induction rs arbitrary: rs')
  case Nil
  then show ?case by simp
next
  case (Cons q rs)
  show ?case
  proof (cases "alloc_from_region q sz align")
    case (Inr b)
    with Cons.prems show ?thesis by (intro exI [of _ "[]"] exI [of _ rs]) simp
  next
    case (Inl u)
    with Cons.prems obtain rs1 where "find_region rs sz align = Some ((r, a), rs1)" "rs' = q # rs1"
      by auto
    from Cons.IH [OF this(1)] obtain xs ys where
      "rs = xs @ r # ys" "rs1 = xs @ ys" "alloc_from_region r sz align = Inr a"
      "\<forall>x \<in> set xs. alloc_from_region x sz align = Inl ()" by blast
    with \<open>rs' = q # rs1\<close> Inl show ?thesis
      by (intro exI [of _ "q # xs"] exI [of _ ys]) auto
  qed
qed

lemma find_region_None:
  "find_region rs sz align = None \<longleftrightarrow> (\<forall>r \<in> set rs. alloc_from_region r sz align = Inl ())"
  by (induction rs) (auto split: sum.splits)

lemma size_align_align: "size_align l = Some (sz, align) \<Longrightarrow> align = max (lalign l) 8"
  by (auto simp: size_align_def Let_def split: if_splits)

lemma ll_align_up_aligned:
  assumes "is_power_of_two k" "unat k dvd unat a" "unat a \<le> 2 ^ 63" "unat k \<le> 2 ^ 63"
  shows "ll_align_up a k = a"
proof -
  have "unat (ll_align_up a k) = (unat a + unat k - 1) div unat k * unat k"
    using assms by (simp add: ll_align_up_eq unat_mask_align_up)
  then show ?thesis
    using nat_round_up_dvd [OF assms(2) power_of_two_pos [OF assms(1)]]
    by (simp add: word_unat_eq_iff)
qed

text \<open>Whether a region can hold a block, in terms of addresses.\<close>

definition can_hold :: "list_node \<Rightarrow> nat \<Rightarrow> nat \<Rightarrow> bool" where
  "can_hold r n k =
     (let p = (unat (node_start r) + k - 1) div k * k; e = unat (node_start r) + unat (node_size r)
      in p + n = e \<or> p + n + 16 \<le> e)"

lemma alloc_from_region_Err_iff:
  assumes "wf_region r" "is_power_of_two k" "unat k \<le> 2 ^ 63"
  shows "alloc_from_region r sz k = Err () \<longleftrightarrow> \<not> can_hold r (unat sz) (unat k)"
proof -
  let ?a = "ll_align_up (node_start r) k"
  have a: "unat ?a = (unat (node_start r) + unat k - 1) div unat k * unat k"
    using assms by (simp add: ll_align_up_eq unat_mask_align_up wf_region_def)
  have e: "unat (end_addr r) = unat (node_start r) + unat (node_size r)"
    using assms(1) by (rule unat_end_addr)
  have ch: "can_hold r (unat sz) (unat k) \<longleftrightarrow> unat ?a + unat sz = unat (end_addr r) \<or>
      unat ?a + unat sz + 16 \<le> unat (end_addr r)"
    by (simp only: can_hold_def Let_def a e)
  show ?thesis
  proof (cases "unat ?a + unat sz \<le> unat (end_addr r)")
    case True
    then have b: "unat (?a + sz) = unat ?a + unat sz"
      using le_less_trans [OF True unat_lt_64] by (subst unat_plus_no_overflow) simp_all
    with True have ex: "unat (end_addr r - (?a + sz)) = unat (end_addr r) - (unat ?a + unat sz)"
      by (simp only: unat_minus_no_underflow)
    have "checked_add ?a sz = Some (?a + sz)"
      using le_less_trans [OF True unat_lt_64] by (simp add: checked_add_def)
    with True b ex show ?thesis
      by (auto simp: alloc_from_region_def ch Let_def word_less_nat_alt)
  next
    case False
    then have "alloc_from_region r sz k = Err ()"
      using unat_checked_add
      by (auto simp: alloc_from_region_def Let_def word_less_nat_alt split: option.splits)
    with False show ?thesis
      by (simp add: ch)
  qed
qed

lemma ll_align_up_8:
  assumes "8 dvd unat a"
  shows "ll_align_up a 8 = a"
proof -
  have "unat a + 8 \<le> 2 ^ 64"
    using assms unat_lt_64 [of a] by (elim dvdE) simp
  then have "unat (mask_align_up a 8) = unat a"
    using nat_round_up_dvd [OF assms] by (subst unat_mask_align_up) simp_all
  then show ?thesis
    by (simp add: ll_align_up_eq word_unat_eq_iff)
qed

lemma add_free_region_aligned:
  assumes "8 dvd unat a" "16 \<le> unat sz"
  shows "add_free_region rs a sz = Some (\<lparr>node_start = a, node_size = sz\<rparr> # rs)"
  using assms by (simp add: add_free_region_def ll_align_up_8 Let_def word_less_nat_alt word_le_nat_alt)

section \<open>Allocation\<close>

text \<open>What one allocation does to the free list, region by region.\<close>

lemma kalloc_cases:
  assumes "wf_free rs" "valid_layout l"
  shows "kalloc rs l = Some (0, rs) \<and> find_region rs (of_nat (block_size l)) (max (lalign l) 8) = None \<or>
    (\<exists>xs r ys p rest. rs = xs @ r # ys \<and> kalloc rs l = Some (p, rest @ xs @ ys) \<and>
       unat (node_start r) \<le> unat p \<and> unat p + block_size l \<le> unat (end_addr r) \<and>
       unat (lalign l) dvd unat p \<and> 8 dvd unat p \<and>
       (rest = [] \<and> unat (end_addr r) = unat p + block_size l \<or>
        rest = [\<lparr>node_start = p + of_nat (block_size l),
                 node_size = end_addr r - (p + of_nat (block_size l))\<rparr>] \<and>
        unat p + block_size l + 16 \<le> unat (end_addr r)))"
proof -
  from assms(2) obtain sz align where sa: "size_align l = Some (sz, align)"
    "is_power_of_two align" "unat (lalign l) dvd unat align" "8 dvd unat align" "8 dvd unat sz"
    "16 \<le> unat sz" "unat align \<le> 2 ^ 63" "block_size l = unat sz"
    by (rule size_align_valid)
  have align: "align = max (lalign l) 8"
    using sa(1) by (auto simp: size_align_def Let_def split: if_splits)
  have sz: "of_nat (block_size l) = sz"
    by (simp add: sa(8))
  show ?thesis
  proof (cases "find_region rs sz align")
    case None
    then show ?thesis
      by (simp add: kalloc_def sa(1) sz align)
  next
    case (Some q)
    then obtain r p rs' where f: "find_region rs sz align = Some ((r, p), rs')"
      by (metis prod.exhaust)
    from find_region_Some [OF f] obtain xs ys where
      s: "rs = xs @ r # ys" "rs' = xs @ ys" "alloc_from_region r sz align = Inr p" by blast
    have r: "wf_region r"
      using assms(1) s(1) by (simp add: wf_free_def)
    note ok = alloc_from_region_Ok [OF r sa(2) sa(7) s(3)]
    have al: "unat (lalign l) dvd unat p" "8 dvd unat p"
      using ok(2) sa(3,4) dvd_trans by blast+
    have end8: "8 dvd unat (p + sz)"
      using al(2) sa(5) by (simp add: ok(5))
    have ex: "unat (end_addr r - (p + sz)) = unat (end_addr r) - (unat p + unat sz)"
      using ok(3) by (simp add: unat_minus_no_underflow ok(5))
    show ?thesis
    proof (cases "end_addr r = p + sz")
      case True
      then have "kalloc rs l = Some (p, [] @ xs @ ys)"
        by (simp add: kalloc_def sa(1) f ok(4) s(2))
      then show ?thesis
        using s(1) ok al True by (intro disjI2 exI [of _ xs] exI [of _ r] exI [of _ ys]) (auto simp: sa(8))
    next
      case False
      then have big: "unat p + unat sz + 16 \<le> unat (end_addr r)"
        using ok(6) by blast
      then have "16 \<le> unat (end_addr r - (p + sz))"
        by (simp add: ex)
      then have "kalloc rs l =
          Some (p, [\<lparr>node_start = p + sz, node_size = end_addr r - (p + sz)\<rparr>] @ xs @ ys)"
        using False end8
        by (simp add: kalloc_def sa(1) f ok(4) s(2) add_free_region_aligned word_less_nat_alt)
      then show ?thesis
        using s(1) ok al big by (intro disjI2 exI [of _ xs] exI [of _ r] exI [of _ ys]) (auto simp: sa(8))
    qed
  qed
qed

lemma free_bytes_simps [simp]:
  "free_bytes [] = {}"
  "free_bytes (r # rs) = region_bytes r \<union> free_bytes rs"
  "free_bytes (xs @ ys) = free_bytes xs \<union> free_bytes ys"
  by (auto simp: free_bytes_def)

lemma wf_free_middle:
  assumes "wf_free (xs @ r # ys)"
  shows "wf_region r" "wf_free (xs @ ys)" "region_bytes r \<inter> free_bytes (xs @ ys) = {}"
  using assms by (auto simp: wf_free_def pairwise_disjoint_append free_bytes_def)

lemma wf_free_append:
  "wf_free (xs @ ys) \<longleftrightarrow> wf_free xs \<and> wf_free ys \<and> free_bytes xs \<inter> free_bytes ys = {}"
  by (auto simp: wf_free_def pairwise_disjoint_append free_bytes_def)

lemma wf_free_Cons:
  "wf_free (r # rs) \<longleftrightarrow> wf_region r \<and> region_bytes r \<inter> free_bytes rs = {} \<and> wf_free rs"
  by (auto simp: wf_free_def free_bytes_def)

text \<open>The tail of a region that is kept after an allocation from it.\<close>

lemma kept_region:
  assumes "wf_region r" "unat (node_start r) \<le> unat p" "8 dvd unat p" "8 dvd n"
    and "unat p + n + 16 \<le> unat (end_addr r)"
  defines "k \<equiv> \<lparr>node_start = p + of_nat n, node_size = end_addr r - (p + of_nat n)\<rparr>"
  shows "wf_region k" "region_bytes k = {unat p + n ..< unat (end_addr r)}"
proof -
  have e: "unat (end_addr r) = unat (node_start r) + unat (node_size r)"
    using assms(1) by (rule unat_end_addr)
  have lim: "unat (end_addr r) \<le> 2 ^ 63" "0 < unat (node_start r)"
    using assms(1) e by (simp_all add: wf_region_def)
  have n: "unat (of_nat n :: usize) = n"
    using assms(5) lim(1) by (simp add: unsigned_of_nat take_bit_nat_eq_self)
  have st: "unat (p + of_nat n) = unat p + n"
    using assms(5) lim(1) by (subst unat_plus_no_overflow) (simp_all add: n)
  have le: "unat (p + of_nat n) \<le> unat (end_addr r)"
    using assms(5) by (simp only: st)
  have sz: "unat (end_addr r - (p + of_nat n)) = unat (end_addr r) - (unat p + n)"
    by (simp only: unat_minus_no_underflow [OF le] st)
  show "region_bytes k = {unat p + n ..< unat (end_addr r)}"
    using assms(5) by (simp add: k_def region_bytes_def st sz)
  show "wf_region k"
    using assms(2,3,4,5) lim by (simp add: k_def wf_region_def st sz)
qed

lemma block_size_dvd: "valid_layout l \<Longrightarrow> 8 dvd block_size l"
  and block_size_ge: "valid_layout l \<Longrightarrow> 16 \<le> block_size l"
  and block_size_lsize: "valid_layout l \<Longrightarrow> unat (lsize l) \<le> block_size l"
  by (metis size_align_valid)+

lemma kalloc_elim:
  assumes "wf_free rs" "valid_layout l"
  obtains (null) "kalloc rs l = Some (0, rs)" "find_region rs (of_nat (block_size l)) (max (lalign l) 8) = None"
  | (found) xs r ys q rest where "rs = xs @ r # ys" "kalloc rs l = Some (q, rest @ xs @ ys)"
      "unat (node_start r) \<le> unat q" "unat q + block_size l \<le> unat (end_addr r)"
      "unat (lalign l) dvd unat q" "8 dvd unat q"
      "rest = [] \<and> unat (end_addr r) = unat q + block_size l \<or>
        rest = [\<lparr>node_start = q + of_nat (block_size l),
                 node_size = end_addr r - (q + of_nat (block_size l))\<rparr>] \<and>
        unat q + block_size l + 16 \<le> unat (end_addr r)"
proof (rule disjE [OF kalloc_cases [OF assms]], goal_cases)
  case 1
  then show ?case using null by blast
next
  case 2
  then show ?case by (elim exE conjE) (rule found; assumption)
qed

text \<open>One allocation: it returns, keeps the free list well formed, and a block that is not null
  comes out of one region, whose bytes below the block's end leave the free list.\<close>

lemma kalloc_step:
  assumes "wf_free rs" "valid_layout l" "kalloc rs l = Some (p, rs')"
  shows "wf_free rs'"
    and "p = 0 \<Longrightarrow> rs' = rs"
    and "p \<noteq> 0 \<Longrightarrow> block_fits p l \<and>
      (\<exists>r \<in> set rs. block block_size (p, l) \<subseteq> region_bytes r \<and>
         free_bytes rs' = free_bytes rs - {unat (node_start r) ..< unat p + block_size l})"
proof -
  have "wf_free rs' \<and> (p = 0 \<longrightarrow> rs' = rs) \<and> (p \<noteq> 0 \<longrightarrow> block_fits p l \<and>
      (\<exists>r \<in> set rs. block block_size (p, l) \<subseteq> region_bytes r \<and>
         free_bytes rs' = free_bytes rs - {unat (node_start r) ..< unat p + block_size l}))"
    using assms(1,2)
  proof (cases rule: kalloc_elim)
    case null
    with assms(1,3) show ?thesis by simp
  next
    case (found xs r ys q rest)
    note rs = found(1) and k = found(2) and lo = found(3) and hi = found(4)
      and al = found(5,6) and rest = found(7)
    have q: "q = p" "rs' = rest @ xs @ ys"
      using k assms(3) by simp_all
    note mid = wf_free_middle [OF assms(1) [unfolded rs]]
    have e: "unat (end_addr r) = unat (node_start r) + unat (node_size r)"
      using mid(1) by (rule unat_end_addr)
    have rb: "region_bytes r = {unat (node_start r) ..< unat (end_addr r)}"
      by (simp add: region_bytes_def e)
    have R: "wf_free rest \<and> free_bytes rest = {unat q + block_size l ..< unat (end_addr r)}"
      using rest
    proof (elim disjE conjE)
      assume "rest = []" "unat (end_addr r) = unat q + block_size l"
      then show ?thesis by (simp add: wf_free_def)
    next
      assume "rest = [\<lparr>node_start = q + of_nat (block_size l),
                 node_size = end_addr r - (q + of_nat (block_size l))\<rparr>]"
        and "unat q + block_size l + 16 \<le> unat (end_addr r)"
      with kept_region [OF mid(1) lo al(2) block_size_dvd [OF assms(2)]]
      show ?thesis by (simp add: wf_free_Cons) (simp add: wf_free_def)
    qed
    have sub: "free_bytes rest \<subseteq> region_bytes r"
      using R lo by (auto simp: rb)
    have "wf_free rs'"
      using R mid(2,3) sub unfolding q(2) wf_free_append [of rest] by auto
    moreover have "free_bytes rs' = free_bytes rs - {unat (node_start r) ..< unat p + block_size l}"
    proof -
      have "{unat (node_start r) ..< unat p + block_size l} \<subseteq> region_bytes r"
        using hi by (auto simp: rb q(1))
      moreover have "region_bytes r - {unat (node_start r) ..< unat p + block_size l} = free_bytes rest"
        using R lo hi by (auto simp: rb q(1))
      ultimately show ?thesis
        using mid(3) unfolding q(2) rs by auto
    qed
    moreover have "block block_size (p, l) \<subseteq> region_bytes r"
      using lo hi by (auto simp: block_def rb q(1))
    moreover have "0 < unat p" "unat p + block_size l \<le> 2 ^ 63"
      using mid(1) lo hi e by (simp_all add: wf_region_def q(1))
    ultimately show ?thesis
      using al rs by (auto simp: block_fits_def q(1))
  qed
  then show "wf_free rs'" "p = 0 \<Longrightarrow> rs' = rs"
    "p \<noteq> 0 \<Longrightarrow> block_fits p l \<and> (\<exists>r \<in> set rs. block block_size (p, l) \<subseteq> region_bytes r \<and>
         free_bytes rs' = free_bytes rs - {unat (node_start r) ..< unat p + block_size l})"
    by auto
qed

lemma kalloc_null_iff:
  assumes "wf_free rs" "valid_layout l" "kalloc rs l = Some (p, rs')"
  shows "p = 0 \<longleftrightarrow> find_region rs (of_nat (block_size l)) (max (lalign l) 8) = None"
proof -
  from assms(2) obtain sz align where sa: "size_align l = Some (sz, align)" "block_size l = unat sz"
    by (rule size_align_valid)
  have "find_region rs sz align = None \<Longrightarrow> p = 0"
    using assms(3) by (simp add: kalloc_def sa)
  moreover have "p \<noteq> 0" if "find_region rs sz align \<noteq> None"
  proof
    assume "p = 0"
    from assms(1,2) show False
    proof (cases rule: kalloc_elim)
      case null
      with that show False by (simp add: sa(2) size_align_align [OF sa(1)])
    next
      case (found xs r ys q rest)
      then have "wf_region r"
        using assms(1) by (simp add: wf_free_def)
      with found(2,3) assms(3) \<open>p = 0\<close> show False by (simp add: wf_region_def)
    qed
  qed
  ultimately have "p = 0 \<longleftrightarrow> find_region rs sz align = None" by blast
  then show ?thesis by (simp add: sa(2) size_align_align [OF sa(1)])
qed

lemma kalloc_returns: "wf_free rs \<Longrightarrow> valid_layout l \<Longrightarrow> \<exists>p rs'. kalloc rs l = Some (p, rs')"
  using kalloc_cases [of rs l] by blast

lemma kdealloc_eq:
  assumes "valid_layout l" "block_fits p l"
  shows "kdealloc rs p l = Some (\<lparr>node_start = p, node_size = of_nat (block_size l)\<rparr> # rs)"
proof -
  from assms(1) obtain sz align where "size_align l = Some (sz, align)" "16 \<le> unat sz"
    "block_size l = unat sz" by (rule size_align_valid)
  with assms(2) show ?thesis
    by (simp add: kdealloc_def block_fits_def add_free_region_aligned)
qed

lemma freed_region:
  assumes "valid_layout l" "block_fits p l"
  defines "k \<equiv> \<lparr>node_start = p, node_size = of_nat (block_size l)\<rparr>"
  shows "wf_region k" "region_bytes k = block block_size (p, l)"
proof -
  have "unat (of_nat (block_size l) :: usize) = block_size l"
    using assms(2) by (simp add: block_fits_def unsigned_of_nat take_bit_nat_eq_self)
  with assms(2) block_size_ge [OF assms(1)]
  show "wf_region k" "region_bytes k = block block_size (p, l)"
    by (simp_all add: k_def wf_region_def region_bytes_def block_def block_fits_def)
qed

interpretation kheap: heap_provider kalloc kdealloc wf_free free_bytes block_size block_fits
proof
  fix rs l
  assume "wf_free rs" "valid_layout l"
  then show "\<exists>p rs'. kalloc rs l = Some (p, rs')"
    by (rule kalloc_returns)
next
  fix rs l p rs'
  assume a: "wf_free rs" "valid_layout l" "kalloc rs l = Some (p, rs')"
  note step = kalloc_step [OF a]
  show "wf_free rs'" by (rule step(1))
  show "free_bytes rs' \<subseteq> free_bytes rs"
    using step(2,3) by (cases "p = 0") auto
  show "block_fits p l \<and> block block_size (p, l) \<subseteq> free_bytes rs \<and>
      block block_size (p, l) \<inter> free_bytes rs' = {}" if nz: "p \<noteq> 0"
  proof -
    obtain r where r: "r \<in> set rs" "block block_size (p, l) \<subseteq> region_bytes r"
      "free_bytes rs' = free_bytes rs - {unat (node_start r) ..< unat p + block_size l}"
      using step(3) [OF nz] by blast
    have "region_bytes r \<subseteq> free_bytes rs"
      using r(1) by (auto simp: free_bytes_def)
    moreover have "block block_size (p, l) \<subseteq> {unat (node_start r) ..< unat p + block_size l}"
      using r(2) by (auto simp: block_def region_bytes_def)
    ultimately show ?thesis
      using step(3) [OF nz] r(2,3) by auto
  qed
next
  fix rs l p
  assume a: "wf_free rs" "valid_layout l" "block_fits p l" "block block_size (p, l) \<inter> free_bytes rs = {}"
  show "\<exists>rs'. kdealloc rs p l = Some rs'"
    using kdealloc_eq [OF a(2,3)] by simp
  show "wf_free rs' \<and> free_bytes rs' = free_bytes rs \<union> block block_size (p, l)"
    if "kdealloc rs p l = Some rs'" for rs'
    using that a freed_region [OF a(2,3)] by (auto simp: kdealloc_eq wf_free_Cons)
qed

section \<open>Properties\<close>

lemma heap_init_wf:
  assumes "0 < unat heap_start" "unat heap_start + 32 \<le> unat PHYSTOP"
  obtains s0 where "heap_init heap_start = Some s0" "wf_free s0"
    "free_bytes s0 \<subseteq> {unat heap_start ..< unat PHYSTOP}"
proof -
  let ?a = "ll_align_up heap_start 8"
  have top: "unat PHYSTOP = 3221225472"
    by (simp add: param_values)
  have ua: "unat ?a = (unat heap_start + 8 - 1) div 8 * 8"
    using assms(2) top by (simp add: ll_align_up_eq unat_mask_align_up)
  have a: "unat heap_start \<le> unat ?a" "unat ?a < unat heap_start + 8" "8 dvd unat ?a"
    using nat_round_up_ge [of 8 "unat heap_start"] nat_round_up_less [of 8 "unat heap_start"]
    by (simp_all add: ua)
  have sz: "unat (PHYSTOP - heap_start) = unat PHYSTOP - unat heap_start"
    and red: "unat (?a - heap_start) = unat ?a - unat heap_start"
    using assms(2) a(1) by (simp_all add: unat_minus_no_underflow)
  have left: "unat (PHYSTOP - heap_start - (?a - heap_start)) = unat PHYSTOP - unat ?a"
    using assms(2) a(1,2) sz red by (subst unat_minus_no_underflow) simp_all
  have "heap_init heap_start =
      Some [\<lparr>node_start = ?a, node_size = PHYSTOP - heap_start - (?a - heap_start)\<rparr>]"
    using assms(2) a(1,2) sz red left diff_less_mono [of "unat ?a" "unat PHYSTOP" "unat heap_start"]
    by (simp add: heap_init_def add_free_region_def Let_def word_less_nat_alt word_le_nat_alt
        del: diff_diff_add diff_diff_eq2 diff_add_cancel)
  moreover have "wf_free [\<lparr>node_start = ?a, node_size = PHYSTOP - heap_start - (?a - heap_start)\<rparr>]"
    using assms a top left by (simp add: wf_free_def wf_region_def)
  moreover have "free_bytes [\<lparr>node_start = ?a, node_size = PHYSTOP - heap_start - (?a - heap_start)\<rparr>]
      \<subseteq> {unat heap_start ..< unat PHYSTOP}"
    using a(1) left by (auto simp: region_bytes_def)
  ultimately show ?thesis by (rule that)
qed

text \<open>C6: Whatever sequence of allocations and deallocations the kernel performs after
  \<open>heap_init\<close>, the allocator never panics, and at every moment the live blocks are
  pairwise disjoint, aligned as their layouts ask, at least as large as asked, inside the heap
  between its start and \<open>PHYSTOP\<close>, and disjoint from everything on the free list.\<close>

theorem kernel_heap_sound:
  assumes "0 < unat heap_start" "unat heap_start + 32 \<le> unat PHYSTOP" "list_all cmd_ok cmds"
  shows "\<exists>s0 s live. heap_init heap_start = Some s0 \<and>
    run_heap kalloc kdealloc cmds s0 [] = Some (s, live) \<and>
    pairwise_disjoint (block block_size) live \<and>
    (\<forall>b \<in> set live. unat (lalign (snd b)) dvd unat (fst b) \<and>
       unat (lsize (snd b)) \<le> block_size (snd b) \<and>
       block block_size b \<subseteq> {unat heap_start ..< unat PHYSTOP} - free_bytes s)"
proof -
  obtain s0 where s0: "heap_init heap_start = Some s0" "wf_free s0"
    "free_bytes s0 \<subseteq> {unat heap_start ..< unat PHYSTOP}"
    using assms(1,2) by (rule heap_init_wf)
  from kheap.run_heap_client [OF kheap.client_inv_initial [OF s0(2)] assms(3)]
  obtain s live where "run_heap kalloc kdealloc cmds s0 [] = Some (s, live)"
    "kheap.client_inv (free_bytes s0) s live" by blast
  with s0(1,3) block_size_lsize show ?thesis
    unfolding kheap.client_inv_def block_fits_def by blast
qed

theorem kernel_heap_sound_witness:
  "\<exists>s0 s live. heap_init 0x80020000 = Some s0 \<and>
    run_heap kalloc kdealloc [Alloc \<lparr>lsize = 24, lalign = 8\<rparr>, Alloc \<lparr>lsize = 4096, lalign = 4096\<rparr>, Dealloc 1]
      s0 [] = Some (s, live) \<and>
    pairwise_disjoint (block block_size) live \<and>
    (\<forall>b \<in> set live. unat (lalign (snd b)) dvd unat (fst b) \<and>
       unat (lsize (snd b)) \<le> block_size (snd b) \<and>
       block block_size b \<subseteq> {unat (0x80020000 :: usize) ..< unat PHYSTOP} - free_bytes s)"
  by (rule kernel_heap_sound) (simp_all add: param_values valid_layout_def is_power_of_two_iff
      exI [of _ "3::nat"] exI [of _ "12::nat"])

text \<open>C7: One allocation returns null exactly when no region of the free list can hold the block
  at its lowest aligned address, leaving either nothing or room for a list node behind it.
  Otherwise the block is taken from one region, and the bytes that leave the free list are
  exactly those from the start of that region to the end of the block: the alignment gap in
  front of the block is not put back.\<close>

theorem kalloc_takes:
  assumes "wf_free rs" "valid_layout l"
  shows "\<exists>p rs'. kalloc rs l = Some (p, rs') \<and> wf_free rs' \<and>
    (p = 0 \<longleftrightarrow> (\<forall>r \<in> set rs. \<not> can_hold r (block_size l) (max (unat (lalign l)) 8))) \<and>
    (p = 0 \<longrightarrow> rs' = rs) \<and>
    (p \<noteq> 0 \<longrightarrow> (\<exists>r \<in> set rs. block block_size (p, l) \<subseteq> region_bytes r \<and>
       free_bytes rs' = free_bytes rs - {unat (node_start r) ..< unat p + block_size l}))"
proof -
  obtain p rs' where k: "kalloc rs l = Some (p, rs')"
    using kalloc_returns [OF assms] by blast
  from assms(2) obtain sz align where sa: "size_align l = Some (sz, align)" "is_power_of_two align"
    "unat align \<le> 2 ^ 63" "block_size l = unat sz"
    by (rule size_align_valid)
  note al = size_align_align [OF sa(1)]
  have "wf_region r" if "r \<in> set rs" for r
    using assms(1) that by (auto simp: wf_free_def list_all_iff)
  then have "p = 0 \<longleftrightarrow> (\<forall>r \<in> set rs. \<not> can_hold r (block_size l) (max (unat (lalign l)) 8))"
    using kalloc_null_iff [OF assms k] alloc_from_region_Err_iff [OF _ sa(2,3), of _ sz]
    by (simp add: find_region_None sa(4) al unat_max)
  with k kalloc_step [OF assms k] show ?thesis by blast
qed

theorem kalloc_takes_witness:
  "\<exists>p rs'. kalloc [\<lparr>node_start = 0x80020000, node_size = 4096\<rparr>] \<lparr>lsize = 24, lalign = 16\<rparr> = Some (p, rs') \<and>
    wf_free rs' \<and>
    (p = 0 \<longleftrightarrow> (\<forall>r \<in> set [\<lparr>node_start = 0x80020000, node_size = 4096\<rparr>].
       \<not> can_hold r (block_size \<lparr>lsize = 24, lalign = 16\<rparr>) (max (unat (lalign \<lparr>lsize = 24, lalign = 16\<rparr>)) 8))) \<and>
    (p = 0 \<longrightarrow> rs' = [\<lparr>node_start = 0x80020000, node_size = 4096\<rparr>]) \<and>
    (p \<noteq> 0 \<longrightarrow> (\<exists>r \<in> set [\<lparr>node_start = 0x80020000, node_size = 4096\<rparr>].
       block block_size (p, \<lparr>lsize = 24, lalign = 16\<rparr>) \<subseteq> region_bytes r \<and>
       free_bytes rs' = free_bytes [\<lparr>node_start = 0x80020000, node_size = 4096\<rparr>] -
         {unat (node_start r) ..< unat p + block_size \<lparr>lsize = 24, lalign = 16\<rparr>}))"
  by (rule kalloc_takes) (simp_all add: wf_free_def wf_region_def valid_layout_def is_power_of_two_iff
      exI [of _ "4::nat"])

text \<open>C8: Freeing a block and allocating with the same layout gives the same block back and
  restores the free list, so a steady alloc and free pattern does not fragment the heap.\<close>

theorem kdealloc_kalloc_roundtrip:
  assumes "valid_layout l" "block_fits p l"
  shows "\<exists>rs'. kdealloc rs p l = Some rs' \<and> kalloc rs' l = Some (p, rs)"
proof -
  from assms(1) obtain sz align where sa: "size_align l = Some (sz, align)"
    "is_power_of_two align" "unat (lalign l) dvd unat align" "8 dvd unat align"
    "unat align \<le> 2 ^ 63" "block_size l = unat sz"
    by (rule size_align_valid)
  let ?r = "\<lparr>node_start = p, node_size = sz\<rparr>"
  have r: "wf_region ?r"
    using freed_region(1) [OF assms] by (simp add: sa(6))
  have "unat align dvd unat p"
    using assms(2) size_align_align [OF sa(1)] by (simp add: block_fits_def unat_max max_def)
  then have "ll_align_up p align = p"
    using sa(2,5) assms(2) by (intro ll_align_up_aligned) (simp_all add: block_fits_def)
  moreover have "checked_add p sz = Some (p + sz)"
    using r by (simp add: checked_add_def wf_region_def)
  ultimately have "alloc_from_region ?r sz align = Ok p"
    by (simp add: alloc_from_region_def end_addr_def)
  moreover have "kdealloc rs p l = Some (?r # rs)"
    using kdealloc_eq [OF assms] by (simp add: sa(6))
  ultimately show ?thesis
    using \<open>checked_add p sz = Some (p + sz)\<close> by (simp add: kalloc_def sa(1) end_addr_def)
qed

theorem kdealloc_kalloc_roundtrip_witness:
  "\<exists>rs'. kdealloc [] 0x80020000 \<lparr>lsize = 24, lalign = 8\<rparr> = Some rs' \<and>
     kalloc rs' \<lparr>lsize = 24, lalign = 8\<rparr> = Some (0x80020000, [])"
  by (rule kdealloc_kalloc_roundtrip)
    (simp_all add: block_fits_def block_size_def size_align_def valid_layout_def is_power_of_two_iff
      exI [of _ "3::nat"])

end
