(* ===== verification/Dlist_Chain.thy ===== *)
theory Dlist_Chain
  imports Xv6_Prelude
begin

text \<open>
  Doubly linked chains inside an array.  The buffer cache keeps its buffers in an array whose
  elements point at each other; a pointer is an index or null.  \<open>dll P N p xs n\<close> says that the
  indices \<open>xs\<close> are linked in this order by the \<open>prev\<close> pointers \<open>P\<close> and the \<open>next\<close> pointers
  \<open>N\<close>, between a predecessor \<open>p\<close> and a successor \<open>n\<close>; the lemmas give the effect of
  unlinking an element and of linking one at the front.
\<close>

abbreviation first_or :: "'a option \<Rightarrow> 'a list \<Rightarrow> 'a option" where
  "first_or n xs \<equiv> (if xs = [] then n else Some (hd xs))"

abbreviation last_or :: "'a option \<Rightarrow> 'a list \<Rightarrow> 'a option" where
  "last_or p xs \<equiv> (if xs = [] then p else Some (last xs))"

fun dll :: "(nat \<Rightarrow> nat option) \<Rightarrow> (nat \<Rightarrow> nat option) \<Rightarrow> nat option \<Rightarrow> nat list \<Rightarrow> nat option \<Rightarrow> bool" where
  "dll P N p [] n \<longleftrightarrow> True"
| "dll P N p (x # xs) n \<longleftrightarrow> P x = p \<and> N x = first_or n xs \<and> dll P N (Some x) xs n"

lemma dll_append:
  "dll P N p (xs @ ys) n \<longleftrightarrow> dll P N p xs (first_or n ys) \<and> dll P N (last_or p xs) ys n"
  by (induction xs arbitrary: p) auto

lemma dll_cong:
  assumes "\<And>x. x \<in> set xs \<Longrightarrow> P x = P' x" "\<And>x. x \<in> set xs \<Longrightarrow> N x = N' x"
  shows "dll P N p xs n \<longleftrightarrow> dll P' N' p xs n"
  using assms by (induction xs arbitrary: p) auto

lemma dll_upd_notin [simp]:
  "x \<notin> set xs \<Longrightarrow> dll (P(x := v)) N p xs n = dll P N p xs n"
  "x \<notin> set xs \<Longrightarrow> dll P (N(x := v)) p xs n = dll P N p xs n"
  by (auto intro!: dll_cong)

lemma dll_upd_last:
  assumes "dll P N p xs n" "distinct xs" "xs \<noteq> []"
  shows "dll P (N(last xs := n')) p xs n'"
  using assms
proof (induction xs arbitrary: p)
  case (Cons x xs)
  then show ?case by (cases "xs = []") auto
qed simp

lemma dll_upd_first:
  assumes "dll P N p xs n" "distinct xs" "xs \<noteq> []"
  shows "dll (P(hd xs := p')) N p' xs n"
  using assms by (cases xs) auto

text \<open>Following the chain from its first element enumerates it.\<close>

fun walk :: "nat \<Rightarrow> (nat \<Rightarrow> nat option) \<Rightarrow> nat option \<Rightarrow> nat list" where
  "walk 0 N b = []"
| "walk (Suc k) N None = []"
| "walk (Suc k) N (Some i) = i # walk k N (N i)"

lemma walk_None [simp]: "walk k N None = []"
  by (cases k) auto

lemma walk_dll:
  assumes "dll P N p xs None" "length xs \<le> k"
  shows "walk k N (first_or None xs) = xs"
  using assms
proof (induction xs arbitrary: p k)
  case (Cons x xs)
  from Cons.prems(2) obtain k' where "k = Suc k'"
    by (cases k) auto
  with Cons.prems Cons.IH [of "Some x" k'] show ?case by simp
qed simp

text \<open>Moving an element that is not the first one to the front, in the order in which the cache
  updates the pointers: the neighbours are linked around it, then it is linked in front of the
  old head.\<close>

lemma dll_move_front:
  assumes dll: "dll P N None (as @ i # bs) None" and dist: "distinct (as @ i # bs)" and as: "as \<noteq> []"
  defines "P1 \<equiv> (case N i of None \<Rightarrow> P | Some b \<Rightarrow> P(b := P i))"
  defines "N1 \<equiv> (case P i of None \<Rightarrow> N | Some c \<Rightarrow> N(c := N i))"
  shows "dll ((P1(i := None))(hd as := Some i)) (N1(i := Some (hd as))) None (i # as @ bs) None"
proof -
  from dll as have 1: "dll P N None as (Some i)" and i: "P i = Some (last as)" "N i = first_or None bs"
    and 2: "dll P N (Some i) bs None"
    by (simp_all add: dll_append)
  from dist as have d: "distinct as" "distinct bs" "i \<notin> set as" "i \<notin> set bs" "set as \<inter> set bs = {}"
    by auto
  have P1: "P1 = (if bs = [] then P else P(hd bs := Some (last as)))"
    and N1: "N1 = N(last as := first_or None bs)"
    using i by (auto simp: P1_def N1_def)
  have hb: "bs \<noteq> [] \<Longrightarrow> hd bs \<in> set bs" and ha: "hd as \<in> set as" "last as \<in> set as"
    using as by auto
  have "dll P N1 None as (first_or None bs)"
    using dll_upd_last [OF 1 d(1) as] by (simp add: N1)
  then have "dll (P1(hd as := Some i)) N1 (Some i) as (first_or None bs)"
  proof (subst dll_cong [where P' = "P(hd as := Some i)" and N' = N1])
    show "(P1(hd as := Some i)) x = (P(hd as := Some i)) x" if "x \<in> set as" for x
      using that d(5) hb by (auto simp: P1)
  qed (auto intro: dll_upd_first [OF _ d(1) as])
  then have A: "dll ((P1(i := None))(hd as := Some i)) (N1(i := Some (hd as))) (Some i) as (first_or None bs)"
    using d(3) by (subst dll_cong [where P' = "P1(hd as := Some i)" and N' = N1]) auto
  have "dll P1 N (Some (last as)) bs None"
    using dll_upd_first [OF 2 d(2)] by (cases "bs = []") (auto simp: P1)
  then have B: "dll ((P1(i := None))(hd as := Some i)) (N1(i := Some (hd as))) (Some (last as)) bs None"
    using d ha by (subst dll_cong [where P' = P1 and N' = N]) (auto simp: N1)
  have "hd as \<noteq> i" using d ha by auto
  with A B as show ?thesis
    by (simp add: dll_append)
qed

end
