(* ===== verification/Bio_Lru.thy ===== *)
theory Bio_Lru
  imports Dlist_Chain
begin

text \<open>
  The most-recently-used list of the buffer cache: \<open>BufMetaLru\<close> and \<open>BufMeta\<close> of
  \<open>kernel/src/bio.rs\<close>.

  \<open>BufMetaLru\<close> is an array of \<open>NBUF\<close> meta data records, linked into a most-recently-used
  list by pointers into the array itself; here a pointer is an index or null (\<open>None\<close>), so that
  the aliasing of the source is kept.  The loops follow the pointers, so they are partial
  functions; on a well-formed list they end.  The theory proves that \<open>init\<close>, \<open>find\<close>,
  \<open>recycle\<close> and \<open>brelse\<close> keep the list well formed and implement a plain list of entries in
  most-recently-used order.
\<close>

section \<open>Data\<close>

definition NBUF :: nat where
  "NBUF = unat MAXOPBLOCKS * 3"

record buf_meta =
  bm_index :: nat
  bm_dev :: u32
  bm_blockno :: u32
  bm_refcnt :: usize
  bm_prev :: "nat option"
  bm_next :: "nat option"

record buf_lru =
  inner :: "buf_meta list"
  lru_head :: "nat option"
  lru_tail :: "nat option"

definition new_meta :: "nat \<Rightarrow> buf_meta" where
  "new_meta i = \<lparr>bm_index = i, bm_dev = 0, bm_blockno = 0, bm_refcnt = 0, bm_prev = None, bm_next = None\<rparr>"

definition set_prev :: "nat \<Rightarrow> nat option \<Rightarrow> buf_meta list \<Rightarrow> buf_meta list" where
  "set_prev i v ms = ms[i := (ms ! i)\<lparr>bm_prev := v\<rparr>]"

definition set_next :: "nat \<Rightarrow> nat option \<Rightarrow> buf_meta list \<Rightarrow> buf_meta list" where
  "set_next i v ms = ms[i := (ms ! i)\<lparr>bm_next := v\<rparr>]"

section \<open>The list operations\<close>

definition lru_new :: buf_lru where
  "lru_new = \<lparr>inner = map new_meta [0..<NBUF], lru_head = None, lru_tail = None\<rparr>"

definition lru_init :: "buf_lru \<Rightarrow> buf_lru" where
  "lru_init l =
     (let n = length (inner l);
          ms = set_prev 0 None (inner l);
          ms = set_next 0 (Some 1) ms;
          ms = set_prev (n - 1) (Some (n - 2)) ms;
          ms = set_next (n - 1) None ms;
          ms = fold (\<lambda>i ms. set_next i (Some (i + 1)) (set_prev i (Some (i - 1)) ms)) [1..<n - 1] ms
      in \<lparr>inner = ms, lru_head = Some 0, lru_tail = Some (n - 1)\<rparr>)"

partial_function (option) find_loop ::
    "buf_meta list \<Rightarrow> u32 \<Rightarrow> u32 \<Rightarrow> nat option \<Rightarrow> nat option option" where
  "find_loop ms dev blockno b =
     (case b of
        None \<Rightarrow> Some None
      | Some i \<Rightarrow>
          if bm_dev (ms ! i) = dev \<and> bm_blockno (ms ! i) = blockno then Some (Some i)
          else find_loop ms dev blockno (bm_next (ms ! i)))"

declare find_loop.simps [code]

text \<open>The result is the buffer's index and the address of its reference count, that is the node
  it was found at.\<close>

definition lru_find :: "u32 \<Rightarrow> u32 \<Rightarrow> buf_lru \<Rightarrow> ((nat \<times> nat) option \<times> buf_lru) option" where
  "lru_find dev blockno l = do {
     r \<leftarrow> find_loop (inner l) dev blockno (lru_head l);
     case r of
       None \<Rightarrow> Some (None, l)
     | Some i \<Rightarrow>
         let buf = inner l ! i; buf = buf\<lparr>bm_refcnt := bm_refcnt buf + 1\<rparr>
         in Some (Some (bm_index buf, i), l\<lparr>inner := (inner l)[i := buf]\<rparr>) }"

partial_function (option) recycle_loop :: "buf_meta list \<Rightarrow> nat option \<Rightarrow> nat option option" where
  "recycle_loop ms b =
     (case b of
        None \<Rightarrow> Some None
      | Some i \<Rightarrow>
          if bm_refcnt (ms ! i) = 0 then Some (Some i)
          else recycle_loop ms (bm_prev (ms ! i)))"

declare recycle_loop.simps [code]

definition lru_recycle :: "u32 \<Rightarrow> u32 \<Rightarrow> buf_lru \<Rightarrow> ((nat \<times> nat) option \<times> buf_lru) option" where
  "lru_recycle dev blockno l = do {
     r \<leftarrow> recycle_loop (inner l) (lru_tail l);
     case r of
       None \<Rightarrow> Some (None, l)
     | Some i \<Rightarrow>
         let buf = inner l ! i;
             buf = buf\<lparr>bm_dev := dev, bm_blockno := blockno, bm_refcnt := bm_refcnt buf + 1\<rparr>
         in Some (Some (bm_index buf, i), l\<lparr>inner := (inner l)[i := buf]\<rparr>) }"

text \<open>The relinking of a released buffer in front of the old head.\<close>

definition move_front :: "nat \<Rightarrow> nat option \<Rightarrow> buf_meta list \<Rightarrow> buf_meta list" where
  "move_front i old_head ms =
     (let ms = (case bm_next (ms ! i) of None \<Rightarrow> ms | Some n \<Rightarrow> set_prev n (bm_prev (ms ! i)) ms);
          ms = (case bm_prev (ms ! i) of None \<Rightarrow> ms | Some p \<Rightarrow> set_next p (bm_next (ms ! i)) ms);
          ms = set_prev i None ms;
          ms = set_next i old_head ms
      in (case old_head of None \<Rightarrow> ms | Some h \<Rightarrow> set_prev h (Some i) ms))"

definition lru_brelse :: "nat \<Rightarrow> buf_lru \<Rightarrow> buf_lru option" where
  "lru_brelse i l =
     (if \<not> i < length (inner l) then None
      else let buf = inner l ! i;
               ms = (inner l)[i := buf\<lparr>bm_refcnt := bm_refcnt buf - 1\<rparr>]
           in if bm_refcnt (ms ! i) = 0 \<and> lru_head l \<noteq> Some i
              then let tl = (if lru_tail l = Some i \<and> bm_prev (ms ! i) \<noteq> None
                             then bm_prev (ms ! i) else lru_tail l)
                   in Some \<lparr>inner = move_front i (lru_head l) ms, lru_head = Some i, lru_tail = tl\<rparr>
              else Some (l\<lparr>inner := ms\<rparr>))"

section \<open>The list as a list\<close>

definition prevs :: "buf_meta list \<Rightarrow> nat \<Rightarrow> nat option" where
  "prevs ms i = bm_prev (ms ! i)"

definition nexts :: "buf_meta list \<Rightarrow> nat \<Rightarrow> nat option" where
  "nexts ms i = bm_next (ms ! i)"

definition lru_order :: "buf_lru \<Rightarrow> nat list" where
  "lru_order l = walk (length (inner l)) (nexts (inner l)) (lru_head l)"

text \<open>\<open>lru_rep l xs\<close>: the pointers of \<open>l\<close> link its nodes in the order \<open>xs\<close>, and every node
  is linked exactly once.\<close>

definition lru_rep :: "buf_lru \<Rightarrow> nat list \<Rightarrow> bool" where
  "lru_rep l xs \<longleftrightarrow> length (inner l) = NBUF \<and> dll (prevs (inner l)) (nexts (inner l)) None xs None \<and>
     distinct xs \<and> set xs = {..<NBUF} \<and> lru_head l = first_or None xs \<and> lru_tail l = last_or None xs \<and>
     (\<forall>i < NBUF. bm_index (inner l ! i) = i)"

definition lru_wf :: "buf_lru \<Rightarrow> bool" where
  "lru_wf l \<longleftrightarrow> lru_rep l (lru_order l)"

lemma lru_rep_length: "lru_rep l xs \<Longrightarrow> length xs = NBUF"
  using distinct_card [of xs] by (simp add: lru_rep_def)

lemma lru_rep_order: "lru_rep l xs \<Longrightarrow> lru_order l = xs"
  using lru_rep_length [of l xs] walk_dll [of "prevs (inner l)" "nexts (inner l)" None xs NBUF]
  by (simp add: lru_rep_def lru_order_def)

lemma lru_wf_iff: "lru_wf l \<longleftrightarrow> (\<exists>xs. lru_rep l xs)"
  unfolding lru_wf_def by (metis lru_rep_order)

lemma nth_set_prev:
  "set_prev i v ms ! k = (if k = i \<and> i < length ms then (ms ! i)\<lparr>bm_prev := v\<rparr> else ms ! k)"
  by (cases "i < length ms"; cases "k = i") (simp_all add: set_prev_def list_update_beyond)

lemma set_prev_sel [simp]:
  "length (set_prev i v ms) = length ms"
  "i < length ms \<Longrightarrow> prevs (set_prev i v ms) = (prevs ms)(i := v)"
  "nexts (set_prev i v ms) = nexts ms"
  "bm_index (set_prev i v ms ! k) = bm_index (ms ! k)"
  "bm_dev (set_prev i v ms ! k) = bm_dev (ms ! k)"
  "bm_blockno (set_prev i v ms ! k) = bm_blockno (ms ! k)"
  "bm_refcnt (set_prev i v ms ! k) = bm_refcnt (ms ! k)"
  by (simp_all add: fun_eq_iff prevs_def nexts_def nth_set_prev) (simp add: set_prev_def)

lemma nth_set_next:
  "set_next i v ms ! k = (if k = i \<and> i < length ms then (ms ! i)\<lparr>bm_next := v\<rparr> else ms ! k)"
  by (cases "i < length ms"; cases "k = i") (simp_all add: set_next_def list_update_beyond)

lemma set_next_sel [simp]:
  "length (set_next i v ms) = length ms"
  "i < length ms \<Longrightarrow> nexts (set_next i v ms) = (nexts ms)(i := v)"
  "prevs (set_next i v ms) = prevs ms"
  "bm_index (set_next i v ms ! k) = bm_index (ms ! k)"
  "bm_dev (set_next i v ms ! k) = bm_dev (ms ! k)"
  "bm_blockno (set_next i v ms ! k) = bm_blockno (ms ! k)"
  "bm_refcnt (set_next i v ms ! k) = bm_refcnt (ms ! k)"
  by (simp_all add: fun_eq_iff prevs_def nexts_def nth_set_next) (simp add: set_next_def)

lemma find_loop_null: "find_loop ms dev blockno None = Some None"
  by (subst find_loop.simps) (simp only: option.case)

lemma find_loop_node:
  "find_loop ms dev blockno (Some i) =
     (if bm_dev (ms ! i) = dev \<and> bm_blockno (ms ! i) = blockno then Some (Some i)
      else find_loop ms dev blockno (nexts ms i))"
  by (subst find_loop.simps) (simp only: option.case nexts_def)

lemma recycle_loop_null: "recycle_loop ms None = Some None"
  by (subst recycle_loop.simps) (simp only: option.case)

lemma recycle_loop_node:
  "recycle_loop ms (Some i) =
     (if bm_refcnt (ms ! i) = 0 then Some (Some i) else recycle_loop ms (prevs ms i))"
  by (subst recycle_loop.simps) (simp only: option.case prevs_def)

lemma find_loop_dll:
  assumes "dll P (nexts ms) p xs None"
  shows "find_loop ms dev blockno (first_or None xs) =
    Some (find (\<lambda>i. bm_dev (ms ! i) = dev \<and> bm_blockno (ms ! i) = blockno) xs)"
  using assms
proof (induction xs arbitrary: p)
  case Nil
  show ?case by (simp add: find_loop_null)
next
  case (Cons x xs)
  then have n: "nexts ms x = first_or None xs" and d: "dll P (nexts ms) (Some x) xs None"
    by simp_all
  have "find_loop ms dev blockno (first_or None (x # xs)) = find_loop ms dev blockno (Some x)"
    by simp
  also have "\<dots> = (if bm_dev (ms ! x) = dev \<and> bm_blockno (ms ! x) = blockno then Some (Some x)
      else Some (find (\<lambda>i. bm_dev (ms ! i) = dev \<and> bm_blockno (ms ! i) = blockno) xs))"
    by (simp only: find_loop_node n Cons.IH [OF d])
  finally show ?case by simp
qed

lemma recycle_loop_dll:
  assumes "dll (prevs ms) N None xs n"
  shows "recycle_loop ms (last_or None xs) = Some (find (\<lambda>i. bm_refcnt (ms ! i) = 0) (rev xs))"
  using assms
proof (induction xs arbitrary: n rule: rev_induct)
  case Nil
  show ?case by (simp add: recycle_loop_null)
next
  case (snoc x xs)
  from snoc.prems have p: "prevs ms x = last_or None xs" and d: "dll (prevs ms) N None xs (Some x)"
    by (simp_all only: dll_append dll.simps) simp_all
  have "recycle_loop ms (last_or None (xs @ [x])) = recycle_loop ms (Some x)"
    by simp
  also have "\<dots> = (if bm_refcnt (ms ! x) = 0 then Some (Some x)
      else Some (find (\<lambda>i. bm_refcnt (ms ! i) = 0) (rev xs)))"
    by (simp only: recycle_loop_node p snoc.IH [OF d])
  finally show ?case by simp
qed

text \<open>Changing a node without touching its links keeps the order.\<close>

definition same_links :: "buf_meta list \<Rightarrow> buf_meta list \<Rightarrow> bool" where
  "same_links ms ms' \<longleftrightarrow> length ms' = length ms \<and> prevs ms' = prevs ms \<and> nexts ms' = nexts ms \<and>
     (\<forall>i. bm_index (ms' ! i) = bm_index (ms ! i))"

lemma same_links_update:
  assumes "bm_prev m = bm_prev (ms ! i)" "bm_next m = bm_next (ms ! i)" "bm_index m = bm_index (ms ! i)"
  shows "same_links ms (ms[i := m])"
  using assms by (cases "i < length ms")
    (auto simp: same_links_def prevs_def nexts_def fun_eq_iff nth_list_update list_update_beyond)

lemma lru_rep_same_links:
  "lru_rep l xs \<Longrightarrow> same_links (inner l) ms \<Longrightarrow> lru_rep (l\<lparr>inner := ms\<rparr>) xs"
  by (simp add: lru_rep_def same_links_def)

section \<open>Initialisation\<close>

lemma NBUF_eq: "NBUF = 30"
  by (simp add: NBUF_def param_values)

lemma dll_upt:
  assumes "\<And>i. i < b \<Longrightarrow> a \<le> i \<Longrightarrow> P i = (if i = 0 then None else Some (i - 1))"
    and "\<And>i. i < b \<Longrightarrow> a \<le> i \<Longrightarrow> N i = (if Suc i = b then None else Some (Suc i))"
  shows "dll P N (if a = 0 then None else Some (a - 1)) [a..<b] None"
  using assms
proof (induction "b - a" arbitrary: a)
  case (Suc k)
  then have ab: "a < b" by simp
  have "dll P N (if Suc a = 0 then None else Some (Suc a - 1)) [Suc a..<b] None"
    by (rule Suc.hyps(1)) (use Suc in auto)
  with Suc.prems [of a] ab show ?case
    by (simp add: upt_conv_Cons)
qed simp

lemma lru_init_rep: "lru_rep (lru_init lru_new) [0..<NBUF]"
proof -
  let ?ms = "inner (lru_init lru_new)"
  have ms: "length ?ms = NBUF \<and> list_all (\<lambda>i. bm_index (?ms ! i) = i \<and>
      prevs ?ms i = (if i = 0 then None else Some (i - 1)) \<and>
      nexts ?ms i = (if Suc i = NBUF then None else Some (Suc i))) [0..<NBUF]"
    by (simp only: NBUF_eq lru_init_def lru_new_def new_meta_def prevs_def nexts_def set_prev_def
        set_next_def) code_simp
  then have *: "length ?ms = NBUF" "\<And>i. i < NBUF \<Longrightarrow> bm_index (?ms ! i) = i"
    "\<And>i. i < NBUF \<Longrightarrow> prevs ?ms i = (if i = 0 then None else Some (i - 1))"
    "\<And>i. i < NBUF \<Longrightarrow> nexts ?ms i = (if Suc i = NBUF then None else Some (Suc i))"
    by (auto simp: list_all_iff)
  moreover have "dll (prevs ?ms) (nexts ?ms) None [0..<NBUF] None"
    using dll_upt [of NBUF 0 "prevs ?ms" "nexts ?ms"] * by simp
  moreover have "lru_head (lru_init lru_new) = Some 0" "lru_tail (lru_init lru_new) = Some (NBUF - 1)"
    by (simp_all add: lru_init_def lru_new_def Let_def)
  ultimately show ?thesis
    by (auto simp: lru_rep_def NBUF_eq)
qed

section \<open>Refinement of a list of entries\<close>

record cache_entry =
  e_index :: nat
  e_dev :: u32
  e_blockno :: u32
  e_refcnt :: usize

definition entry :: "buf_meta \<Rightarrow> cache_entry" where
  "entry m = \<lparr>e_index = bm_index m, e_dev = bm_dev m, e_blockno = bm_blockno m, e_refcnt = bm_refcnt m\<rparr>"

definition lru_abs :: "buf_lru \<Rightarrow> cache_entry list" where
  "lru_abs l = map (\<lambda>i. entry (inner l ! i)) (lru_order l)"

definition upd_entry :: "nat \<Rightarrow> (cache_entry \<Rightarrow> cache_entry) \<Rightarrow> cache_entry list \<Rightarrow> cache_entry list" where
  "upd_entry i f es = map (\<lambda>e. if e_index e = i then f e else e) es"

text \<open>The specification: the first entry in most-recently-used order is looked up, the last one
  with no reference is recycled, and a release that drops the last reference moves the entry
  to the front.\<close>

definition spec_find :: "u32 \<Rightarrow> u32 \<Rightarrow> cache_entry list \<Rightarrow> nat option \<times> cache_entry list" where
  "spec_find dev blockno es =
     (case find (\<lambda>e. e_dev e = dev \<and> e_blockno e = blockno) es of
        None \<Rightarrow> (None, es)
      | Some e \<Rightarrow> (Some (e_index e), upd_entry (e_index e) (\<lambda>e. e\<lparr>e_refcnt := e_refcnt e + 1\<rparr>) es))"

definition spec_recycle :: "u32 \<Rightarrow> u32 \<Rightarrow> cache_entry list \<Rightarrow> nat option \<times> cache_entry list" where
  "spec_recycle dev blockno es =
     (case find (\<lambda>e. e_refcnt e = 0) (rev es) of
        None \<Rightarrow> (None, es)
      | Some e \<Rightarrow> (Some (e_index e),
          upd_entry (e_index e) (\<lambda>e. e\<lparr>e_dev := dev, e_blockno := blockno, e_refcnt := 1\<rparr>) es))"

definition spec_brelse :: "nat \<Rightarrow> cache_entry list \<Rightarrow> cache_entry list" where
  "spec_brelse i es =
     (let es' = upd_entry i (\<lambda>e. e\<lparr>e_refcnt := e_refcnt e - 1\<rparr>) es;
          (hit, rest) = partition (\<lambda>e. e_index e = i) es'
      in if list_all (\<lambda>e. e_refcnt e = 0) hit then hit @ rest else es')"

lemma lru_rep_simps:
  assumes "lru_rep l xs"
  shows "length (inner l) = NBUF" "i \<in> set xs \<longleftrightarrow> i < NBUF" "distinct xs"
    "i < NBUF \<Longrightarrow> bm_index (inner l ! i) = i" "lru_abs l = map (\<lambda>i. entry (inner l ! i)) xs"
  using assms lru_rep_order [OF assms] by (auto simp: lru_rep_def lru_abs_def)

lemma distinct_filter_eq_single: "distinct xs \<Longrightarrow> x \<in> set xs \<Longrightarrow> filter (\<lambda>k. k = x) xs = [x]"
  by (induction xs) (auto simp: filter_empty_conv)

lemma find_SomeD: "find Q xs = Some x \<Longrightarrow> x \<in> set xs \<and> Q x"
  by (auto simp: find_Some_iff)

lemma find_map: "find Q (map f xs) = map_option f (find (\<lambda>x. Q (f x)) xs)"
  by (induction xs) auto

lemma lru_find_eq:
  assumes "lru_rep l xs"
  shows "lru_find dev blockno l =
    Some (case find (\<lambda>i. bm_dev (inner l ! i) = dev \<and> bm_blockno (inner l ! i) = blockno) xs of
            None \<Rightarrow> (None, l)
          | Some i \<Rightarrow> (Some (i, i), l\<lparr>inner := (inner l)[i := (inner l ! i)\<lparr>bm_refcnt := bm_refcnt (inner l ! i) + 1\<rparr>]\<rparr>))"
proof -
  have "find_loop (inner l) dev blockno (lru_head l) =
      Some (find (\<lambda>i. bm_dev (inner l ! i) = dev \<and> bm_blockno (inner l ! i) = blockno) xs)"
    using assms find_loop_dll [of "prevs (inner l)" "inner l" None xs] by (simp only: lru_rep_def)
  moreover have "bm_index (inner l ! i) = i" if "find (\<lambda>i. bm_dev (inner l ! i) = dev \<and> bm_blockno (inner l ! i) = blockno) xs = Some i" for i
    using find_SomeD [OF that] lru_rep_simps(2,4) [OF assms] by simp
  ultimately show ?thesis
    by (cases "find (\<lambda>i. bm_dev (inner l ! i) = dev \<and> bm_blockno (inner l ! i) = blockno) xs") (simp_all add: lru_find_def Let_def)
qed

lemma lru_recycle_eq:
  assumes "lru_rep l xs"
  shows "lru_recycle dev blockno l =
    Some (case find (\<lambda>i. bm_refcnt (inner l ! i) = 0) (rev xs) of
            None \<Rightarrow> (None, l)
          | Some i \<Rightarrow> (Some (i, i), l\<lparr>inner := (inner l)[i := (inner l ! i)
              \<lparr>bm_dev := dev, bm_blockno := blockno, bm_refcnt := bm_refcnt (inner l ! i) + 1\<rparr>]\<rparr>))"
proof -
  have "recycle_loop (inner l) (lru_tail l) = Some (find (\<lambda>i. bm_refcnt (inner l ! i) = 0) (rev xs))"
    using assms recycle_loop_dll [of "inner l" "nexts (inner l)" xs None] by (simp only: lru_rep_def)
  moreover have "bm_index (inner l ! i) = i" if "find (\<lambda>i. bm_refcnt (inner l ! i) = 0) (rev xs) = Some i" for i
    using find_SomeD [OF that] lru_rep_simps(2,4) [OF assms] by simp
  ultimately show ?thesis
    by (cases "find (\<lambda>i. bm_refcnt (inner l ! i) = 0) (rev xs)") (simp_all add: lru_recycle_def Let_def)
qed

lemma upd_entry_abs:
  assumes "lru_rep l xs" "i < NBUF"
  shows "upd_entry i f (lru_abs l) =
    map (\<lambda>k. if k = i then f (entry (inner l ! i)) else entry (inner l ! k)) xs"
proof -
  have "e_index (entry (inner l ! k)) = k" if "k \<in> set xs" for k
    using that lru_rep_simps(2,4) [OF assms(1)] by (simp add: entry_def)
  then show ?thesis
    using assms by (auto simp: upd_entry_def lru_rep_simps(5))
qed

lemma map_entry_update:
  assumes "i < length ms"
  shows "map (\<lambda>k. entry (ms[i := m] ! k)) xs = map (\<lambda>k. if k = i then entry m else entry (ms ! k)) xs"
  using assms by (auto simp: nth_list_update)

lemma move_front_data:
  "length (move_front i h ms) = length ms"
  "bm_index (move_front i h ms ! k) = bm_index (ms ! k)"
  "bm_dev (move_front i h ms ! k) = bm_dev (ms ! k)"
  "bm_blockno (move_front i h ms ! k) = bm_blockno (ms ! k)"
  "bm_refcnt (move_front i h ms ! k) = bm_refcnt (ms ! k)"
  by (simp_all add: move_front_def Let_def split: option.splits)

lemma move_front_dll:
  assumes d: "dll (prevs ms) (nexts ms) None (as @ i # bs) None" "distinct (as @ i # bs)" "as \<noteq> []"
    and len: "\<forall>k \<in> set (as @ i # bs). k < length ms"
  shows "dll (prevs (move_front i (Some (hd as)) ms)) (nexts (move_front i (Some (hd as)) ms))
    None (i # as @ bs) None"
proof -
  have pi: "prevs ms i = Some (last as)" and ni: "nexts ms i = first_or None bs"
    using d by (simp_all add: dll_append)
  have lt: "i < length ms" "hd as < length ms" "last as < length ms"
    and lb: "bs \<noteq> [] \<Longrightarrow> hd bs < length ms" and nb: "bs \<noteq> [] \<Longrightarrow> hd bs \<noteq> i"
    using d(2,3) len by auto
  define ms1 where "ms1 = (case nexts ms i of None \<Rightarrow> ms | Some n \<Rightarrow> set_prev n (prevs ms i) ms)"
  have p1: "prevs ms1 = (case nexts ms i of None \<Rightarrow> prevs ms | Some b \<Rightarrow> (prevs ms)(b := prevs ms i))"
    and n1: "nexts ms1 = nexts ms" and l1: "length ms1 = length ms"
    using ni lb by (auto simp: ms1_def)
  have i1: "prevs ms1 i = prevs ms i"
    using ni nb by (auto simp: p1)
  define ms2 where "ms2 = set_next (last as) (nexts ms i) ms1"
  have "move_front i (Some (hd as)) ms =
      set_prev (hd as) (Some i) (set_next i (Some (hd as)) (set_prev i None ms2))"
    unfolding move_front_def Let_def prevs_def [symmetric] nexts_def [symmetric] ms1_def [symmetric]
    by (simp add: i1 pi n1 ms2_def)
  then have "prevs (move_front i (Some (hd as)) ms) = ((prevs ms1)(i := None))(hd as := Some i)"
    "nexts (move_front i (Some (hd as)) ms) = ((nexts ms)(last as := nexts ms i))(i := Some (hd as))"
    using lt l1 n1 by (simp_all add: ms2_def)
  then show ?thesis
    using dll_move_front [OF d] by (simp only: p1 pi option.case)
qed

lemma lru_brelse_rep:
  assumes rep: "lru_rep l xs" and i: "i < NBUF"
  obtains l' where "lru_brelse i l = Some l'"
    "lru_rep l' (if bm_refcnt (inner l ! i) = 1 then i # remove1 i xs else xs)"
    "\<And>k. entry (inner l' ! k) =
       (if k = i then (entry (inner l ! i))\<lparr>e_refcnt := bm_refcnt (inner l ! i) - 1\<rparr> else entry (inner l ! k))"
proof -
  let ?b = "inner l ! i"
  define ms where "ms = (inner l)[i := ?b\<lparr>bm_refcnt := bm_refcnt ?b - 1\<rparr>]"
  have len: "length (inner l) = NBUF" "length ms = NBUF"
    using rep by (simp_all add: lru_rep_def ms_def)
  have ent: "entry (ms ! k) = (if k = i then (entry ?b)\<lparr>e_refcnt := bm_refcnt ?b - 1\<rparr> else entry (inner l ! k))" for k
    using i len by (simp add: ms_def nth_list_update entry_def)
  have rep1: "lru_rep (l\<lparr>inner := ms\<rparr>) xs"
    unfolding ms_def by (rule lru_rep_same_links [OF rep same_links_update]) simp_all
  have ref: "bm_refcnt (ms ! i) = bm_refcnt ?b - 1"
    using i len by (simp add: ms_def)
  have un: "lru_brelse i l =
      (if bm_refcnt (ms ! i) = 0 \<and> lru_head l \<noteq> Some i
       then Some \<lparr>inner = move_front i (lru_head l) ms, lru_head = Some i,
         lru_tail = (if lru_tail l = Some i \<and> bm_prev (ms ! i) \<noteq> None then bm_prev (ms ! i) else lru_tail l)\<rparr>
       else Some (l\<lparr>inner := ms\<rparr>))"
    using i by (simp only: lru_brelse_def Let_def ms_def [symmetric] len not_not simp_thms if_False)
  obtain as bs where xs: "xs = as @ i # bs"
    using i rep by (metis lru_rep_simps(2) split_list)
  have dist: "distinct (as @ i # bs)"
    using rep xs by (simp add: lru_rep_def)
  show ?thesis
  proof (cases "bm_refcnt ?b = 1 \<and> as \<noteq> []")
    case True
    note dll = rep1 [unfolded lru_rep_def xs, simplified]
    have hd: "lru_head l = Some (hd as)" and tl: "lru_tail l = (if bs = [] then Some i else Some (last bs))"
      using rep True by (simp_all add: lru_rep_def xs)
    have pi: "bm_prev (ms ! i) = Some (last as)"
      using dll True by (simp add: dll_append prevs_def)
    have "i \<notin> set as" "i \<notin> set bs"
      using dist by auto
    then have nhd: "hd as \<noteq> i" and ntl: "bs \<noteq> [] \<Longrightarrow> last bs \<noteq> i"
      using True by (metis hd_in_set, metis last_in_set)
    let ?l = "\<lparr>inner = move_front i (Some (hd as)) ms, lru_head = Some i,
      lru_tail = (if bs = [] then Some (last as) else Some (last bs))\<rparr>"
    have "lru_brelse i l = Some ?l"
      using True ref nhd ntl pi by (simp add: un hd tl)
    moreover have "dll (prevs (move_front i (Some (hd as)) ms)) (nexts (move_front i (Some (hd as)) ms))
        None (i # as @ bs) None"
      using True dist dll len by (intro move_front_dll) auto
    then have "lru_rep ?l (i # as @ bs)"
      using dll dist True unfolding lru_rep_def by (auto simp: move_front_data)
    moreover have "remove1 i xs = as @ bs"
      using \<open>i \<notin> set as\<close> by (simp add: xs remove1_append)
    ultimately show ?thesis
      using that [of ?l] True ent by (simp add: entry_def move_front_data)
  next
    case False
    have "lru_head l = Some i \<and> remove1 i xs = bs" if "as = []"
      using rep that by (simp add: lru_rep_def xs)
    moreover have "bm_refcnt ?b - 1 = 0 \<longleftrightarrow> bm_refcnt ?b = 1"
      by (metis diff_add_cancel diff_self add_0)
    ultimately have "lru_brelse i l = Some (l\<lparr>inner := ms\<rparr>)"
      and "(if bm_refcnt ?b = 1 then i # remove1 i xs else xs) = xs"
      using False ref by (auto simp: un xs)
    with that [of "l\<lparr>inner := ms\<rparr>"] rep1 ent show ?thesis by simp
  qed
qed

lemma lru_init_entries:
  assumes "i < NBUF"
  shows "entry (inner (lru_init lru_new) ! i) = \<lparr>e_index = i, e_dev = 0, e_blockno = 0, e_refcnt = 0\<rparr>"
proof -
  have fold: "entry (fold (\<lambda>i ms. set_next i (Some (i + 1)) (set_prev i (Some (i - 1)) ms)) js ms ! k) =
      entry (ms ! k)" for js ms k
    by (induction js arbitrary: ms) (simp_all add: entry_def)
  show ?thesis
    unfolding lru_init_def lru_new_def Let_def buf_lru.simps fold
    using assms by (simp add: entry_def new_meta_def)
qed

lemma lru_find_refines:
  assumes rep: "lru_rep l xs"
  shows "\<exists>r l'. lru_find dev blockno l = Some (r, l') \<and> lru_rep l' xs \<and>
    (map_option fst r, lru_abs l') = spec_find dev blockno (lru_abs l)"
proof -
  let ?Q = "\<lambda>i. bm_dev (inner l ! i) = dev \<and> bm_blockno (inner l ! i) = blockno"
  note simps = lru_rep_simps [OF rep]
  have sp: "find (\<lambda>e. e_dev e = dev \<and> e_blockno e = blockno) (lru_abs l) =
      map_option (\<lambda>i. entry (inner l ! i)) (find ?Q xs)"
    by (simp add: simps(5) find_map entry_def)
  show ?thesis
  proof (cases "find ?Q xs")
    case None
    then show ?thesis
      using rep sp by (simp add: lru_find_eq [OF rep] spec_find_def)
  next
    case (Some i)
    let ?m = "(inner l ! i)\<lparr>bm_refcnt := bm_refcnt (inner l ! i) + 1\<rparr>"
    let ?l = "l\<lparr>inner := (inner l)[i := ?m]\<rparr>"
    have i: "i < NBUF" "bm_index (inner l ! i) = i"
      using find_SomeD [OF Some] simps(2,4) by auto
    have rep': "lru_rep ?l xs"
      by (rule lru_rep_same_links [OF rep same_links_update]) simp_all
    have "lru_abs ?l = upd_entry i (\<lambda>e. e\<lparr>e_refcnt := e_refcnt e + 1\<rparr>) (lru_abs l)"
      using i simps(1) unfolding lru_rep_simps(5) [OF rep'] upd_entry_abs [OF rep i(1)]
      by (simp add: map_entry_update) (simp add: entry_def)
    with rep' Some sp i show ?thesis
      by (simp add: lru_find_eq [OF rep] spec_find_def entry_def)
  qed
qed

lemma lru_recycle_refines:
  assumes rep: "lru_rep l xs"
  shows "\<exists>r l'. lru_recycle dev blockno l = Some (r, l') \<and> lru_rep l' xs \<and>
    (map_option fst r, lru_abs l') = spec_recycle dev blockno (lru_abs l)"
proof -
  let ?Q = "\<lambda>i. bm_refcnt (inner l ! i) = 0"
  note simps = lru_rep_simps [OF rep]
  have sp: "find (\<lambda>e. e_refcnt e = 0) (rev (lru_abs l)) =
      map_option (\<lambda>i. entry (inner l ! i)) (find ?Q (rev xs))"
    by (simp add: simps(5) rev_map find_map entry_def)
  show ?thesis
  proof (cases "find ?Q (rev xs)")
    case None
    then show ?thesis
      using rep sp by (simp add: lru_recycle_eq [OF rep] spec_recycle_def)
  next
    case (Some i)
    let ?m = "(inner l ! i)\<lparr>bm_dev := dev, bm_blockno := blockno, bm_refcnt := bm_refcnt (inner l ! i) + 1\<rparr>"
    let ?l = "l\<lparr>inner := (inner l)[i := ?m]\<rparr>"
    have i: "i < NBUF" "bm_index (inner l ! i) = i" "bm_refcnt (inner l ! i) = 0"
      using find_SomeD [OF Some] simps(2,4) by auto
    have rep': "lru_rep ?l xs"
      by (rule lru_rep_same_links [OF rep same_links_update]) simp_all
    have "lru_abs ?l = upd_entry i (\<lambda>e. e\<lparr>e_dev := dev, e_blockno := blockno, e_refcnt := 1\<rparr>) (lru_abs l)"
      using i simps(1) unfolding lru_rep_simps(5) [OF rep'] upd_entry_abs [OF rep i(1)]
      by (simp add: map_entry_update) (simp add: entry_def)
    with rep' Some sp i show ?thesis
      by (simp add: lru_recycle_eq [OF rep] spec_recycle_def entry_def)
  qed
qed

lemma lru_brelse_refines:
  assumes rep: "lru_rep l xs" and i: "i < NBUF"
  shows "\<exists>l' xs'. lru_brelse i l = Some l' \<and> lru_rep l' xs' \<and> lru_abs l' = spec_brelse i (lru_abs l)"
proof -
  let ?r = "bm_refcnt (inner l ! i)"
  note simps = lru_rep_simps [OF rep]
  obtain l' where l': "lru_brelse i l = Some l'"
    "lru_rep l' (if ?r = 1 then i # remove1 i xs else xs)"
    and ent: "\<And>k. entry (inner l' ! k) =
       (if k = i then (entry (inner l ! i))\<lparr>e_refcnt := ?r - 1\<rparr> else entry (inner l ! k))"
    using lru_brelse_rep [OF rep i] by blast
  let ?es = "map (\<lambda>k. entry (inner l' ! k)) xs"
  have upd: "upd_entry i (\<lambda>e. e\<lparr>e_refcnt := e_refcnt e - 1\<rparr>) (lru_abs l) = ?es"
    by (simp add: upd_entry_abs [OF rep i] ent) (simp add: entry_def)
  have idx: "e_index (entry (inner l' ! k)) = k" if "k \<in> set xs" for k
    using that ent [of k] simps(2,4) by (auto simp: entry_def)
  have part: "filter (\<lambda>e. e_index e = i) ?es = [entry (inner l' ! i)]"
    "filter (\<lambda>e. e_index e \<noteq> i) ?es = map (\<lambda>k. entry (inner l' ! k)) (remove1 i xs)"
  proof -
    have f: "filter (\<lambda>k. e_index (entry (inner l' ! k)) = i) xs = filter (\<lambda>k. k = i) xs"
      "filter (\<lambda>k. e_index (entry (inner l' ! k)) \<noteq> i) xs = filter (\<lambda>k. k \<noteq> i) xs"
      using idx by (auto intro: filter_cong)
    have "filter (\<lambda>k. k = i) xs = [i]"
      using simps(2,3) i by (metis distinct_filter_eq_single)
    then show "filter (\<lambda>e. e_index e = i) ?es = [entry (inner l' ! i)]"
      by (simp add: filter_map comp_def f)
    have "filter (\<lambda>k. k \<noteq> i) xs = remove1 i xs"
      using simps(3) by (auto simp: distinct_remove1_removeAll removeAll_filter_not_eq intro: filter_cong)
    then show "filter (\<lambda>e. e_index e \<noteq> i) ?es = map (\<lambda>k. entry (inner l' ! k)) (remove1 i xs)"
      by (simp add: filter_map comp_def f)
  qed
  have "?r - 1 = 0 \<longleftrightarrow> ?r = 1"
    by (metis diff_add_cancel diff_self add_0)
  then have "spec_brelse i (lru_abs l) = map (\<lambda>k. entry (inner l' ! k)) (if ?r = 1 then i # remove1 i xs else xs)"
    using part ent [of i] by (simp add: spec_brelse_def upd Let_def comp_def)
  with l' lru_rep_simps(5) [OF l'(2)] show ?thesis by auto
qed

text \<open>C4: The pointer operations on the buffer list always return and implement the list of
  entries in most-recently-used order: after \<open>init\<close> the list is well formed, \<open>find\<close> takes a
  reference on the first matching entry, \<open>recycle\<close> takes over the least recently used entry
  that has no reference, and \<open>brelse\<close> drops a reference and moves an entry without references
  to the front; the list stays well formed.\<close>

theorem lru_refines_list:
  assumes "lru_wf l" "i < NBUF"
  shows "lru_wf (lru_init lru_new) \<and>
    lru_abs (lru_init lru_new) = map (\<lambda>i. \<lparr>e_index = i, e_dev = 0, e_blockno = 0, e_refcnt = 0\<rparr>) [0..<NBUF] \<and>
    (\<exists>r l'. lru_find dev blockno l = Some (r, l') \<and> lru_wf l' \<and>
       (map_option fst r, lru_abs l') = spec_find dev blockno (lru_abs l)) \<and>
    (\<exists>r l'. lru_recycle dev blockno l = Some (r, l') \<and> lru_wf l' \<and>
       (map_option fst r, lru_abs l') = spec_recycle dev blockno (lru_abs l)) \<and>
    (\<exists>l'. lru_brelse i l = Some l' \<and> lru_wf l' \<and> lru_abs l' = spec_brelse i (lru_abs l))"
proof -
  obtain xs where rep: "lru_rep l xs"
    using assms(1) by (auto simp: lru_wf_iff)
  have "lru_abs (lru_init lru_new) = map (\<lambda>i. \<lparr>e_index = i, e_dev = 0, e_blockno = 0, e_refcnt = 0\<rparr>) [0..<NBUF]"
    unfolding lru_rep_simps(5) [OF lru_init_rep] by (auto simp: lru_init_entries)
  then show ?thesis
    using lru_init_rep lru_find_refines [OF rep] lru_recycle_refines [OF rep]
      lru_brelse_refines [OF rep assms(2)]
    unfolding lru_wf_iff by blast
qed

theorem lru_refines_list_witness:
  "\<exists>l'. lru_brelse 3 (lru_init lru_new) = Some l' \<and> lru_wf l' \<and>
     lru_abs l' = spec_brelse 3 (lru_abs (lru_init lru_new))"
proof -
  have "lru_wf (lru_init lru_new)"
    using lru_init_rep by (auto simp: lru_wf_iff)
  moreover have "3 < NBUF"
    by (simp add: NBUF_eq)
  ultimately show ?thesis
    using lru_refines_list [of "lru_init lru_new" 3] by blast
qed

end
