(* ===== verification/Bio.thy ===== *)
theory Bio
  imports Bio_Lru
begin

text \<open>
  The buffer cache: \<open>BCache\<close>, \<open>BufGuard\<close> and \<open>Buf\<close> of \<open>kernel/src/bio.rs\<close>, over the disk.

  Disk contents are a function from block numbers to blocks (the driver addresses sectors by
  the block number alone), and every write is also recorded in \<open>writes\<close>, in order, so that
  crash states are prefixes of it.  A block is its 4096 bytes.  The operations are those of one
  thread of control: a thread that would wait for a buffer it holds itself gets \<open>None\<close>, like
  one that meets the panic \<open>bcache: no buffers\<close>.

  What a client of the cache sees is the \<open>view\<close>: for every block, the cached contents if
  there are any and the disk contents otherwise.  The lemmas \<open>bread_law\<close>, \<open>set_buf_data_law\<close>,
  \<open>bwrite_law\<close>, \<open>bpin_law\<close>, \<open>bunpin_law\<close> and \<open>buf_drop_law\<close> describe the operations by
  their effect on the view, the disk, the reference counts and the held blocks alone; the log
  is verified on top of them.
\<close>

section \<open>State and operations\<close>

type_synonym block = "nat \<Rightarrow> u8"

definition BSIZE :: nat where
  "BSIZE = 4096"

record buf =
  valid :: bool
  locked :: bool
  data :: block

record bcache =
  lru :: buf_lru
  bufs :: "buf list"
  disk :: "u32 \<Rightarrow> block"
  writes :: "(u32 \<times> block) list"

record buf_guard =
  g_index :: nat
  g_blockno :: u32
  g_rc :: nat

definition new_buf :: buf where
  "new_buf = \<lparr>valid = False, locked = False, data = (\<lambda>_. 0)\<rparr>"

text \<open>\<open>BCACHE\<close> after \<open>init\<close>, on a given disk.\<close>

definition bcache_init :: "(u32 \<Rightarrow> block) \<Rightarrow> bcache" where
  "bcache_init d = \<lparr>lru = lru_init lru_new, bufs = replicate NBUF new_buf, disk = d, writes = []\<rparr>"

definition upd_buf :: "nat \<Rightarrow> (buf \<Rightarrow> buf) \<Rightarrow> 'z bcache_scheme \<Rightarrow> 'z bcache_scheme" where
  "upd_buf i f s = s\<lparr>bufs := (bufs s)[i := f (bufs s ! i)]\<rparr>"

definition lock_data :: "nat \<Rightarrow> 'z bcache_scheme \<Rightarrow> 'z bcache_scheme option" where
  "lock_data i s = (if locked (bufs s ! i) then None else Some (upd_buf i (locked_update (\<lambda>_. True)) s))"

definition bget :: "u32 \<Rightarrow> u32 \<Rightarrow> 'z bcache_scheme \<Rightarrow> (buf_guard \<times> 'z bcache_scheme) option" where
  "bget dev blockno s = do {
     (r, l) \<leftarrow> lru_find dev blockno (lru s);
     case r of
       Some (i, rc) \<Rightarrow> do {
         s \<leftarrow> lock_data i (s\<lparr>lru := l\<rparr>);
         Some (\<lparr>g_index = i, g_blockno = blockno, g_rc = rc\<rparr>, s) }
     | None \<Rightarrow> do {
         (r, l) \<leftarrow> lru_recycle dev blockno (lru s);
         case r of
           Some (i, rc) \<Rightarrow> do {
             s \<leftarrow> lock_data i (upd_buf i (valid_update (\<lambda>_. False)) (s\<lparr>lru := l\<rparr>));
             Some (\<lparr>g_index = i, g_blockno = blockno, g_rc = rc\<rparr>, s) }
         | None \<Rightarrow> None } }"

definition bread :: "u32 \<Rightarrow> u32 \<Rightarrow> 'z bcache_scheme \<Rightarrow> (buf_guard \<times> 'z bcache_scheme) option" where
  "bread dev blockno s = do {
     (g, s) \<leftarrow> bget dev blockno s;
     if \<not> valid (bufs s ! g_index g)
     then let s = upd_buf (g_index g) (data_update (\<lambda>_. disk s (g_blockno g))) s;
              s = upd_buf (g_index g) (valid_update (\<lambda>_. True)) s
          in Some (g, s)
     else Some (g, s) }"

definition buf_data :: "buf_guard \<Rightarrow> 'z bcache_scheme \<Rightarrow> block" where
  "buf_data g s = data (bufs s ! g_index g)"

definition set_buf_data :: "buf_guard \<Rightarrow> block \<Rightarrow> 'z bcache_scheme \<Rightarrow> 'z bcache_scheme" where
  "set_buf_data g d s = upd_buf (g_index g) (data_update (\<lambda>_. d)) s"

definition bwrite :: "buf_guard \<Rightarrow> 'z bcache_scheme \<Rightarrow> 'z bcache_scheme" where
  "bwrite g s = s\<lparr>disk := (disk s)(g_blockno g := buf_data g s),
     writes := writes s @ [(g_blockno g, buf_data g s)]\<rparr>"

definition upd_refcnt :: "nat \<Rightarrow> (usize \<Rightarrow> usize) \<Rightarrow> 'z bcache_scheme \<Rightarrow> 'z bcache_scheme" where
  "upd_refcnt i f s = s\<lparr>lru := (lru s)\<lparr>inner := (inner (lru s))[i := bm_refcnt_update f (inner (lru s) ! i)]\<rparr>\<rparr>"

definition bpin :: "buf_guard \<Rightarrow> 'z bcache_scheme \<Rightarrow> 'z bcache_scheme" where
  "bpin g s = upd_refcnt (g_rc g) (\<lambda>v. v + 1) s"

definition bunpin :: "buf_guard \<Rightarrow> 'z bcache_scheme \<Rightarrow> 'z bcache_scheme" where
  "bunpin g s = upd_refcnt (g_rc g) (\<lambda>v. v - 1) s"

definition buf_drop :: "buf_guard \<Rightarrow> 'z bcache_scheme \<Rightarrow> 'z bcache_scheme option" where
  "buf_drop g s = do {
     let s = upd_buf (g_index g) (locked_update (\<lambda>_. False)) s;
     l \<leftarrow> lru_brelse (g_index g) (lru s);
     Some (s\<lparr>lru := l\<rparr>) }"

section \<open>What a client sees\<close>

definition holds :: "'z bcache_scheme \<Rightarrow> nat \<Rightarrow> u32 \<Rightarrow> bool" where
  "holds s i b \<longleftrightarrow> i < NBUF \<and> bm_dev (inner (lru s) ! i) = ROOTDEV \<and> bm_blockno (inner (lru s) ! i) = b"

definition slot :: "'z bcache_scheme \<Rightarrow> u32 \<Rightarrow> nat option" where
  "slot s b = find (\<lambda>i. holds s i b) [0..<NBUF]"

definition view :: "'z bcache_scheme \<Rightarrow> u32 \<Rightarrow> block" where
  "view s b = (case slot s b of None \<Rightarrow> disk s b | Some i \<Rightarrow> data (bufs s ! i))"

definition refs :: "'z bcache_scheme \<Rightarrow> u32 \<Rightarrow> nat" where
  "refs s b = (case slot s b of None \<Rightarrow> 0 | Some i \<Rightarrow> unat (bm_refcnt (inner (lru s) ! i)))"

definition held :: "'z bcache_scheme \<Rightarrow> u32 \<Rightarrow> bool" where
  "held s b = (case slot s b of None \<Rightarrow> False | Some i \<Rightarrow> locked (bufs s ! i))"

definition guard_ok :: "'z bcache_scheme \<Rightarrow> buf_guard \<Rightarrow> bool" where
  "guard_ok s g \<longleftrightarrow> holds s (g_index g) (g_blockno g) \<and> locked (bufs s ! g_index g) \<and> g_rc g = g_index g"

text \<open>The invariant.  A buffer in use belongs to the root device, and its contents are those of
  the disk unless somebody holds a reference to it.\<close>

definition buf_ok :: "'z bcache_scheme \<Rightarrow> nat \<Rightarrow> bool" where
  "buf_ok s i \<longleftrightarrow>
     (bm_dev (inner (lru s) ! i) = ROOTDEV \<longrightarrow> valid (bufs s ! i)) \<and>
     (bm_refcnt (inner (lru s) ! i) \<noteq> 0 \<longrightarrow> bm_dev (inner (lru s) ! i) = ROOTDEV) \<and>
     (locked (bufs s ! i) \<longrightarrow> bm_refcnt (inner (lru s) ! i) \<noteq> 0) \<and>
     (bm_dev (inner (lru s) ! i) = ROOTDEV \<and> bm_refcnt (inner (lru s) ! i) = 0 \<longrightarrow>
        data (bufs s ! i) = disk s (bm_blockno (inner (lru s) ! i)))"

definition bcache_inv :: "'z bcache_scheme \<Rightarrow> bool" where
  "bcache_inv s \<longleftrightarrow> lru_wf (lru s) \<and> length (bufs s) = NBUF \<and> (\<forall>i < NBUF. buf_ok s i) \<and>
     (\<forall>i j b. holds s i b \<longrightarrow> holds s j b \<longrightarrow> i = j)"

lemma slot_Some: "slot s b = Some i \<Longrightarrow> holds s i b"
  by (auto simp: slot_def dest: find_SomeD)

lemma slot_None: "slot s b = None \<longleftrightarrow> (\<forall>i. \<not> holds s i b)"
  by (auto simp: slot_def find_None_iff holds_def)

lemma slot_eq:
  assumes "bcache_inv s" "holds s i b"
  shows "slot s b = Some i"
  using assms slot_Some [of s b] slot_None [of s b]
  by (cases "slot s b") (auto simp: bcache_inv_def)

lemma bcache_init_inv: "bcache_inv (bcache_init d)" "view (bcache_init d) = d"
    "refs (bcache_init d) b = 0" "held (bcache_init d) b = False"
    "disk (bcache_init d) = d" "writes (bcache_init d) = []"
proof -
  have e: "bm_dev (inner (lru (bcache_init d)) ! i) = 0" "bm_refcnt (inner (lru (bcache_init d)) ! i) = 0"
    if "i < NBUF" for i
    using lru_init_entries [OF that] by (simp_all add: bcache_init_def entry_def)
  then have nh: "\<not> holds (bcache_init d) i b" for i b
    by (auto simp: holds_def param_values)
  then have sl: "slot (bcache_init d) b = None" for b
    by (simp add: slot_None)
  show "disk (bcache_init d) = d" "writes (bcache_init d) = []"
    by (simp_all add: bcache_init_def)
  then show "view (bcache_init d) = d" "refs (bcache_init d) b = 0" "held (bcache_init d) b = False"
    by (simp_all add: view_def refs_def held_def sl fun_eq_iff)
  have "lru_wf (lru (bcache_init d))"
    using lru_init_rep by (auto simp: bcache_init_def lru_wf_iff)
  moreover have "buf_ok (bcache_init d) i" if "i < NBUF" for i
    using that e [OF that] by (simp add: buf_ok_def param_values) (simp add: bcache_init_def new_buf_def)
  ultimately show "bcache_inv (bcache_init d)"
    using nh by (simp add: bcache_inv_def) (simp add: bcache_init_def)
qed

lemma cached_view:
  assumes "bcache_inv s" "holds s i b"
  shows "view s b = data (bufs s ! i)" "refs s b = unat (bm_refcnt (inner (lru s) ! i))"
    "held s b = locked (bufs s ! i)"
  using slot_eq [OF assms] by (simp_all add: view_def refs_def held_def)

lemma uncached_view:
  assumes "\<And>i. \<not> holds s i b"
  shows "view s b = disk s b" "refs s b = 0" "held s b = False"
proof -
  have "slot s b = None"
    using assms by (simp add: slot_None)
  then show "view s b = disk s b" "refs s b = 0" "held s b = False"
    by (simp_all add: view_def refs_def held_def)
qed

text \<open>An operation that keeps every buffer's block keeps the slots; what a client sees then
  changes only at the block whose buffer was changed.\<close>

lemma same_blocks:
  assumes inv: "bcache_inv s" and inv': "bcache_inv s'" and h: "\<And>j c. holds s' j c = holds s j c"
    and i: "holds s i b"
    and bufs: "\<And>j. j \<noteq> i \<Longrightarrow> bufs s' ! j = bufs s ! j"
    and ref: "\<And>j. j \<noteq> i \<Longrightarrow> bm_refcnt (inner (lru s') ! j) = bm_refcnt (inner (lru s) ! j)"
    and disk: "\<And>c. c \<noteq> b \<Longrightarrow> disk s' c = disk s c"
  shows "view s' = (view s)(b := data (bufs s' ! i))"
    "refs s' = (refs s)(b := unat (bm_refcnt (inner (lru s') ! i)))"
    "held s' = (held s)(b := locked (bufs s' ! i))"
proof -
  have "view s' c = ((view s)(b := data (bufs s' ! i))) c \<and>
      refs s' c = ((refs s)(b := unat (bm_refcnt (inner (lru s') ! i)))) c \<and>
      held s' c = ((held s)(b := locked (bufs s' ! i))) c" for c
  proof (cases "\<exists>j. holds s j c")
    case True
    then obtain j where j: "holds s j c" by blast
    then have eq: "c = b \<longleftrightarrow> j = i"
      using inv i unfolding bcache_inv_def by (metis holds_def)
    have j': "holds s' j c" by (simp add: h j)
    show ?thesis
      using cached_view [OF inv j] cached_view [OF inv' j'] eq bufs ref by auto
  next
    case False
    then have nb: "c \<noteq> b" using i by blast
    have "\<And>j. \<not> holds s' j c" "\<And>j. \<not> holds s j c" using False by (simp_all add: h)
    from uncached_view [OF this(1)] uncached_view [OF this(2)] nb disk [OF nb] show ?thesis by simp
  qed
  then show "view s' = (view s)(b := data (bufs s' ! i))"
    "refs s' = (refs s)(b := unat (bm_refcnt (inner (lru s') ! i)))"
    "held s' = (held s)(b := locked (bufs s' ! i))"
    by (auto simp: fun_eq_iff)
qed

lemma bcache_invD:
  assumes "bcache_inv s"
  shows "lru_wf (lru s)" "length (bufs s) = NBUF" "length (inner (lru s)) = NBUF"
    "i < NBUF \<Longrightarrow> buf_ok s i" "holds s i b \<Longrightarrow> holds s j b \<Longrightarrow> i = j"
  using assms by (auto simp: bcache_inv_def lru_wf_iff lru_rep_def)

lemma nth_upd_buf [simp]:
  "i < length (bufs s) \<Longrightarrow> bufs (upd_buf i f s) ! j = (if j = i then f (bufs s ! i) else bufs s ! j)"
  "length (bufs (upd_buf i f s)) = length (bufs s)"
  "lru (upd_buf i f s) = lru s" "disk (upd_buf i f s) = disk s" "writes (upd_buf i f s) = writes s"
  "bcache.more (upd_buf i f s) = bcache.more s"
  by (simp_all add: upd_buf_def nth_list_update)

lemma holds_upd_buf [simp]: "holds (upd_buf i f s) j b = holds s j b"
  by (simp add: holds_def)

section \<open>The laws\<close>

lemma guard_okD:
  assumes "bcache_inv s" "guard_ok s g"
  shows "holds s (g_index g) (g_blockno g)" "g_index g < NBUF" "locked (bufs s ! g_index g)"
    "g_rc g = g_index g" "bm_refcnt (inner (lru s) ! g_index g) \<noteq> 0"
    "buf_data g s = view s (g_blockno g)" "held s (g_blockno g)" "0 < refs s (g_blockno g)"
proof -
  show h: "holds s (g_index g) (g_blockno g)" and i: "g_index g < NBUF"
    and l: "locked (bufs s ! g_index g)" and "g_rc g = g_index g"
    using assms(2) by (auto simp: guard_ok_def holds_def)
  show r: "bm_refcnt (inner (lru s) ! g_index g) \<noteq> 0"
    using bcache_invD(4) [OF assms(1) i] l by (auto simp: buf_ok_def)
  show "buf_data g s = view s (g_blockno g)" "held s (g_blockno g)" "0 < refs s (g_blockno g)"
    using cached_view [OF assms(1) h] r l by (auto simp: buf_data_def unat_gt_0)
qed

lemma set_buf_data_law:
  assumes inv: "bcache_inv s" and g: "guard_ok s g"
  shows "bcache_inv (set_buf_data g d s)" "view (set_buf_data g d s) = (view s)(g_blockno g := d)"
    "refs (set_buf_data g d s) = refs s" "held (set_buf_data g d s) = held s"
    "disk (set_buf_data g d s) = disk s" "writes (set_buf_data g d s) = writes s"
    "bcache.more (set_buf_data g d s) = bcache.more s"
    "guard_ok (set_buf_data g d s) g' = guard_ok s g'"
proof -
  let ?s = "set_buf_data g d s"
  note gd = guard_okD [OF inv g]
  have len: "g_index g < length (bufs s)"
    using gd(2) bcache_invD(2) [OF inv] by simp
  have h: "holds ?s j c = holds s j c" for j c
    by (simp add: set_buf_data_def)
  have "buf_ok ?s j" if "j < NBUF" for j
    using bcache_invD(4) [OF inv that] gd(5) len by (auto simp: buf_ok_def set_buf_data_def)
  then show inv': "bcache_inv ?s"
    using inv unfolding bcache_inv_def by (simp add: h) (simp add: set_buf_data_def)
  show "view ?s = (view s)(g_blockno g := d)" "refs ?s = refs s" "held ?s = held s"
    using same_blocks [OF inv inv' h gd(1)] len cached_view [OF inv gd(1)]
    by (auto simp: set_buf_data_def fun_eq_iff)
  show "disk ?s = disk s" "writes ?s = writes s" "bcache.more ?s = bcache.more s"
    "guard_ok ?s g' = guard_ok s g'"
    using len by (simp_all add: set_buf_data_def guard_ok_def)
qed

lemma bwrite_law:
  assumes inv: "bcache_inv s" and g: "guard_ok s g"
  shows "bcache_inv (bwrite g s)" "view (bwrite g s) = view s"
    "refs (bwrite g s) = refs s" "held (bwrite g s) = held s"
    "disk (bwrite g s) = (disk s)(g_blockno g := view s (g_blockno g))"
    "writes (bwrite g s) = writes s @ [(g_blockno g, view s (g_blockno g))]"
    "bcache.more (bwrite g s) = bcache.more s"
    "guard_ok (bwrite g s) g' = guard_ok s g'"
proof -
  let ?s = "bwrite g s"
  note gd = guard_okD [OF inv g]
  have h: "holds ?s j c = holds s j c" for j c
    by (simp add: bwrite_def holds_def)
  have "buf_ok ?s j" if "j < NBUF" for j
  proof (cases "bm_dev (inner (lru s) ! j) = ROOTDEV \<and> bm_blockno (inner (lru s) ! j) = g_blockno g")
    case True
    then have "j = g_index g"
      using bcache_invD(5) [OF inv gd(1)] that by (simp add: holds_def)
    then show ?thesis
      using bcache_invD(4) [OF inv that] gd(5) by (simp add: buf_ok_def bwrite_def)
  next
    case False
    then show ?thesis
      using bcache_invD(4) [OF inv that] by (auto simp: buf_ok_def bwrite_def)
  qed
  then show inv': "bcache_inv ?s"
    using inv unfolding bcache_inv_def by (simp add: h) (simp add: bwrite_def)
  show "view ?s = view s" "refs ?s = refs s" "held ?s = held s"
    using same_blocks [OF inv inv' h gd(1)] cached_view [OF inv gd(1)]
    by (auto simp: bwrite_def fun_eq_iff)
  show "disk ?s = (disk s)(g_blockno g := view s (g_blockno g))" "bcache.more ?s = bcache.more s"
    "writes ?s = writes s @ [(g_blockno g, view s (g_blockno g))]" "guard_ok ?s g' = guard_ok s g'"
    using gd(6) by (simp_all add: bwrite_def guard_ok_def holds_def)
qed

lemma upd_refcnt_law:
  assumes inv: "bcache_inv s" and g: "guard_ok s g"
    and f: "f (bm_refcnt (inner (lru s) ! g_index g)) \<noteq> 0"
  defines "s' \<equiv> upd_refcnt (g_rc g) f s"
  shows "bcache_inv s'" "view s' = view s" "held s' = held s" "disk s' = disk s" "writes s' = writes s"
    "refs s' = (refs s)(g_blockno g := unat (f (bm_refcnt (inner (lru s) ! g_index g))))"
    "bcache.more s' = bcache.more s" "guard_ok s' g' = guard_ok s g'"
proof -
  note gd = guard_okD [OF inv g]
  have len: "g_index g < length (inner (lru s))"
    using gd(2) bcache_invD(3) [OF inv] by simp
  have m: "inner (lru s') ! j = (if j = g_index g then bm_refcnt_update f (inner (lru s) ! j) else inner (lru s) ! j)"
    and b: "bufs s' = bufs s" "disk s' = disk s" for j
    using len gd(4) by (simp_all add: s'_def upd_refcnt_def nth_list_update)
  have h: "holds s' j c = holds s j c" for j c
    by (simp add: holds_def m)
  have "lru_wf (lru s')"
  proof -
    obtain xs where "lru_rep (lru s) xs"
      using bcache_invD(1) [OF inv] by (auto simp: lru_wf_iff)
    then have "lru_rep (lru s') xs"
      unfolding s'_def upd_refcnt_def
      by simp (rule lru_rep_same_links, assumption, rule same_links_update, simp_all)
    then show ?thesis by (auto simp: lru_wf_iff)
  qed
  moreover have "buf_ok s' j" if "j < NBUF" for j
    using bcache_invD(4) [OF inv that] gd(1,5) f by (auto simp: buf_ok_def m b holds_def)
  ultimately show inv': "bcache_inv s'"
    using inv unfolding bcache_inv_def by (simp add: h b)
  show "view s' = view s" "held s' = held s"
    "refs s' = (refs s)(g_blockno g := unat (f (bm_refcnt (inner (lru s) ! g_index g))))"
    using same_blocks [OF inv inv' h gd(1)] cached_view [OF inv gd(1)]
    by (auto simp: m b fun_eq_iff)
  show "disk s' = disk s" "writes s' = writes s" "bcache.more s' = bcache.more s"
    "guard_ok s' g' = guard_ok s g'"
    by (simp_all add: s'_def upd_refcnt_def guard_ok_def) (simp add: h [unfolded s'_def upd_refcnt_def, simplified])
qed

lemma bpin_law:
  assumes inv: "bcache_inv s" and g: "guard_ok s g" and lim: "refs s (g_blockno g) < 2 ^ 63"
  shows "bcache_inv (bpin g s)" "view (bpin g s) = view s" "held (bpin g s) = held s"
    "disk (bpin g s) = disk s" "writes (bpin g s) = writes s"
    "refs (bpin g s) = (refs s)(g_blockno g := Suc (refs s (g_blockno g)))"
    "bcache.more (bpin g s) = bcache.more s" "guard_ok (bpin g s) g' = guard_ok s g'"
proof -
  note gd = guard_okD [OF inv g]
  let ?r = "bm_refcnt (inner (lru s) ! g_index g)"
  have r: "refs s (g_blockno g) = unat ?r"
    using cached_view(2) [OF inv gd(1)] .
  then have u: "unat (?r + 1) = Suc (unat ?r)"
    using lim by (subst unat_plus_no_overflow) simp_all
  then have "?r + 1 \<noteq> 0"
    by (metis nat.simps(3) unsigned_0)
  from upd_refcnt_law [OF inv g, of "\<lambda>v. v + 1", OF this]
  show "bcache_inv (bpin g s)" "view (bpin g s) = view s" "held (bpin g s) = held s"
    "disk (bpin g s) = disk s" "writes (bpin g s) = writes s"
    "refs (bpin g s) = (refs s)(g_blockno g := Suc (refs s (g_blockno g)))"
    "bcache.more (bpin g s) = bcache.more s" "guard_ok (bpin g s) g' = guard_ok s g'"
    by (simp_all add: bpin_def r u)
qed

lemma bunpin_law:
  assumes inv: "bcache_inv s" and g: "guard_ok s g" and lim: "1 < refs s (g_blockno g)"
  shows "bcache_inv (bunpin g s)" "view (bunpin g s) = view s" "held (bunpin g s) = held s"
    "disk (bunpin g s) = disk s" "writes (bunpin g s) = writes s"
    "refs (bunpin g s) = (refs s)(g_blockno g := refs s (g_blockno g) - 1)"
    "bcache.more (bunpin g s) = bcache.more s" "guard_ok (bunpin g s) g' = guard_ok s g'"
proof -
  note gd = guard_okD [OF inv g]
  let ?r = "bm_refcnt (inner (lru s) ! g_index g)"
  have r: "refs s (g_blockno g) = unat ?r"
    using cached_view(2) [OF inv gd(1)] .
  then have u: "unat (?r - 1) = unat ?r - 1"
    using lim by (subst unat_minus_no_underflow) simp_all
  then have "?r - 1 \<noteq> 0"
    using lim r by (metis less_numeral_extra(3) unsigned_0 zero_less_diff)
  from upd_refcnt_law [OF inv g, of "\<lambda>v. v - 1", OF this]
  show "bcache_inv (bunpin g s)" "view (bunpin g s) = view s" "held (bunpin g s) = held s"
    "disk (bunpin g s) = disk s" "writes (bunpin g s) = writes s"
    "refs (bunpin g s) = (refs s)(g_blockno g := refs s (g_blockno g) - 1)"
    "bcache.more (bunpin g s) = bcache.more s" "guard_ok (bunpin g s) g' = guard_ok s g'"
    by (simp_all add: bunpin_def r u)
qed

lemma buf_drop_law:
  assumes inv: "bcache_inv s" and g: "guard_ok s g"
    and clean: "1 < refs s (g_blockno g) \<or> view s (g_blockno g) = disk s (g_blockno g)"
  obtains s' where "buf_drop g s = Some s'" "bcache_inv s'" "view s' = view s" "disk s' = disk s"
    "writes s' = writes s" "refs s' = (refs s)(g_blockno g := refs s (g_blockno g) - 1)"
    "held s' = (held s)(g_blockno g := False)" "bcache.more s' = bcache.more s"
    "\<And>g'. guard_ok s g' \<Longrightarrow> g_blockno g' \<noteq> g_blockno g \<Longrightarrow> guard_ok s' g'"
proof -
  let ?i = "g_index g"
  let ?r = "bm_refcnt (inner (lru s) ! ?i)"
  note gd = guard_okD [OF inv g]
  have len: "?i < length (bufs s)"
    using gd(2) bcache_invD(2) [OF inv] by simp
  obtain xs where rep: "lru_rep (lru s) xs"
    using bcache_invD(1) [OF inv] by (auto simp: lru_wf_iff)
  from lru_brelse_rep [OF rep gd(2)] obtain l xs' where l: "lru_brelse ?i (lru s) = Some l" "lru_rep l xs'"
    and ent: "\<And>k. entry (inner l ! k) =
       (if k = ?i then (entry (inner (lru s) ! ?i))\<lparr>e_refcnt := ?r - 1\<rparr> else entry (inner (lru s) ! k))"
    by metis
  have m: "bm_dev (inner l ! k) = bm_dev (inner (lru s) ! k)" "bm_blockno (inner l ! k) = bm_blockno (inner (lru s) ! k)"
    "bm_refcnt (inner l ! k) = (if k = ?i then ?r - 1 else bm_refcnt (inner (lru s) ! k))" for k
    using ent [of k] by (auto simp: entry_def split: if_splits)
  define s' where "s' = (upd_buf ?i (locked_update (\<lambda>_. False)) s)\<lparr>lru := l\<rparr>"
  have drop: "buf_drop g s = Some s'"
    using l(1) by (simp add: buf_drop_def s'_def)
  have sel: "lru s' = l" "disk s' = disk s" "writes s' = writes s" "bcache.more s' = bcache.more s"
    "length (bufs s') = length (bufs s)"
    "bufs s' ! k = (if k = ?i then (bufs s ! ?i)\<lparr>locked := False\<rparr> else bufs s ! k)" for k
    using len by (simp_all add: s'_def)
  have h: "holds s' j c = holds s j c" for j c
    by (simp add: holds_def sel(1) m)
  have r: "refs s (g_blockno g) = unat ?r"
    using cached_view(2) [OF inv gd(1)] .
  have u: "unat (?r - 1) = unat ?r - 1"
    using gd(8) r by (subst unat_minus_no_underflow) simp_all
  have "buf_ok s' j" if "j < NBUF" for j
  proof (cases "j = ?i")
    case True
    have "?r - 1 \<noteq> 0" if "1 < unat ?r"
      using that u by (metis less_numeral_extra(3) unsigned_0 zero_less_diff)
    then show ?thesis
      using True clean gd(1) bcache_invD(4) [OF inv that] cached_view(1) [OF inv gd(1)]
      by (auto simp: buf_ok_def sel m r holds_def)
  next
    case False
    then show ?thesis
      using bcache_invD(4) [OF inv that] by (simp add: buf_ok_def sel m)
  qed
  moreover have "lru_wf (lru s')"
    using l(2) by (auto simp: sel lru_wf_iff)
  ultimately have inv': "bcache_inv s'"
    using inv unfolding bcache_inv_def by (simp add: h sel)
  have "view s' = view s" "refs s' = (refs s)(g_blockno g := refs s (g_blockno g) - 1)"
    "held s' = (held s)(g_blockno g := False)"
    using same_blocks [OF inv inv' h gd(1)] cached_view [OF inv gd(1)] u
    by (auto simp: sel m fun_eq_iff)
  moreover have "guard_ok s' g'" if "guard_ok s g'" "g_blockno g' \<noteq> g_blockno g" for g'
    using that gd(1) by (auto simp: guard_ok_def h sel) (auto simp: holds_def)
  ultimately show ?thesis
    using drop inv' sel by (intro that [of s']) simp_all
qed

text \<open>Taking a buffer: the block is cached, or the least recently used free buffer is recycled
  for it.  There is room when fewer than \<open>NBUF\<close> blocks are referenced.\<close>

definition room :: "'z bcache_scheme \<Rightarrow> u32 \<Rightarrow> bool" where
  "room s b \<longleftrightarrow> 0 < refs s b \<or> card {c. 0 < refs s c} < NBUF"

lemma free_buffer:
  assumes inv: "bcache_inv s" and "room s b" "\<And>i. \<not> holds s i b"
  shows "\<exists>i < NBUF. bm_refcnt (inner (lru s) ! i) = 0"
proof (rule ccontr)
  assume "\<not> ?thesis"
  then have all: "bm_refcnt (inner (lru s) ! i) \<noteq> 0" if "i < NBUF" for i
    using that by blast
  let ?f = "\<lambda>i. bm_blockno (inner (lru s) ! i)"
  have h: "holds s i (?f i)" if "i < NBUF" for i
    using all [OF that] bcache_invD(4) [OF inv that] that by (simp add: holds_def buf_ok_def)
  then have "inj_on ?f {..<NBUF}"
    using bcache_invD(5) [OF inv] by (auto simp: inj_on_def) metis
  then have "card (?f ` {..<NBUF}) = NBUF"
    by (simp add: card_image)
  moreover have "?f ` {..<NBUF} \<subseteq> {c. 0 < refs s c}"
    using all cached_view(2) [OF inv h] by (auto simp: unat_gt_0)
  then have "card (?f ` {..<NBUF}) \<le> card {c. 0 < refs s c}"
    by (intro card_mono) simp_all
  moreover have "refs s b = 0"
    using uncached_view(2) assms(3) by blast
  ultimately show False
    using assms(2) by (simp add: room_def)
qed

lemma bread_cached:
  assumes inv: "bcache_inv s" and h0: "holds s i b" and nh: "\<not> held s b" and lim: "refs s b < 2 ^ 63"
  obtains g s' where "bread ROOTDEV b s = Some (g, s')" "bcache_inv s'" "guard_ok s' g" "g_blockno g = b"
    "view s' = view s" "disk s' = disk s" "writes s' = writes s" "bcache.more s' = bcache.more s"
    "refs s' = (refs s)(b := Suc (refs s b))" "held s' = (held s)(b := True)"
    "\<And>g'. guard_ok s g' \<Longrightarrow> guard_ok s' g'"
proof -
  let ?r = "bm_refcnt (inner (lru s) ! i)"
  have i: "i < NBUF" and len: "i < length (bufs s)" "i < length (inner (lru s))"
    using h0 bcache_invD(2,3) [OF inv] by (simp_all add: holds_def)
  obtain xs where rep: "lru_rep (lru s) xs"
    using bcache_invD(1) [OF inv] by (auto simp: lru_wf_iff)
  define l where "l = (lru s)\<lparr>inner := (inner (lru s))[i := (inner (lru s) ! i)\<lparr>bm_refcnt := ?r + 1\<rparr>]\<rparr>"
  have "find (\<lambda>i. bm_dev (inner (lru s) ! i) = ROOTDEV \<and> bm_blockno (inner (lru s) ! i) = b) xs = Some i"
  proof -
    have "\<exists>j. find (\<lambda>i. bm_dev (inner (lru s) ! i) = ROOTDEV \<and> bm_blockno (inner (lru s) ! i) = b) xs = Some j"
      using h0 i lru_rep_simps(2) [OF rep] unfolding holds_def by (metis (mono_tags, lifting) find_None_iff option.exhaust)
    then obtain j where j: "find (\<lambda>i. bm_dev (inner (lru s) ! i) = ROOTDEV \<and> bm_blockno (inner (lru s) ! i) = b) xs = Some j"
      by blast
    then have "holds s j b"
      using find_SomeD [OF j] lru_rep_simps(2) [OF rep] by (simp add: holds_def)
    with j bcache_invD(5) [OF inv h0] show ?thesis by auto
  qed
  then have find: "lru_find ROOTDEV b (lru s) = Some (Some (i, i), l)"
    by (simp add: lru_find_eq [OF rep] l_def)
  have bf: "valid (bufs s ! i)" "\<not> locked (bufs s ! i)"
    using bcache_invD(4) [OF inv i] h0 nh cached_view(3) [OF inv h0] by (simp_all add: buf_ok_def holds_def)
  define s' where "s' = upd_buf i (locked_update (\<lambda>_. True)) (s\<lparr>lru := l\<rparr>)"
  let ?g = "\<lparr>g_index = i, g_blockno = b, g_rc = i\<rparr>"
  have rd: "bread ROOTDEV b s = Some (?g, s')"
    using find bf len by (simp add: bread_def bget_def lock_data_def s'_def)
  have sel: "lru s' = l" "disk s' = disk s" "writes s' = writes s" "bcache.more s' = bcache.more s"
    "length (bufs s') = length (bufs s)"
    "bufs s' ! k = (if k = i then (bufs s ! i)\<lparr>locked := True\<rparr> else bufs s ! k)" for k
    using len by (simp_all add: s'_def)
  have m: "bm_dev (inner l ! k) = bm_dev (inner (lru s) ! k)" "bm_blockno (inner l ! k) = bm_blockno (inner (lru s) ! k)"
    "bm_refcnt (inner l ! k) = (if k = i then ?r + 1 else bm_refcnt (inner (lru s) ! k))" for k
    using len by (simp_all add: l_def nth_list_update)
  have h: "holds s' j c = holds s j c" for j c
    by (simp add: holds_def sel(1) m)
  have r: "refs s b = unat ?r"
    using cached_view(2) [OF inv h0] .
  then have u: "unat (?r + 1) = Suc (unat ?r)"
    using lim by (subst unat_plus_no_overflow) simp_all
  then have nz: "?r + 1 \<noteq> 0"
    by (metis nat.simps(3) unsigned_0)
  have "lru_rep l xs"
    unfolding l_def by (rule lru_rep_same_links [OF rep same_links_update]) simp_all
  moreover have "buf_ok s' j" if "j < NBUF" for j
    using bcache_invD(4) [OF inv that] h0 nz by (auto simp: buf_ok_def sel m holds_def)
  ultimately have inv': "bcache_inv s'"
    using inv unfolding bcache_inv_def by (auto simp: h sel lru_wf_iff)
  have "view s' = view s" "refs s' = (refs s)(b := Suc (refs s b))" "held s' = (held s)(b := True)"
    using same_blocks [OF inv inv' h h0] cached_view [OF inv h0] u by (auto simp: sel m fun_eq_iff)
  moreover have "guard_ok s' ?g" "\<And>g'. guard_ok s g' \<Longrightarrow> guard_ok s' g'"
    using h0 by (auto simp: guard_ok_def h sel)
  ultimately show ?thesis
    using rd inv' sel by (intro that [of ?g s']) simp_all
qed

text \<open>Recycling a free buffer does not change what a client sees: its contents were those of the
  disk.\<close>

lemma recycled_view:
  assumes inv: "bcache_inv s" and inv': "bcache_inv s'" and i: "i < NBUF" "bm_refcnt (inner (lru s) ! i) = 0"
    and un: "\<And>i. \<not> holds s i b" and h: "\<And>j c. holds s' j c \<longleftrightarrow> (if j = i then c = b else holds s j c)"
    and new: "data (bufs s' ! i) = disk s b" "locked (bufs s' ! i)" "bm_refcnt (inner (lru s') ! i) = 1"
    and old: "\<And>j. j \<noteq> i \<Longrightarrow> bufs s' ! j = bufs s ! j" "\<And>j. j \<noteq> i \<Longrightarrow> inner (lru s') ! j = inner (lru s) ! j"
    and disk: "disk s' = disk s"
  shows "view s' c = view s c \<and> refs s' c = ((refs s)(b := Suc (refs s b))) c \<and>
      held s' c = ((held s)(b := True)) c"
proof (cases "c = b")
  case True
  have "holds s' i b" by (simp add: h)
  from cached_view [OF inv' this] uncached_view [OF un] new True show ?thesis by simp
next
  case False
  show ?thesis
  proof (cases "\<exists>j. j \<noteq> i \<and> holds s j c")
    case True
    then obtain j where "j \<noteq> i" "holds s j c" "holds s' j c"
      by (auto simp: h)
    with cached_view [OF inv, of j c] cached_view [OF inv', of j c] old False show ?thesis by simp
  next
    case no: False
    then have "\<not> holds s' j c" for j
      using False no by (cases "j = i") (auto simp: h)
    from uncached_view [OF this]
    have v': "view s' c = disk s c" "refs s' c = 0" "\<not> held s' c"
      by (simp_all add: disk)
    have "view s c = disk s c \<and> refs s c = 0 \<and> \<not> held s c"
    proof (cases "holds s i c")
      case True
      from cached_view [OF inv True] bcache_invD(4) [OF inv i(1)] i(2) True show ?thesis
        by (auto simp: buf_ok_def holds_def)
    next
      case False
      with no have "\<not> holds s j c" for j by metis
      from uncached_view [OF this] show ?thesis by simp
    qed
    with v' False show ?thesis by simp
  qed
qed

lemma bread_uncached:
  assumes inv: "bcache_inv s" and un: "\<And>i. \<not> holds s i b" and room: "room s b"
  obtains g s' where "bread ROOTDEV b s = Some (g, s')" "bcache_inv s'" "guard_ok s' g" "g_blockno g = b"
    "view s' = view s" "disk s' = disk s" "writes s' = writes s" "bcache.more s' = bcache.more s"
    "refs s' = (refs s)(b := Suc (refs s b))" "held s' = (held s)(b := True)"
    "\<And>g'. guard_ok s g' \<Longrightarrow> guard_ok s' g'"
proof -
  obtain xs where rep: "lru_rep (lru s) xs"
    using bcache_invD(1) [OF inv] by (auto simp: lru_wf_iff)
  have nf: "find (\<lambda>i. bm_dev (inner (lru s) ! i) = ROOTDEV \<and> bm_blockno (inner (lru s) ! i) = b) xs = None"
    using un lru_rep_simps(2) [OF rep] by (auto simp: find_None_iff holds_def)
  obtain i where rc: "find (\<lambda>i. bm_refcnt (inner (lru s) ! i) = 0) (rev xs) = Some i"
    using free_buffer [OF inv room un] lru_rep_simps(2) [OF rep]
    by (cases "find (\<lambda>i. bm_refcnt (inner (lru s) ! i) = 0) (rev xs)") (auto simp: find_None_iff)
  have i: "i < NBUF" "bm_refcnt (inner (lru s) ! i) = 0"
    using find_SomeD [OF rc] lru_rep_simps(2) [OF rep] by auto
  have len: "i < length (bufs s)" "i < length (inner (lru s))"
    using i bcache_invD(2,3) [OF inv] by simp_all
  have nl: "\<not> locked (bufs s ! i)"
    using bcache_invD(4) [OF inv i(1)] i(2) by (auto simp: buf_ok_def)
  define l where "l = (lru s)\<lparr>inner := (inner (lru s))[i := (inner (lru s) ! i)
    \<lparr>bm_dev := ROOTDEV, bm_blockno := b, bm_refcnt := bm_refcnt (inner (lru s) ! i) + 1\<rparr>]\<rparr>"
  define s' where "s' = upd_buf i (\<lambda>_. \<lparr>valid = True, locked = True, data = disk s b\<rparr>) (s\<lparr>lru := l\<rparr>)"
  let ?g = "\<lparr>g_index = i, g_blockno = b, g_rc = i\<rparr>"
  have "bget ROOTDEV b s = Some (?g, upd_buf i (locked_update (\<lambda>_. True))
      (upd_buf i (valid_update (\<lambda>_. False)) (s\<lparr>lru := l\<rparr>)))"
    using nf rc nl len by (simp add: bget_def lock_data_def lru_find_eq [OF rep] lru_recycle_eq [OF rep] l_def)
  then have rd: "bread ROOTDEV b s = Some (?g, s')"
    using len by (simp add: bread_def Let_def) (cases "bufs s ! i", simp add: s'_def upd_buf_def)
  have sel: "lru s' = l" "disk s' = disk s" "writes s' = writes s" "bcache.more s' = bcache.more s"
    "length (bufs s') = length (bufs s)"
    "bufs s' ! k = (if k = i then \<lparr>valid = True, locked = True, data = disk s b\<rparr> else bufs s ! k)" for k
    using len by (simp_all add: s'_def)
  have m: "inner l ! k = (if k = i then (inner (lru s) ! i)\<lparr>bm_dev := ROOTDEV, bm_blockno := b, bm_refcnt := 1\<rparr>
      else inner (lru s) ! k)" for k
    using len i(2) by (simp add: l_def nth_list_update)
  have h: "holds s' j c \<longleftrightarrow> (if j = i then c = b else holds s j c)" for j c
    using i(1) by (auto simp: holds_def sel(1) m)
  have "lru_rep l xs"
    unfolding l_def by (rule lru_rep_same_links [OF rep same_links_update]) simp_all
  moreover have "buf_ok s' j" if "j < NBUF" for j
    using bcache_invD(4) [OF inv that] by (auto simp: buf_ok_def sel m)
  moreover have "j = k" if "holds s' j c" "holds s' k c" for j k c
    using that bcache_invD(5) [OF inv] un by (auto simp: h split: if_splits)
  ultimately have inv': "bcache_inv s'"
    using bcache_invD(2) [OF inv] by (auto simp: bcache_inv_def sel lru_wf_iff)
  have "view s' c = view s c \<and> refs s' c = ((refs s)(b := Suc (refs s b))) c \<and>
      held s' c = ((held s)(b := True)) c" for c
    by (rule recycled_view [OF inv inv' i un h]) (simp_all add: sel m)
  then have "view s' = view s" "refs s' = (refs s)(b := Suc (refs s b))" "held s' = (held s)(b := True)"
    by (auto simp: fun_eq_iff)
  moreover have "guard_ok s' ?g" "\<And>g'. guard_ok s g' \<Longrightarrow> guard_ok s' g'"
    using nl by (auto simp: guard_ok_def h sel)
  ultimately show ?thesis
    using rd inv' sel by (intro that [of ?g s']) simp_all
qed

lemma bread_law:
  assumes inv: "bcache_inv s" and nh: "\<not> held s b" and room: "room s b" and lim: "refs s b < 2 ^ 63"
  obtains g s' where "bread ROOTDEV b s = Some (g, s')" "bcache_inv s'" "guard_ok s' g" "g_blockno g = b"
    "view s' = view s" "disk s' = disk s" "writes s' = writes s" "bcache.more s' = bcache.more s"
    "refs s' = (refs s)(b := Suc (refs s b))" "held s' = (held s)(b := True)"
    "\<And>g'. guard_ok s g' \<Longrightarrow> guard_ok s' g'"
proof (cases "\<exists>i. holds s i b")
  case True
  then show ?thesis
    using bread_cached [OF inv _ nh lim] that by blast
next
  case False
  then show ?thesis
    using bread_uncached [OF inv _ room] that by blast
qed

text \<open>Only the cache fields of a state matter.\<close>

lemma bcache_cong:
  assumes "lru s = lru t" "bufs s = bufs t" "disk s = disk t"
  shows "view s = view t" "refs s = refs t" "held s = held t" "bcache_inv s = bcache_inv t"
    "guard_ok s g = guard_ok t g" "buf_data g s = buf_data g t"
proof -
  have h: "holds s = holds t"
    using assms by (simp add: holds_def fun_eq_iff)
  then have "slot s = slot t"
    by (simp add: slot_def fun_eq_iff)
  then show "view s = view t" "refs s = refs t" "held s = held t"
    using assms by (auto simp: view_def refs_def held_def fun_eq_iff split: option.splits)
  have "buf_ok s i = buf_ok t i" for i
    using assms by (simp add: buf_ok_def)
  then show "bcache_inv s = bcache_inv t"
    using assms h by (simp add: bcache_inv_def)
  show "guard_ok s g = guard_ok t g" "buf_data g s = buf_data g t"
    using assms h by (simp_all add: guard_ok_def buf_data_def)
qed

section \<open>Whole accesses\<close>

text \<open>The two ways in which the kernel uses the cache without the log: read a block and drop the
  guard; change a block, write it through and drop the guard.\<close>

definition read_block :: "u32 \<Rightarrow> u32 \<Rightarrow> 'z bcache_scheme \<Rightarrow> (block \<times> 'z bcache_scheme) option" where
  "read_block dev b s = do {
     (g, s) \<leftarrow> bread dev b s;
     let d = buf_data g s;
     s \<leftarrow> buf_drop g s;
     Some (d, s) }"

definition update_block :: "u32 \<Rightarrow> u32 \<Rightarrow> (block \<Rightarrow> block) \<Rightarrow> 'z bcache_scheme \<Rightarrow> 'z bcache_scheme option" where
  "update_block dev b f s = do {
     (g, s) \<leftarrow> bread dev b s;
     let s = set_buf_data g (f (buf_data g s)) s;
     let s = bwrite g s;
     buf_drop g s }"

lemma unreferenced_clean:
  assumes "bcache_inv s" "refs s b = 0"
  shows "view s b = disk s b"
proof (cases "\<exists>i. holds s i b")
  case True
  then obtain i where i: "holds s i b" by blast
  with cached_view [OF assms(1) i] bcache_invD(4) [OF assms(1), of i] assms(2) show ?thesis
    by (auto simp: buf_ok_def holds_def unat_eq_0)
next
  case False
  then show ?thesis using uncached_view by blast
qed

text \<open>No buffer is held, and one more block than those pinned fits into the cache.\<close>

definition idle :: "nat \<Rightarrow> 'z bcache_scheme \<Rightarrow> bool" where
  "idle k s \<longleftrightarrow> bcache_inv s \<and> (\<forall>b. \<not> held s b) \<and> (\<forall>b. refs s b < 2 ^ 62) \<and> card {c. 0 < refs s c} + k \<le> NBUF"

lemma idle_room: "idle k s \<Longrightarrow> 0 < k \<Longrightarrow> room s b"
  by (auto simp: idle_def room_def)

lemma read_block_law:
  assumes "idle k s" "0 < k"
  obtains s' where "read_block ROOTDEV b s = Some (view s b, s')" "idle k s'" "view s' = view s"
    "disk s' = disk s" "writes s' = writes s" "refs s' = refs s" "bcache.more s' = bcache.more s"
proof -
  have i: "bcache_inv s" "\<not> held s b" "refs s b < 2 ^ 63"
    using assms by (auto simp: idle_def intro: order.strict_trans)
  from i(1,2) idle_room [OF assms] i(3)
  obtain g t where g: "bread ROOTDEV b s = Some (g, t)" "bcache_inv t" "guard_ok t g" "g_blockno g = b"
    "view t = view s" "disk t = disk s" "writes t = writes s" "bcache.more t = bcache.more s"
    "refs t = (refs s)(b := Suc (refs s b))" "held t = (held s)(b := True)"
    by (rule bread_law)
  have "1 < refs t b \<or> view t b = disk t b"
    using unreferenced_clean [OF i(1)] g by (cases "refs s b = 0") auto
  then obtain s' where d: "buf_drop g t = Some s'" "bcache_inv s'" "view s' = view t" "disk s' = disk t"
    "writes s' = writes t" "refs s' = (refs t)(b := refs t b - 1)" "held s' = (held t)(b := False)"
    "bcache.more s' = bcache.more t"
    using buf_drop_law [OF g(2,3)] unfolding g(4) by metis
  have "refs s' = refs s" "\<forall>b. \<not> held s' b"
    using d g assms by (auto simp: fun_eq_iff idle_def)
  with g d assms guard_okD(6) [OF g(2,3)] show ?thesis
    by (intro that [of s']) (simp_all add: read_block_def idle_def)
qed

lemma update_block_law:
  assumes "idle k s" "0 < k"
  obtains s' where "update_block ROOTDEV b f s = Some s'" "idle k s'" "view s' = (view s)(b := f (view s b))"
    "disk s' = (disk s)(b := f (view s b))" "writes s' = writes s @ [(b, f (view s b))]"
    "refs s' = refs s" "bcache.more s' = bcache.more s"
proof -
  have i: "bcache_inv s" "\<not> held s b" "refs s b < 2 ^ 63"
    using assms by (auto simp: idle_def intro: order.strict_trans)
  from i(1,2) idle_room [OF assms] i(3)
  obtain g t where g: "bread ROOTDEV b s = Some (g, t)" "bcache_inv t" "guard_ok t g" "g_blockno g = b"
    "view t = view s" "disk t = disk s" "writes t = writes s" "bcache.more t = bcache.more s"
    "refs t = (refs s)(b := Suc (refs s b))" "held t = (held s)(b := True)"
    by (rule bread_law)
  have bd: "buf_data g t = view s b"
    using guard_okD(6) [OF g(2,3)] g by simp
  define t1 where "t1 = set_buf_data g (f (view s b)) t"
  note l1 = set_buf_data_law [OF g(2,3), of "f (view s b)", folded t1_def]
  define t2 where "t2 = bwrite g t1"
  have g1: "guard_ok t1 g" by (simp add: l1(8) g)
  note l2 = bwrite_law [OF l1(1) g1, folded t2_def]
  have g2: "guard_ok t2 g" by (simp add: l2(8) g1)
  have t2: "view t2 = (view s)(b := f (view s b))" "disk t2 = (disk s)(b := f (view s b))"
    "writes t2 = writes s @ [(b, f (view s b))]" "refs t2 = (refs s)(b := Suc (refs s b))"
    "held t2 = (held s)(b := True)" "bcache.more t2 = bcache.more s"
    by (simp_all add: l2(2-7) l1(2-7) g)
  have "view t2 b = disk t2 b" by (simp add: t2)
  then obtain s' where d: "buf_drop g t2 = Some s'" "bcache_inv s'" "view s' = view t2" "disk s' = disk t2"
    "writes s' = writes t2" "refs s' = (refs t2)(b := refs t2 b - 1)" "held s' = (held t2)(b := False)"
    "bcache.more s' = bcache.more t2"
    using buf_drop_law [OF l2(1) g2] unfolding g(4) by metis
  have r: "refs s' = refs s" "\<forall>b. \<not> held s' b"
    using d(6,7) t2(4,5) assms(1) by (auto simp: fun_eq_iff idle_def)
  have "update_block ROOTDEV b f s = Some s'"
    using g(1) d(1) by (simp add: update_block_def bd t1_def t2_def)
  moreover have "idle k s'"
    using assms(1) r d(2) by (simp add: idle_def)
  ultimately show ?thesis
    using d t2 r by (intro that [of s']) simp_all
qed

text \<open>What a cache without pinned blocks promises: it is a store of blocks.\<close>

datatype cache_cmd = Rd u32 | Wr u32 block

fun run_cache :: "(u32 \<Rightarrow> 's \<Rightarrow> (block \<times> 's) option) \<Rightarrow> (u32 \<Rightarrow> (block \<Rightarrow> block) \<Rightarrow> 's \<Rightarrow> 's option) \<Rightarrow>
    cache_cmd list \<Rightarrow> 's \<Rightarrow> (block list \<times> 's) option" where
  "run_cache rd up [] s = Some ([], s)"
| "run_cache rd up (Rd b # cs) s =
     do { (d, s) \<leftarrow> rd b s; (ds, s) \<leftarrow> run_cache rd up cs s; Some (d # ds, s) }"
| "run_cache rd up (Wr b d # cs) s = do { s \<leftarrow> up b (\<lambda>_. d) s; run_cache rd up cs s }"

fun run_store :: "cache_cmd list \<Rightarrow> (u32 \<Rightarrow> block) \<Rightarrow> block list \<times> (u32 \<Rightarrow> block)" where
  "run_store [] v = ([], v)"
| "run_store (Rd b # cs) v = (case run_store cs v of (ds, v') \<Rightarrow> (v b # ds, v'))"
| "run_store (Wr b d # cs) v = run_store cs (v(b := d))"

locale block_store =
  fixes rd :: "u32 \<Rightarrow> 's \<Rightarrow> (block \<times> 's) option"
    and up :: "u32 \<Rightarrow> (block \<Rightarrow> block) \<Rightarrow> 's \<Rightarrow> 's option"
    and inv :: "'s \<Rightarrow> bool"
    and contents :: "'s \<Rightarrow> u32 \<Rightarrow> block"
  assumes rd_law: "inv s \<Longrightarrow> \<exists>s'. rd b s = Some (contents s b, s') \<and> inv s' \<and> contents s' = contents s"
    and up_law: "inv s \<Longrightarrow> \<exists>s'. up b f s = Some s' \<and> inv s' \<and> contents s' = (contents s)(b := f (contents s b))"
begin

lemma run_refines_store:
  assumes "inv s"
  shows "\<exists>s'. run_cache rd up cs s = Some (fst (run_store cs (contents s)), s') \<and> inv s' \<and>
    contents s' = snd (run_store cs (contents s))"
  using assms
proof (induction cs arbitrary: s)
  case (Cons c cs)
  show ?case
  proof (cases c)
    case (Rd b)
    from rd_law [OF Cons.prems] obtain t where "rd b s = Some (contents s b, t)" "inv t"
      "contents t = contents s" by blast
    with Cons.IH [of t] Rd show ?thesis by (auto split: prod.splits)
  next
    case (Wr b d)
    from up_law [OF Cons.prems, of b "\<lambda>_. d"] obtain t where "up b (\<lambda>_. d) s = Some t" "inv t"
      "contents t = (contents s)(b := d)" by blast
    with Cons.IH [of t] Wr show ?thesis by (simp del: fun_upd_apply)
  qed
qed simp

end

interpretation cache: block_store "read_block ROOTDEV" "update_block ROOTDEV"
  "\<lambda>s. idle 1 s \<and> (\<forall>b. refs s b = 0)" view
proof
  fix s :: "'z bcache_scheme" and b f
  assume s: "idle 1 s \<and> (\<forall>b. refs s b = 0)"
  show "\<exists>s'. read_block ROOTDEV b s = Some (view s b, s') \<and> (idle 1 s' \<and> (\<forall>b. refs s' b = 0)) \<and>
      view s' = view s"
    using s read_block_law [of 1 s b] by (metis zero_less_one)
  show "\<exists>s'. update_block ROOTDEV b f s = Some s' \<and> (idle 1 s' \<and> (\<forall>b. refs s' b = 0)) \<and>
      view s' = (view s)(b := f (view s b))"
    using s update_block_law [of 1 s b f] by (metis zero_less_one)
qed

text \<open>C3: From a cold cache, any sequence of block reads and write-throughs, over however many
  blocks, returns (the cache never runs out of buffers), every read gives the last value
  written to its block, or what the disk held at the start, and the disk ends with exactly the
  written values: eviction and reuse of buffers are invisible.\<close>

theorem cache_is_a_store:
  "\<exists>s. run_cache (read_block ROOTDEV) (update_block ROOTDEV) cmds (bcache_init d) =
       Some (fst (run_store cmds d), s) \<and> disk s = snd (run_store cmds d)"
proof -
  have "idle 1 (bcache_init d) \<and> (\<forall>b. refs (bcache_init d) b = 0)"
    by (simp add: idle_def bcache_init_inv NBUF_eq)
  from cache.run_refines_store [OF this, of cmds] obtain s where
    "run_cache (read_block ROOTDEV) (update_block ROOTDEV) cmds (bcache_init d) = Some (fst (run_store cmds d), s)"
    "idle 1 s" "\<forall>b. refs s b = 0" "view s = snd (run_store cmds d)"
    by (auto simp: bcache_init_inv)
  moreover from this have "disk s = view s"
    using unreferenced_clean by (fastforce simp: idle_def)
  ultimately show ?thesis by auto
qed

end
