(* ===== verification/Superblock.thy ===== *)
theory Superblock
  imports Bio
begin

text \<open>
  The super block: \<open>kernel/src/superblock.rs\<close>.  It is read once from block 1 into the static
  \<open>SB\<close>; the log, the block allocator and the inode layer take the disk layout from it.
\<close>

record super_block =
  sb_magic :: u32
  sb_size :: u32
  sb_nblocks :: u32
  sb_ninodes :: u32
  sb_nlog :: u32
  sb_logstart :: u32
  sb_inodestart :: u32
  sb_bmapstart :: u32

definition FSMAGIC :: u32 where
  "FSMAGIC = 0x10203040"

text \<open>The \<open>repr(C)\<close> layout: eight consecutive \<open>u32\<close> fields.\<close>

definition super_block_of :: "block \<Rightarrow> super_block" where
  "super_block_of d = \<lparr>sb_magic = le_u32 d 0, sb_size = le_u32 d 4, sb_nblocks = le_u32 d 8,
     sb_ninodes = le_u32 d 12, sb_nlog = le_u32 d 16, sb_logstart = le_u32 d 20,
     sb_inodestart = le_u32 d 24, sb_bmapstart = le_u32 d 28\<rparr>"

record sb_state = bcache +
  SB :: super_block

definition read_super_block :: "u32 \<Rightarrow> 'z sb_state_scheme \<Rightarrow> 'z sb_state_scheme option" where
  "read_super_block dev s = do {
     (buf, s) \<leftarrow> bread dev 1 s;
     let s = s\<lparr>SB := super_block_of (buf_data buf s)\<rparr>;
     if sb_magic (SB s) \<noteq> FSMAGIC then None else buf_drop buf s }"

lemma more_SB: "bcache.more s = bcache.more t \<Longrightarrow> SB s = SB t"
  by (cases s; cases t) simp

end
