(* ===== verification/Log.thy ===== *)
theory Log
  imports Superblock
begin

text \<open>
  The write-ahead log: \<open>kernel/src/log.rs\<close>.

  A transaction collects the blocks it changed in the in-memory header (\<open>log_write\<close>) and pins
  their buffers; \<open>commit\<close> copies the blocks to the log area, writes the header (the commit
  point), installs the blocks at their home locations and erases the header.  After a crash
  \<open>recover_from_log\<close> installs what a complete header describes.

  \<open>begin_op\<close> is the passage through the loop of the source in which the caller is admitted;
  \<open>None\<close> is the branch in which the caller goes to sleep.  The other operations give \<open>None\<close> where
  the source panics.  The crash theorems speak about the sequence of disk writes that \<open>commit\<close>
  and recovery perform, and quantify over every prefix of it.
\<close>

section \<open>Data and operations\<close>

definition LOGSIZE :: nat where
  "LOGSIZE = unat MAXOPBLOCKS * 3"

record log_header =
  lh_n :: u32
  lh_blocknos :: "u32 list"

record log_data =
  log_start :: u32
  log_size :: u32
  log_outstanding :: usize
  log_committing :: bool
  log_dev :: u32
  log_hdr :: log_header

record log_state = sb_state +
  LOG :: log_data

definition log_new :: log_data where
  "log_new = \<lparr>log_start = 0, log_size = 0, log_outstanding = 0, log_committing = False, log_dev = 0,
     log_hdr = \<lparr>lh_n = 0, lh_blocknos = replicate LOGSIZE 0\<rparr>\<rparr>"

text \<open>The \<open>repr(C)\<close> image of the header in a block.\<close>

definition header_of :: "block \<Rightarrow> log_header" where
  "header_of d = \<lparr>lh_n = le_u32 d 0, lh_blocknos = map (\<lambda>i. le_u32 d (4 + 4 * i)) [0..<LOGSIZE]\<rparr>"

definition put_header :: "log_header \<Rightarrow> block \<Rightarrow> block" where
  "put_header h d = (\<lambda>k. if k < 4 then le_byte (lh_n h) k
     else if k < 4 + 4 * LOGSIZE then le_byte (lh_blocknos h ! ((k - 4) div 4)) ((k - 4) mod 4)
     else d k)"

abbreviation upd_log :: "(log_data \<Rightarrow> log_data) \<Rightarrow> 'z log_state_scheme \<Rightarrow> 'z log_state_scheme" where
  "upd_log f s \<equiv> s\<lparr>LOG := f (LOG s)\<rparr>"

abbreviation upd_hdr :: "(log_header \<Rightarrow> log_header) \<Rightarrow> 'z log_state_scheme \<Rightarrow> 'z log_state_scheme" where
  "upd_hdr f s \<equiv> s\<lparr>LOG := (LOG s)\<lparr>log_hdr := f (log_hdr (LOG s))\<rparr>\<rparr>"

definition begin_op :: "'z log_state_scheme \<Rightarrow> 'z log_state_scheme option" where
  "begin_op s =
     (if log_committing (LOG s) then None
      else if ucast (lh_n (log_hdr (LOG s))) + (log_outstanding (LOG s) + 1) * MAXOPBLOCKS > of_nat LOGSIZE
      then None
      else Some (upd_log (\<lambda>l. l\<lparr>log_outstanding := log_outstanding l + 1\<rparr>) s))"

text \<open>The position of the block in the header, or the first free one.\<close>

definition absorb_index :: "u32 list \<Rightarrow> nat \<Rightarrow> u32 \<Rightarrow> nat" where
  "absorb_index blocknos n b = (case find_index (\<lambda>x. x = b) (take n blocknos) of Some i \<Rightarrow> i | None \<Rightarrow> n)"

definition log_write :: "buf_guard \<Rightarrow> 'z log_state_scheme \<Rightarrow> 'z log_state_scheme option" where
  "log_write buf s =
     (let h = log_hdr (LOG s) in
      if unat (lh_n h) \<ge> LOGSIZE \<or> lh_n h \<ge> log_size (LOG s) - 1 then None
      else if log_outstanding (LOG s) < 1 then None
      else let i = absorb_index (lh_blocknos h) (unat (lh_n h)) (g_blockno buf);
               s = upd_hdr (\<lambda>h. h\<lparr>lh_blocknos := (lh_blocknos h)[i := g_blockno buf]\<rparr>) s
           in if i = unat (lh_n h)
              then Some (upd_hdr (\<lambda>h. h\<lparr>lh_n := lh_n h + 1\<rparr>) (bpin buf s))
              else Some s)"

definition read_head :: "'z log_state_scheme \<Rightarrow> 'z log_state_scheme option" where
  "read_head s = do {
     (buf, s) \<leftarrow> bread (log_dev (LOG s)) (log_start (LOG s)) s;
     let s = upd_hdr (\<lambda>_. header_of (buf_data buf s)) s;
     buf_drop buf s }"

definition write_head :: "'z log_state_scheme \<Rightarrow> 'z log_state_scheme option" where
  "write_head s = do {
     (buf, s) \<leftarrow> bread (log_dev (LOG s)) (log_start (LOG s)) s;
     let s = set_buf_data buf (put_header (log_hdr (LOG s)) (buf_data buf s)) s;
     let s = bwrite buf s;
     buf_drop buf s }"

text \<open>\<open>header.blocknos[tail]\<close> panics outside the array.\<close>

definition head_blockno :: "nat \<Rightarrow> 'z log_state_scheme \<Rightarrow> u32 option" where
  "head_blockno tail s =
     (if tail < length (lh_blocknos (log_hdr (LOG s))) then Some (lh_blocknos (log_hdr (LOG s)) ! tail) else None)"

definition install_block :: "bool \<Rightarrow> nat \<Rightarrow> 'z log_state_scheme \<Rightarrow> 'z log_state_scheme option" where
  "install_block recovering tail s = do {
     (log_buf, s) \<leftarrow> bread (log_dev (LOG s)) (log_start (LOG s) + of_nat tail + 1) s;
     blockno \<leftarrow> head_blockno tail s;
     (disk_buf, s) \<leftarrow> bread (log_dev (LOG s)) blockno s;
     let s = set_buf_data disk_buf (buf_data log_buf s) s;
     let s = bwrite disk_buf s;
     let s = (if \<not> recovering then bunpin disk_buf s else s);
     s \<leftarrow> buf_drop log_buf s;
     buf_drop disk_buf s }"

definition install_trans :: "bool \<Rightarrow> 'z log_state_scheme \<Rightarrow> 'z log_state_scheme option" where
  "install_trans recovering s = for_each [0..<unat (lh_n (log_hdr (LOG s)))] (install_block recovering) s"

definition write_log_block :: "nat \<Rightarrow> 'z log_state_scheme \<Rightarrow> 'z log_state_scheme option" where
  "write_log_block tail s = do {
     blockno \<leftarrow> head_blockno tail s;
     (from, s) \<leftarrow> bread (log_dev (LOG s)) blockno s;
     (to, s) \<leftarrow> bread (log_dev (LOG s)) (log_start (LOG s) + of_nat tail + 1) s;
     let s = set_buf_data to (buf_data from s) s;
     let s = bwrite to s;
     s \<leftarrow> buf_drop from s;
     buf_drop to s }"

definition write_log :: "'z log_state_scheme \<Rightarrow> 'z log_state_scheme option" where
  "write_log s = for_each [0..<unat (lh_n (log_hdr (LOG s)))] write_log_block s"

definition commit :: "'z log_state_scheme \<Rightarrow> 'z log_state_scheme option" where
  "commit s =
     (if lh_n (log_hdr (LOG s)) > 0
      then do {
        s \<leftarrow> write_log s;
        s \<leftarrow> write_head s;
        s \<leftarrow> install_trans False s;
        let s = upd_hdr (\<lambda>h. h\<lparr>lh_n := 0\<rparr>) s;
        write_head s }
      else Some s)"

definition recover_from_log :: "'z log_state_scheme \<Rightarrow> 'z log_state_scheme option" where
  "recover_from_log s = do {
     s \<leftarrow> read_head s;
     s \<leftarrow> install_trans True s;
     let s = upd_hdr (\<lambda>h. h\<lparr>lh_n := 0\<rparr>) s;
     write_head s }"

definition log_init :: "u32 \<Rightarrow> super_block \<Rightarrow> 'z log_state_scheme \<Rightarrow> 'z log_state_scheme option" where
  "log_init dev sb s =
     recover_from_log (upd_log (\<lambda>l. l\<lparr>log_start := sb_logstart sb, log_size := sb_nlog sb, log_dev := dev\<rparr>) s)"

definition end_op :: "'z log_state_scheme \<Rightarrow> 'z log_state_scheme option" where
  "end_op s =
     (let s = upd_log (\<lambda>l. l\<lparr>log_outstanding := log_outstanding l - 1\<rparr>) s in
      if log_committing (LOG s) then None
      else if log_outstanding (LOG s) = 0
      then do {
        let s = upd_log (\<lambda>l. l\<lparr>log_committing := True\<rparr>) s;
        s \<leftarrow> commit s;
        Some (upd_log (\<lambda>l. l\<lparr>log_committing := False\<rparr>) s) }
      else Some s)"

section \<open>The header on disk\<close>

lemma LOGSIZE_eq: "LOGSIZE = 30"
  by (simp add: LOGSIZE_def param_values)

lemma header_of_put_header:
  assumes "length (lh_blocknos h) = LOGSIZE"
  shows "header_of (put_header h d) = h"
proof -
  have "le_u32 (put_header h d) 0 = lh_n h"
    by (rule le_u32_bytes) (simp add: put_header_def)
  moreover have "le_u32 (put_header h d) (4 + 4 * i) = lh_blocknos h ! i" if "i < LOGSIZE" for i
  proof (rule le_u32_bytes)
    fix k :: nat
    assume "k < 4"
    then have "(4 * i + k) div 4 = i" "(4 * i + k) mod 4 = k" by simp_all
    with \<open>k < 4\<close> that show "put_header h d (4 + 4 * i + k) = le_byte (lh_blocknos h ! i) k"
      by (simp add: put_header_def)
  qed
  then have "map (\<lambda>i. le_u32 (put_header h d) (4 + 4 * i)) [0..<LOGSIZE] = lh_blocknos h"
    using assms by (intro nth_equalityI) simp_all
  ultimately show ?thesis
    by (simp add: header_of_def)
qed

section \<open>Copying one block\<close>

text \<open>Both loops copy a block to another one, through the cache, and write it.\<close>

definition copy_block :: "u32 \<Rightarrow> u32 \<Rightarrow> bool \<Rightarrow> 'z bcache_scheme \<Rightarrow> 'z bcache_scheme option" where
  "copy_block src dst unpin s = do {
     (f, s) \<leftarrow> bread ROOTDEV src s;
     (t, s) \<leftarrow> bread ROOTDEV dst s;
     let s = set_buf_data t (buf_data f s) s;
     let s = bwrite t s;
     let s = (if unpin then bunpin t s else s);
     s \<leftarrow> buf_drop f s;
     buf_drop t s }"

lemma copy_finish:
  assumes inv: "bcache_inv s" and f: "guard_ok s f" and t: "guard_ok s t" and ne: "g_blockno f \<noteq> g_blockno t"
    and cf: "1 < refs s (g_blockno f) \<or> view s (g_blockno f) = disk s (g_blockno f)"
    and ct: "view s (g_blockno t) = disk s (g_blockno t)" "unpin \<Longrightarrow> 1 < refs s (g_blockno t)"
  obtains s' where "buf_drop f (if unpin then bunpin t s else s) \<bind> buf_drop t = Some s'"
    "bcache_inv s'" "view s' = view s" "disk s' = disk s" "writes s' = writes s" "bcache.more s' = bcache.more s"
    "refs s' = (refs s)(g_blockno f := refs s (g_blockno f) - 1,
       g_blockno t := refs s (g_blockno t) - (if unpin then 2 else 1))"
    "held s' = (held s)(g_blockno f := False, g_blockno t := False)"
proof -
  define s1 where "s1 = (if unpin then bunpin t s else s)"
  have s1: "bcache_inv s1" "view s1 = view s" "disk s1 = disk s" "writes s1 = writes s" "held s1 = held s"
    "bcache.more s1 = bcache.more s" "guard_ok s1 f" "guard_ok s1 t"
    "refs s1 = (refs s)(g_blockno t := refs s (g_blockno t) - (if unpin then 1 else 0))"
    using bunpin_law [OF inv t] inv f t ct(2) by (auto simp: s1_def)
  have "1 < refs s1 (g_blockno f) \<or> view s1 (g_blockno f) = disk s1 (g_blockno f)"
    using cf ne by (simp add: s1)
  then obtain s2 where s2: "buf_drop f s1 = Some s2" "bcache_inv s2" "view s2 = view s1" "disk s2 = disk s1"
    "writes s2 = writes s1" "refs s2 = (refs s1)(g_blockno f := refs s1 (g_blockno f) - 1)"
    "held s2 = (held s1)(g_blockno f := False)" "bcache.more s2 = bcache.more s1"
    "\<And>g'. guard_ok s1 g' \<Longrightarrow> g_blockno g' \<noteq> g_blockno f \<Longrightarrow> guard_ok s2 g'"
    using buf_drop_law [OF s1(1,7)] by blast
  have "guard_ok s2 t"
    using s1(8) ne by (intro s2(9)) simp_all
  moreover have "view s2 (g_blockno t) = disk s2 (g_blockno t)"
    by (simp add: s2 s1 ct)
  ultimately obtain s3 where s3: "buf_drop t s2 = Some s3" "bcache_inv s3" "view s3 = view s2" "disk s3 = disk s2"
    "writes s3 = writes s2" "refs s3 = (refs s2)(g_blockno t := refs s2 (g_blockno t) - 1)"
    "held s3 = (held s2)(g_blockno t := False)" "bcache.more s3 = bcache.more s2"
    using buf_drop_law [OF s2(2)] by metis
  show ?thesis
    using ne by (intro that [of s3]) (auto simp: s3 s2 s1 numeral_2_eq_2 simp flip: s1_def)
qed

lemma copy_block_law:
  assumes idle: "idle 0 s" and ne: "src \<noteq> dst" and pin: "unpin \<Longrightarrow> 0 < refs s dst"
    and room: "card ({c. 0 < refs s c} \<union> {src, dst}) \<le> NBUF"
  obtains s' where "copy_block src dst unpin s = Some s'" "idle 0 s'"
    "view s' = (view s)(dst := view s src)" "disk s' = (disk s)(dst := view s src)"
    "writes s' = writes s @ [(dst, view s src)]" "bcache.more s' = bcache.more s"
    "refs s' = (if unpin then (refs s)(dst := refs s dst - 1) else refs s)"
proof -
  have i: "bcache_inv s" "\<not> held s b" "refs s b < 2 ^ 62" for b
    using idle by (auto simp: idle_def)
  have lim: "refs s b < 2 ^ 63" for b
    using i(3) [of b] by simp
  have "room s src"
  proof (cases "refs s src = 0")
    case True
    then have "insert src {c. 0 < refs s c} \<subseteq> {c. 0 < refs s c} \<union> {src, dst}" "src \<notin> {c. 0 < refs s c}"
      by auto
    then show ?thesis
      using room card_mono [of "{c. 0 < refs s c} \<union> {src, dst}" "insert src {c. 0 < refs s c}"]
      by (simp add: room_def)
  qed (simp add: room_def)
  then obtain f s1 where f: "bread ROOTDEV src s = Some (f, s1)" "bcache_inv s1" "guard_ok s1 f"
    "g_blockno f = src" "view s1 = view s" "disk s1 = disk s" "writes s1 = writes s"
    "bcache.more s1 = bcache.more s" "refs s1 = (refs s)(src := Suc (refs s src))" "held s1 = (held s)(src := True)"
    using bread_law [OF i(1,2) _ lim, of src] by metis
  have "{c. 0 < refs s1 c} = insert src {c. 0 < refs s c}"
    by (auto simp: f)
  moreover have "{c. 0 < refs s c} \<union> {src, dst} = insert dst (insert src {c. 0 < refs s c})"
    by auto
  ultimately have "room s1 dst"
    using room by (auto simp: room_def f)
  moreover have "\<not> held s1 dst" "refs s1 dst < 2 ^ 63"
    using i(2) lim [of dst] ne by (simp_all add: f)
  ultimately obtain t s2 where t: "bread ROOTDEV dst s1 = Some (t, s2)" "bcache_inv s2" "guard_ok s2 t"
    "g_blockno t = dst" "view s2 = view s1" "disk s2 = disk s1" "writes s2 = writes s1"
    "bcache.more s2 = bcache.more s1" "refs s2 = (refs s1)(dst := Suc (refs s1 dst))" "held s2 = (held s1)(dst := True)"
    and ft: "guard_ok s2 f"
    using bread_law [OF f(2)] f(3) by metis
  have bd: "buf_data f s2 = view s src"
    using guard_okD(6) [OF t(2) ft] by (simp add: t f)
  define s3 where "s3 = set_buf_data t (view s src) s2"
  note l3 = set_buf_data_law [OF t(2,3), of "view s src", folded s3_def]
  have g3: "guard_ok s3 t" "guard_ok s3 f" by (simp_all add: l3(8) t ft)
  define s4 where "s4 = bwrite t s3"
  note l4 = bwrite_law [OF l3(1) g3(1), folded s4_def]
  have s4: "guard_ok s4 t" "guard_ok s4 f" "bcache_inv s4"
    "view s4 = (view s)(dst := view s src)" "disk s4 = (disk s)(dst := view s src)"
    "writes s4 = writes s @ [(dst, view s src)]" "bcache.more s4 = bcache.more s"
    "refs s4 = (refs s)(src := Suc (refs s src), dst := Suc (refs s dst))"
    "held s4 = (held s)(src := True, dst := True)"
    using ne by (simp_all add: l4 l3(2-7) g3 t(4-10) f(4-10))
  have "1 < refs s4 src \<or> view s4 src = disk s4 src"
    using unreferenced_clean [OF i(1), of src] ne by (cases "refs s src = 0") (simp_all add: s4)
  moreover have "view s4 dst = disk s4 dst" "unpin \<Longrightarrow> 1 < refs s4 dst"
    using pin by (simp_all add: s4)
  ultimately obtain s' where s': "buf_drop f (if unpin then bunpin t s4 else s4) \<bind> buf_drop t = Some s'"
    "bcache_inv s'" "view s' = view s4" "disk s' = disk s4" "writes s' = writes s4"
    "bcache.more s' = bcache.more s4"
    "refs s' = (refs s4)(src := refs s4 src - 1, dst := refs s4 dst - (if unpin then 2 else 1))"
    "held s' = (held s4)(src := False, dst := False)"
    using copy_finish [OF s4(3,2,1), of unpin] ne unfolding t(4) f(4) by metis
  have "copy_block src dst unpin s = Some s'"
    using f(1) t(1) s'(1) unfolding s4_def s3_def
    by (cases unpin) (simp_all add: copy_block_def bd)
  moreover have r: "refs s' = (if unpin then (refs s)(dst := refs s dst - 1) else refs s)"
    using ne by (auto simp: s'(7) s4(8) fun_eq_iff)
  moreover have "idle 0 s'"
  proof -
    have "{c. 0 < refs s' c} \<subseteq> {c. 0 < refs s c}"
      by (auto simp: r split: if_splits)
    then have "card {c. 0 < refs s' c} \<le> NBUF"
      using idle card_mono [of "{c. 0 < refs s c}" "{c. 0 < refs s' c}"] by (simp add: idle_def)
    moreover have "refs s' c < 2 ^ 62" for c
      using i(3) [of c] i(3) [of dst] by (auto simp: r)
    ultimately show ?thesis
      using s'(2) i(2) by (simp add: idle_def s'(8) s4(9))
  qed
  ultimately show ?thesis
    using s' s4 by (intro that [of s']) simp_all
qed

lemma more_LOG: "bcache.more s = bcache.more t \<Longrightarrow> LOG s = LOG t"
  by (cases s; cases t) simp

lemma more_rest: "bcache.more s = bcache.more t \<Longrightarrow> SB s = SB t \<and> log_state.more s = log_state.more t"
  by (cases s; cases t) simp

lemma bread_more: "bread dev b s = Some (g, s') \<Longrightarrow> bcache.more s' = bcache.more s"
  by (auto simp: bread_def bget_def lock_data_def Let_def split: Option.bind_splits option.splits if_splits)

lemma bread_LOG: "bread dev b s = Some (g, s') \<Longrightarrow> LOG s' = LOG s"
  using bread_more more_LOG by metis

lemma copy_loops:
  assumes "log_dev (LOG s) = ROOTDEV" "k < length (lh_blocknos (log_hdr (LOG s)))"
  shows "install_block recovering k s =
      copy_block (log_start (LOG s) + of_nat k + 1) (lh_blocknos (log_hdr (LOG s)) ! k) (\<not> recovering) s"
    "write_log_block k s =
      copy_block (lh_blocknos (log_hdr (LOG s)) ! k) (log_start (LOG s) + of_nat k + 1) False s"
  using assms
  by (auto simp: install_block_def write_log_block_def copy_block_def head_blockno_def
      dest!: bread_LOG intro!: Option.bind_cong)

section \<open>Geometry and traces\<close>

definition log_area :: "log_data \<Rightarrow> u32 set" where
  "log_area l = {b. unat (log_start l) \<le> unat b \<and> unat b < unat (log_start l) + unat (log_size l)}"

definition log_slot :: "log_data \<Rightarrow> nat \<Rightarrow> u32" where
  "log_slot l k = log_start l + of_nat k + 1"

definition txn :: "log_header \<Rightarrow> u32 list" where
  "txn h = take (unat (lh_n h)) (lh_blocknos h)"

definition log_geom :: "log_data \<Rightarrow> bool" where
  "log_geom l \<longleftrightarrow> log_dev l = ROOTDEV \<and> 2 \<le> unat (log_size l) \<and> unat (log_size l) \<le> LOGSIZE \<and>
     unat (log_start l) + unat (log_size l) < 2 ^ 32"

text \<open>A header that describes a transaction: it fits into the log, names no block twice and no
  block of the log itself.\<close>

definition header_ok :: "log_data \<Rightarrow> log_header \<Rightarrow> bool" where
  "header_ok l h \<longleftrightarrow> length (lh_blocknos h) = LOGSIZE \<and> unat (lh_n h) < unat (log_size l) \<and>
     distinct (txn h) \<and> set (txn h) \<inter> log_area l = {}"

definition apply_writes :: "(u32 \<times> block) list \<Rightarrow> (u32 \<Rightarrow> block) \<Rightarrow> u32 \<Rightarrow> block" where
  "apply_writes ws D = fold (\<lambda>(b, d) D. D(b := d)) ws D"

lemma apply_writes_simps [simp]:
  "apply_writes [] D = D"
  "apply_writes ((b, d) # ws) D = apply_writes ws (D(b := d))"
  "apply_writes (vs @ ws) D = apply_writes ws (apply_writes vs D)"
  by (simp_all add: apply_writes_def)

lemma apply_writes_other:
  "b \<notin> fst ` set ws \<Longrightarrow> apply_writes ws D b = D b"
  by (induction ws arbitrary: D) auto

lemma apply_writes_same:
  "(\<And>d. (b, d) \<in> set ws \<Longrightarrow> d = D b) \<Longrightarrow> apply_writes ws D b = D b"
proof (induction ws arbitrary: D)
  case (Cons w ws)
  have D': "(D(fst w := snd w)) b = D b"
    using Cons.prems [of "snd w"] by (cases w) auto
  then have "apply_writes ws (D(fst w := snd w)) b = (D(fst w := snd w)) b"
    using Cons.prems by (intro Cons.IH) simp
  then show ?case
    using D' by (cases w) simp
qed simp

lemma apply_writes_map_other:
  "(\<And>i. i < n \<Longrightarrow> f i \<noteq> b) \<Longrightarrow> apply_writes (map (\<lambda>i. (f i, g i)) [0..<n]) D b = D b"
  by (rule apply_writes_other) fastforce

lemma apply_writes_map:
  assumes "inj_on f {..<n}" "k < n"
  shows "apply_writes (map (\<lambda>i. (f i, g i)) [0..<n]) D (f k) = g k"
  using assms
proof (induction n)
  case (Suc n)
  show ?case
  proof (cases "k = n")
    case False
    with Suc.prems have "f k \<noteq> f n" "inj_on f {..<n}" "k < n"
      by (auto simp: inj_on_def)
    with Suc.IH show ?thesis by simp
  qed simp
qed simp

lemma log_slot_unat:
  assumes "log_geom l" "k < unat (log_size l)" "Suc k < unat (log_size l)"
  shows "unat (log_slot l k) = unat (log_start l) + Suc k"
proof -
  have k: "unat (of_nat k :: u32) = k"
    using assms by (simp add: log_geom_def unsigned_of_nat take_bit_nat_eq_self)
  have "unat (log_start l + of_nat k) = unat (log_start l) + k"
    using assms by (subst unat_plus_no_overflow) (simp_all add: k log_geom_def)
  then show ?thesis
    using assms unfolding log_slot_def by (subst unat_plus_no_overflow) (simp_all add: log_geom_def)
qed

lemma log_slots:
  assumes "log_geom l" "header_ok l h"
  shows "k < unat (lh_n h) \<Longrightarrow> log_slot l k \<in> log_area l"
    "k < unat (lh_n h) \<Longrightarrow> log_slot l k \<noteq> log_start l"
    "inj_on (log_slot l) {..<unat (lh_n h)}"
    "log_start l \<in> log_area l"
proof -
  have u: "unat (log_slot l k) = unat (log_start l) + Suc k" if "k < unat (lh_n h)" for k
    using that assms(2) by (intro log_slot_unat [OF assms(1)]) (simp_all add: header_ok_def)
  show "log_slot l k \<in> log_area l" if "k < unat (lh_n h)"
    using u [OF that] that assms(2) by (simp add: log_area_def header_ok_def)
  show "log_slot l k \<noteq> log_start l" if "k < unat (lh_n h)"
    using u [OF that] by auto
  show "inj_on (log_slot l) {..<unat (lh_n h)}"
    using u by (auto simp: inj_on_def) (metis add_left_cancel old.nat.inject)
  show "log_start l \<in> log_area l"
    using assms(1) by (simp add: log_area_def log_geom_def)
qed

lemma header_ok_txn:
  assumes "log_geom l" "header_ok l h"
  shows "unat (lh_n h) < LOGSIZE" "length (txn h) = unat (lh_n h)"
    "b \<in> set (txn h) \<longleftrightarrow> (\<exists>k < unat (lh_n h). b = lh_blocknos h ! k)"
    "k < unat (lh_n h) \<Longrightarrow> lh_blocknos h ! k \<notin> log_area l"
    "inj_on (\<lambda>k. lh_blocknos h ! k) {..<unat (lh_n h)}"
    "card (set (txn h)) < NBUF"
proof -
  show n: "unat (lh_n h) < LOGSIZE"
    using assms by (simp add: log_geom_def header_ok_def)
  then show len: "length (txn h) = unat (lh_n h)"
    using assms(2) by (simp add: txn_def header_ok_def)
  have nth: "txn h ! k = lh_blocknos h ! k" if "k < unat (lh_n h)" for k
    using that by (simp add: txn_def)
  then show set: "b \<in> set (txn h) \<longleftrightarrow> (\<exists>k < unat (lh_n h). b = lh_blocknos h ! k)" for b
    using len by (auto simp: in_set_conv_nth)
  show "lh_blocknos h ! k \<notin> log_area l" if "k < unat (lh_n h)"
    using set [of "lh_blocknos h ! k"] that assms(2) by (auto simp: header_ok_def)
  show "inj_on (\<lambda>k. lh_blocknos h ! k) {..<unat (lh_n h)}"
    using assms(2) len nth by (auto simp: inj_on_def header_ok_def distinct_conv_nth)
  show "card (set (txn h)) < NBUF"
    using n len assms(2) distinct_card [of "txn h"] by (simp add: header_ok_def LOGSIZE_eq NBUF_eq)
qed

section \<open>Commit\<close>

text \<open>Between operations of the kernel: exactly the blocks of the running transaction are pinned,
  once each, no buffer is held, and the header on disk is empty.\<close>

definition log_inv :: "'z log_state_scheme \<Rightarrow> bool" where
  "log_inv s \<longleftrightarrow> log_geom (LOG s) \<and> header_ok (LOG s) (log_hdr (LOG s)) \<and> idle 0 s \<and>
     refs s = (\<lambda>b. if b \<in> set (txn (log_hdr (LOG s))) then 1 else 0) \<and>
     lh_n (header_of (disk s (log_start (LOG s)))) = 0"

definition log_copies :: "'z log_state_scheme \<Rightarrow> nat \<Rightarrow> (u32 \<times> block) list" where
  "log_copies s n = map (\<lambda>k. (log_slot (LOG s) k, view s (lh_blocknos (log_hdr (LOG s)) ! k))) [0..<n]"

definition home_copies :: "'z log_state_scheme \<Rightarrow> nat \<Rightarrow> (u32 \<times> block) list" where
  "home_copies s n = map (\<lambda>k. (lh_blocknos (log_hdr (LOG s)) ! k, view s (lh_blocknos (log_hdr (LOG s)) ! k))) [0..<n]"

lemma write_log_law:
  assumes inv: "log_inv s"
  obtains s' where "write_log s = Some s'" "idle 0 s'" "refs s' = refs s" "bcache.more s' = bcache.more s"
    "writes s' = writes s @ log_copies s (unat (lh_n (log_hdr (LOG s))))"
    "disk s' = apply_writes (log_copies s (unat (lh_n (log_hdr (LOG s))))) (disk s)"
    "view s' = apply_writes (log_copies s (unat (lh_n (log_hdr (LOG s))))) (view s)"
proof -
  let ?l = "LOG s" and ?h = "log_hdr (LOG s)"
  let ?n = "unat (lh_n ?h)"
  have geom: "log_geom ?l" and hok: "header_ok ?l ?h" and refs: "refs s = (\<lambda>b. if b \<in> set (txn ?h) then 1 else 0)"
    using inv by (simp_all add: log_inv_def)
  note tx = header_ok_txn [OF geom hok] and sl = log_slots [OF geom hok]
  define I where "I k t \<longleftrightarrow> idle 0 t \<and> refs t = refs s \<and> bcache.more t = bcache.more s \<and>
    writes t = writes s @ log_copies s k \<and> disk t = apply_writes (log_copies s k) (disk s) \<and>
    view t = apply_writes (log_copies s k) (view s)" for k and t :: "'a log_state_scheme"
  have "\<exists>t'. write_log_block k t = Some t' \<and> I (Suc k) t'" if k: "k < ?n" and I: "I k t" for k t
  proof -
    let ?b = "lh_blocknos ?h ! k"
    have t: "LOG t = ?l" "idle 0 t" "refs t = refs s"
      using I more_LOG by (auto simp: I_def)
    have b: "?b \<in> set (txn ?h)" "?b \<notin> log_area ?l"
      using k tx by auto
    have ne: "?b \<noteq> log_slot ?l k"
      using b(2) sl(1) [OF k] by metis
    have "{c. 0 < refs t c} \<union> {?b, log_slot ?l k} = insert (log_slot ?l k) (set (txn ?h))"
      using b(1) by (auto simp: t refs)
    moreover have "card (insert (log_slot ?l k) (set (txn ?h))) \<le> NBUF"
      using tx(6) card_insert_le_m1 [of NBUF "set (txn ?h)"] by (simp add: card_insert_if)
    ultimately have room: "card ({c. 0 < refs t c} \<union> {?b, log_slot ?l k}) \<le> NBUF" by simp
    obtain t' where "copy_block ?b (log_slot ?l k) False t = Some t'" "idle 0 t'"
      "view t' = (view t)(log_slot ?l k := view t ?b)" "disk t' = (disk t)(log_slot ?l k := view t ?b)"
      "writes t' = writes t @ [(log_slot ?l k, view t ?b)]" "bcache.more t' = bcache.more t" "refs t' = refs t"
      using copy_block_law [OF t(2) ne _ room, of False] by auto
    moreover have "log_slot ?l i \<noteq> ?b" if "i < k" for i
      using b(2) sl(1) [of i] that k by auto
    then have "view t ?b = view s ?b"
      using I by (simp add: I_def log_copies_def apply_writes_map_other)
    moreover have "write_log_block k t = copy_block ?b (log_slot ?l k) False t"
      using copy_loops(2) [of t k] k tx(1) geom hok
      by (simp add: t log_slot_def log_geom_def header_ok_def)
    ultimately show ?thesis
      using I by (simp add: I_def log_copies_def)
  qed
  moreover have "I 0 s"
    using inv by (simp add: I_def log_inv_def log_copies_def)
  ultimately obtain s' where "write_log s = Some s'" "I ?n s'"
    using for_each_upt [of I s ?n write_log_block] unfolding write_log_def by blast
  then show ?thesis
    by (intro that [of s']) (simp_all add: I_def)
qed

definition slot_copies :: "'z log_state_scheme \<Rightarrow> nat \<Rightarrow> (u32 \<times> block) list" where
  "slot_copies s n = map (\<lambda>k. (lh_blocknos (log_hdr (LOG s)) ! k, view s (log_slot (LOG s) k))) [0..<n]"

lemma install_trans_law:
  assumes geom: "log_geom (LOG s)" and hok: "header_ok (LOG s) (log_hdr (LOG s))" and idle: "idle 0 s"
    and refs: "refs s = (\<lambda>b. if \<not> recovering \<and> b \<in> set (txn (log_hdr (LOG s))) then 1 else 0)"
  obtains s' where "install_trans recovering s = Some s'" "idle 0 s'" "refs s' = (\<lambda>_. 0)"
    "bcache.more s' = bcache.more s"
    "writes s' = writes s @ slot_copies s (unat (lh_n (log_hdr (LOG s))))"
    "disk s' = apply_writes (slot_copies s (unat (lh_n (log_hdr (LOG s))))) (disk s)"
    "view s' = apply_writes (slot_copies s (unat (lh_n (log_hdr (LOG s))))) (view s)"
proof -
  let ?l = "LOG s" and ?h = "log_hdr (LOG s)"
  let ?n = "unat (lh_n ?h)"
  note tx = header_ok_txn [OF geom hok] and sl = log_slots [OF geom hok]
  define P where "P k = (\<lambda>b. if \<not> recovering \<and> b \<in> (\<lambda>k. lh_blocknos ?h ! k) ` {k..<?n} then 1 else 0 :: nat)" for k
  define I where "I k t \<longleftrightarrow> idle 0 t \<and> refs t = P k \<and> bcache.more t = bcache.more s \<and>
    writes t = writes s @ slot_copies s k \<and> disk t = apply_writes (slot_copies s k) (disk s) \<and>
    view t = apply_writes (slot_copies s k) (view s)" for k and t :: "'a log_state_scheme"
  have "\<exists>t'. install_block recovering k t = Some t' \<and> I (Suc k) t'" if k: "k < ?n" and I: "I k t" for k t
  proof -
    let ?b = "lh_blocknos ?h ! k"
    have t: "LOG t = ?l" "idle 0 t" "refs t = P k"
      using I more_LOG by (auto simp: I_def)
    have b: "?b \<in> set (txn ?h)" "?b \<notin> log_area ?l"
      using k tx by auto
    have ne: "log_slot ?l k \<noteq> ?b"
      using b(2) sl(1) [OF k] by metis
    have "{c. 0 < refs t c} \<union> {log_slot ?l k, ?b} \<subseteq> insert (log_slot ?l k) (set (txn ?h))"
      using b(1) tx(3) by (auto simp: t P_def)
    moreover have "card (insert (log_slot ?l k) (set (txn ?h))) \<le> NBUF"
      using tx(6) by (simp add: card_insert_if)
    ultimately have room: "card ({c. 0 < refs t c} \<union> {log_slot ?l k, ?b}) \<le> NBUF"
      by (meson card_mono finite_insert List.finite_set le_trans)
    have pin: "0 < refs t ?b" if "\<not> recovering"
      using that k by (simp add: t P_def)
    obtain t' where t': "copy_block (log_slot ?l k) ?b (\<not> recovering) t = Some t'" "idle 0 t'"
      "view t' = (view t)(?b := view t (log_slot ?l k))" "disk t' = (disk t)(?b := view t (log_slot ?l k))"
      "writes t' = writes t @ [(?b, view t (log_slot ?l k))]" "bcache.more t' = bcache.more t"
      "refs t' = (if \<not> recovering then (refs t)(?b := refs t ?b - 1) else refs t)"
      using copy_block_law [OF t(2) ne pin room] by blast
    have "lh_blocknos ?h ! i \<noteq> log_slot ?l k" if "i < k" for i
      using tx(4) [of i] sl(1) [OF k] that k by auto
    then have "view t (log_slot ?l k) = view s (log_slot ?l k)"
      using I by (simp add: I_def slot_copies_def apply_writes_map_other)
    moreover have "install_block recovering k t = copy_block (log_slot ?l k) ?b (\<not> recovering) t"
      using copy_loops(1) [of t k] k tx(1) geom hok
      by (simp add: t log_slot_def log_geom_def header_ok_def)
    moreover have "refs t' = P (Suc k)"
    proof -
      have "{k..<?n} = insert k {Suc k..<?n}" using k by auto
      moreover have "?b \<notin> (\<lambda>k. lh_blocknos ?h ! k) ` {Suc k..<?n}"
        using inj_onD [OF tx(5), of k] k by fastforce
      ultimately show ?thesis by (auto simp: t'(7) t P_def fun_eq_iff)
    qed
    ultimately show ?thesis
      using I t' by (simp add: I_def slot_copies_def)
  qed
  moreover have "I 0 s"
  proof -
    have "(\<lambda>k. lh_blocknos ?h ! k) ` {0..<?n} = set (txn ?h)" using tx(3) by auto
    then show ?thesis
      using idle refs by (simp add: I_def slot_copies_def P_def)
  qed
  ultimately obtain s' where "install_trans recovering s = Some s'" "I ?n s'"
    using for_each_upt [of I s ?n "install_block recovering"] unfolding install_trans_def by blast
  then show ?thesis
    by (intro that [of s']) (simp_all add: I_def P_def)
qed

lemma write_head_eq:
  assumes "log_dev (LOG s) = ROOTDEV"
  shows "write_head s = update_block ROOTDEV (log_start (LOG s)) (put_header (log_hdr (LOG s))) s"
  using assms by (auto simp: write_head_def update_block_def dest!: bread_LOG intro!: Option.bind_cong)

lemma write_head_law:
  assumes "log_dev (LOG s) = ROOTDEV" "idle 1 s"
  defines "hb \<equiv> put_header (log_hdr (LOG s)) (view s (log_start (LOG s)))"
  obtains s' where "write_head s = Some s'" "idle 1 s'" "view s' = (view s)(log_start (LOG s) := hb)"
    "disk s' = (disk s)(log_start (LOG s) := hb)" "writes s' = writes s @ [(log_start (LOG s), hb)]"
    "refs s' = refs s" "bcache.more s' = bcache.more s"
  using update_block_law [OF assms(2), of "log_start (LOG s)" "put_header (log_hdr (LOG s))"]
  by (auto simp: write_head_eq [OF assms(1)] hb_def)

lemma view_LOG [simp]:
  "view (s\<lparr>LOG := x\<rparr>) = view s" "refs (s\<lparr>LOG := x\<rparr>) = refs s" "held (s\<lparr>LOG := x\<rparr>) = held s"
  "idle k (s\<lparr>LOG := x\<rparr>) = idle k s" "bcache_inv (s\<lparr>LOG := x\<rparr>) = bcache_inv s"
  "guard_ok (s\<lparr>LOG := x\<rparr>) g = guard_ok s g" "buf_data g (s\<lparr>LOG := x\<rparr>) = buf_data g s"
  using bcache_cong [of s "s\<lparr>LOG := x\<rparr>"] by (simp_all add: idle_def)

text \<open>The disk writes of a commit: the transaction's blocks into the log, the header, the blocks
  to their home locations, the empty header.\<close>

definition commit_writes :: "'z log_state_scheme \<Rightarrow> (u32 \<times> block) list" where
  "commit_writes s =
     (let l = LOG s; h = log_hdr l; n = unat (lh_n h);
          hb = put_header h (view s (log_start l))
      in log_copies s n @ [(log_start l, hb)] @ home_copies s n @
         [(log_start l, put_header (h\<lparr>lh_n := 0\<rparr>) hb)])"

lemma commit_law:
  assumes inv: "log_inv s" and n: "lh_n (log_hdr (LOG s)) > 0"
  obtains s' where "commit s = Some s'" "writes s' = writes s @ commit_writes s"
    "disk s' = apply_writes (commit_writes s) (disk s)" "view s' = apply_writes (commit_writes s) (view s)"
    "LOG s' = (LOG s)\<lparr>log_hdr := (log_hdr (LOG s))\<lparr>lh_n := 0\<rparr>\<rparr>" "idle 0 s'" "refs s' = (\<lambda>_. 0)"
    "SB s' = SB s" "log_state.more s' = log_state.more s"
proof -
  let ?l = "LOG s" and ?h = "log_hdr (LOG s)"
  let ?n = "unat (lh_n ?h)" and ?st = "log_start (LOG s)"
  have geom: "log_geom ?l" "log_dev ?l = ROOTDEV" and hok: "header_ok ?l ?h"
    and refs: "refs s = (\<lambda>b. if b \<in> set (txn ?h) then 1 else 0)"
    using inv by (simp_all add: log_inv_def log_geom_def)
  note tx = header_ok_txn [OF geom(1) hok] and sl = log_slots [OF geom(1) hok]
  obtain s1 where s1: "write_log s = Some s1" "idle 0 s1" "refs s1 = refs s" "bcache.more s1 = bcache.more s"
    "writes s1 = writes s @ log_copies s ?n" "disk s1 = apply_writes (log_copies s ?n) (disk s)"
    "view s1 = apply_writes (log_copies s ?n) (view s)"
    using write_log_law [OF inv] by blast
  have L1: "LOG s1 = ?l" using s1(4) by (rule more_LOG)
  have card: "{c. 0 < refs s1 c} = set (txn ?h)" by (auto simp: s1 refs)
  have i1: "idle 1 s1" using s1(2) tx(6) unfolding idle_def card by simp
  have st1: "view s1 ?st = view s ?st"
    using sl(2) by (simp add: s1 log_copies_def apply_writes_map_other)
  obtain s2 where s2: "write_head s1 = Some s2" "idle 1 s2"
    "view s2 = (view s1)(?st := put_header ?h (view s ?st))" "disk s2 = (disk s1)(?st := put_header ?h (view s ?st))"
    "writes s2 = writes s1 @ [(?st, put_header ?h (view s ?st))]" "refs s2 = refs s1" "bcache.more s2 = bcache.more s1"
    using write_head_law [of s1, unfolded L1 st1, OF geom(2) i1] by blast
  have L2: "LOG s2 = ?l" using s2(7) s1(4) by (intro more_LOG) simp
  have slots: "slot_copies s2 ?n = home_copies s ?n"
  proof -
    have "view s2 (log_slot ?l k) = view s (lh_blocknos ?h ! k)" if "k < ?n" for k
      using that sl(2) [OF that] apply_writes_map [OF sl(3) that]
      by (simp add: s2 s1 log_copies_def)
    then show ?thesis by (simp add: slot_copies_def home_copies_def L2)
  qed
  have i2: "idle 0 s2" using s2(2) by (simp add: idle_def)
  have r2: "refs s2 = (\<lambda>b. if \<not> False \<and> b \<in> set (txn ?h) then 1 else 0)"
    by (simp add: s2 s1 refs)
  obtain s3 where s3: "install_trans False s2 = Some s3" "idle 0 s3" "refs s3 = (\<lambda>_. 0)"
    "bcache.more s3 = bcache.more s2" "writes s3 = writes s2 @ home_copies s ?n"
    "disk s3 = apply_writes (home_copies s ?n) (disk s2)" "view s3 = apply_writes (home_copies s ?n) (view s2)"
    using install_trans_law [of s2 False, unfolded L2 slots, OF geom(1) hok i2 r2] by blast
  have L3: "LOG s3 = ?l" using s3(4) L2 more_LOG by metis
  define s4 where "s4 = upd_hdr (\<lambda>h. h\<lparr>lh_n := 0\<rparr>) s3"
  have "lh_blocknos ?h ! k \<noteq> ?st" if "k < ?n" for k
    using tx(4) [OF that] sl(4) by auto
  then have st4: "view s4 ?st = put_header ?h (view s ?st)"
    by (simp add: s4_def s3 s2 home_copies_def apply_writes_map_other)
  have L4: "LOG s4 = ?l\<lparr>log_hdr := ?h\<lparr>lh_n := 0\<rparr>\<rparr>" by (simp add: s4_def L3)
  have i4: "idle 1 s4" and d4: "log_dev (LOG s4) = ROOTDEV"
    using s3(2,3) geom by (simp_all add: s4_def idle_def NBUF_eq L3)
  have S4: "log_start (LOG s4) = ?st" "log_hdr (LOG s4) = ?h\<lparr>lh_n := 0\<rparr>" by (simp_all add: L4)
  obtain s5 where s5: "write_head s4 = Some s5" "idle 1 s5" "refs s5 = refs s4" "bcache.more s5 = bcache.more s4"
    "view s5 = (view s4)(?st := put_header (?h\<lparr>lh_n := 0\<rparr>) (put_header ?h (view s ?st)))"
    "disk s5 = (disk s4)(?st := put_header (?h\<lparr>lh_n := 0\<rparr>) (put_header ?h (view s ?st)))"
    "writes s5 = writes s4 @ [(?st, put_header (?h\<lparr>lh_n := 0\<rparr>) (put_header ?h (view s ?st)))]"
    using write_head_law [OF d4 i4, unfolded S4 st4] by blast
  have "commit s = Some s5"
    using n s1(1) s2(1) s3(1) s5(1) by (simp add: commit_def s4_def)
  moreover have "SB s5 = SB s \<and> log_state.more s5 = log_state.more s"
    using more_rest [OF s5(4)] more_rest [OF s3(4)] more_rest [OF s2(7)] more_rest [OF s1(4)]
    by (simp add: s4_def)
  ultimately show ?thesis
    using s5 s2 s1 s3 L4 more_LOG [OF s5(4)]
    by (intro that [of s5]) (simp_all add: commit_writes_def Let_def s4_def idle_def)
qed

section \<open>Recovery\<close>

text \<open>The disk \<open>D\<close> stands for the contents \<open>V\<close>: outside the log, a block named by the header on
  disk has the contents of its log slot, every other one its own.\<close>

definition recovers_to :: "log_data \<Rightarrow> (u32 \<Rightarrow> block) \<Rightarrow> (u32 \<Rightarrow> block) \<Rightarrow> bool" where
  "recovers_to l D V \<longleftrightarrow>
     (let h = header_of (D (log_start l))
      in header_ok l h \<and> (\<forall>k < unat (lh_n h). V (lh_blocknos h ! k) = D (log_slot l k)) \<and>
         (\<forall>b. b \<notin> log_area l \<longrightarrow> b \<notin> set (txn h) \<longrightarrow> V b = D b))"

definition log_at :: "super_block \<Rightarrow> log_data" where
  "log_at sb = log_new\<lparr>log_start := sb_logstart sb, log_size := sb_nlog sb, log_dev := ROOTDEV\<rparr>"

text \<open>The kernel after a reboot on the disk \<open>D\<close>: a cold cache and an empty in-memory log.\<close>

definition reboot :: "super_block \<Rightarrow> (u32 \<Rightarrow> block) \<Rightarrow> log_state" where
  "reboot sb D = \<lparr>lru = lru_init lru_new, bufs = replicate NBUF new_buf, disk = D, writes = [], SB = sb, LOG = log_new\<rparr>"

lemma reboot_simps:
  "idle 1 (reboot sb D)" "refs (reboot sb D) = (\<lambda>_. 0)" "view (reboot sb D) = D"
  "disk (reboot sb D) = D" "writes (reboot sb D) = []" "LOG (reboot sb D) = log_new"
proof -
  have "bcache_inv (reboot sb D)" "refs (reboot sb D) = refs (bcache_init D)"
    "held (reboot sb D) = held (bcache_init D)" "view (reboot sb D) = view (bcache_init D)"
    using bcache_cong [of "reboot sb D" "bcache_init D"] bcache_init_inv(1) [of D]
    by (simp_all add: reboot_def bcache_init_def)
  then show "idle 1 (reboot sb D)" "refs (reboot sb D) = (\<lambda>_. 0)" "view (reboot sb D) = D"
    by (auto simp: idle_def bcache_init_inv NBUF_eq fun_eq_iff)
qed (simp_all add: reboot_def)

lemma buf_drop_LOG: "buf_drop g (s\<lparr>LOG := x\<rparr>) = map_option (\<lambda>s. s\<lparr>LOG := x\<rparr>) (buf_drop g s)"
  by (cases "lru_brelse (g_index g) (lru s)") (simp_all add: buf_drop_def upd_buf_def)

lemma buf_drop_more: "buf_drop g s = Some s' \<Longrightarrow> bcache.more s' = bcache.more s"
  by (auto simp: buf_drop_def upd_buf_def Let_def split: Option.bind_splits)

lemma read_head_law:
  assumes "log_dev (LOG s) = ROOTDEV" "idle 1 s"
  obtains t where "read_head s = Some (upd_hdr (\<lambda>_. header_of (view s (log_start (LOG s)))) t)"
    "idle 1 t" "view t = view s" "disk t = disk s" "writes t = writes s" "refs t = refs s"
    "bcache.more t = bcache.more s"
proof -
  obtain t where t: "read_block ROOTDEV (log_start (LOG s)) s = Some (view s (log_start (LOG s)), t)"
    "idle 1 t" "view t = view s" "disk t = disk s" "writes t = writes s" "refs t = refs s"
    "bcache.more t = bcache.more s"
    using read_block_law [OF assms(2) zero_less_one] by blast
  from t(1) obtain g u where g: "bread ROOTDEV (log_start (LOG s)) s = Some (g, u)"
    "buf_data g u = view s (log_start (LOG s))" "buf_drop g u = Some t"
    by (auto simp: read_block_def split: Option.bind_splits)
  moreover have "LOG u = LOG t"
    using buf_drop_more [OF g(3)] by (metis more_LOG)
  ultimately have "read_head s = Some (upd_hdr (\<lambda>_. header_of (view s (log_start (LOG s)))) t)"
    using assms(1) by (simp add: read_head_def buf_drop_LOG)
  with t show ?thesis by (intro that [of t])
qed

lemma take_slot_copies: "take j (slot_copies s n) = slot_copies s (min j n)"
  by (simp add: slot_copies_def take_map min_def)

text \<open>Installing part of a transaction leaves the disk standing for the same contents.\<close>

lemma recovers_to_installing:
  assumes geom: "log_geom l" and rec: "recovers_to l D V"
  defines "h \<equiv> header_of (D (log_start l))"
  assumes m: "m \<le> unat (lh_n h)"
  shows "recovers_to l (apply_writes (map (\<lambda>k. (lh_blocknos h ! k, D (log_slot l k))) [0..<m]) D) V"
    and "m = unat (lh_n h) \<Longrightarrow> b \<notin> log_area l \<Longrightarrow>
      apply_writes (map (\<lambda>k. (lh_blocknos h ! k, D (log_slot l k))) [0..<m]) D b = V b"
proof -
  let ?D = "apply_writes (map (\<lambda>k. (lh_blocknos h ! k, D (log_slot l k))) [0..<m]) D"
  have hok: "header_ok l h" and V: "\<And>k. k < unat (lh_n h) \<Longrightarrow> V (lh_blocknos h ! k) = D (log_slot l k)"
    and V': "\<And>b. b \<notin> log_area l \<Longrightarrow> b \<notin> set (txn h) \<Longrightarrow> V b = D b"
    using rec by (simp_all add: recovers_to_def Let_def h_def)
  note tx = header_ok_txn [OF geom hok] and sl = log_slots [OF geom hok]
  have area: "?D b = D b" if "b \<in> log_area l" for b
    using tx(4) that m by (intro apply_writes_map_other) auto
  have hdr: "?D (log_start l) = D (log_start l)"
    using area sl(4) by simp
  have other: "?D b = D b" if "b \<notin> set (txn h)" for b
    using tx(3) [of b] that m by (intro apply_writes_map_other) (metis less_le_trans)
  show "recovers_to l ?D V"
    unfolding recovers_to_def Let_def hdr h_def [symmetric]
    using hok V V' area sl(1) other by auto
  show "?D b = V b" if em: "m = unat (lh_n h)" and nb: "b \<notin> log_area l"
  proof (cases "b \<in> set (txn h)")
    case True
    then obtain k where k: "k < m" "b = lh_blocknos h ! k"
      using tx(3) em by auto
    then show ?thesis
      using apply_writes_map [of "\<lambda>k. lh_blocknos h ! k" m k "\<lambda>k. D (log_slot l k)" D] tx(5) V em by simp
  next
    case False
    then show ?thesis using other V' nb by simp
  qed
qed

lemma recovers_to_empty:
  assumes "log_geom l" "lh_n (header_of (D (log_start l))) = 0" "\<And>b. b \<notin> log_area l \<Longrightarrow> V b = D b"
  shows "recovers_to l D V"
  using assms by (auto simp: recovers_to_def header_ok_def header_of_def txn_def log_geom_def)

lemma geom_hdr [simp]:
  "log_geom (l\<lparr>log_hdr := x\<rparr>) = log_geom l" "header_ok (l\<lparr>log_hdr := x\<rparr>) h = header_ok l h"
  "log_area (l\<lparr>log_hdr := x\<rparr>) = log_area l" "log_slot (l\<lparr>log_hdr := x\<rparr>) k = log_slot l k"
  "recovers_to (l\<lparr>log_hdr := x\<rparr>) D V = recovers_to l D V"
  by (simp_all add: log_geom_def header_ok_def log_area_def log_slot_def recovers_to_def Let_def)

lemma header_ok_empty: "log_geom l \<Longrightarrow> length (lh_blocknos h) = LOGSIZE \<Longrightarrow> lh_n h = 0 \<Longrightarrow> header_ok l h"
  by (simp add: header_ok_def txn_def log_geom_def)

text \<open>Recovery returns, installs \<open>V\<close>, and whenever it is interrupted the disk still stands for
  \<open>V\<close>.\<close>

lemma recovery_law:
  assumes geom: "log_geom (log_at sb)" and rec: "recovers_to (log_at sb) D V"
  obtains s' where "log_init ROOTDEV sb (reboot sb D) = Some s'" "log_inv s'"
    "\<exists>bs. LOG s' = (log_at sb)\<lparr>log_hdr := \<lparr>lh_n = 0, lh_blocknos = bs\<rparr>\<rparr>"
    "\<And>b. b \<notin> log_area (log_at sb) \<Longrightarrow> disk s' b = V b"
    "view s' = disk s'" "disk s' = apply_writes (writes s') D"
    "\<And>j. recovers_to (log_at sb) (apply_writes (take j (writes s')) D) V"
proof -
  let ?l = "log_at sb"
  let ?st = "log_start ?l"
  define h where "h = header_of (D ?st)"
  have hok: "header_ok ?l h" using rec by (simp add: recovers_to_def Let_def h_def)
  note tx = header_ok_txn [OF geom hok] and sl = log_slots [OF geom hok]
  define s0 where "s0 = (reboot sb D)\<lparr>LOG := ?l\<rparr>"
  have i0: "log_init ROOTDEV sb (reboot sb D) = recover_from_log s0"
    by (simp add: log_init_def s0_def log_at_def reboot_simps)
  have s0: "idle 1 s0" "view s0 = D" "disk s0 = D" "writes s0 = []" "refs s0 = (\<lambda>_. 0)" "LOG s0 = ?l"
    by (simp_all add: s0_def reboot_simps del: One_nat_def)
  have dev: "log_dev ?l = ROOTDEV" using geom by (simp add: log_geom_def)
  from read_head_law [of s0, unfolded s0(6) s0(2), OF dev s0(1), folded h_def] obtain t where
    t: "read_head s0 = Some (upd_hdr (\<lambda>_. h) t)" "idle 1 t" "view t = D" "disk t = D" "writes t = []"
    "refs t = (\<lambda>_. 0)" "bcache.more t = bcache.more s0"
    using s0 by auto
  define s1 where "s1 = upd_hdr (\<lambda>_. h) t"
  have Lt: "LOG t = ?l" using more_LOG [OF t(7)] by (simp add: s0)
  then have L1: "LOG s1 = ?l\<lparr>log_hdr := h\<rparr>" by (simp add: s1_def)
  have W: "slot_copies s1 n = map (\<lambda>k. (lh_blocknos h ! k, D (log_slot ?l k))) [0..<n]" for n
    by (simp add: slot_copies_def s1_def t Lt)
  have "log_geom (LOG s1)" "header_ok (LOG s1) (log_hdr (LOG s1))" "idle 0 s1"
    "refs s1 = (\<lambda>b. if \<not> True \<and> b \<in> set (txn (log_hdr (LOG s1))) then 1 else 0)"
    using geom hok t(2,6) by (simp_all add: L1) (simp_all add: s1_def idle_def)
  then obtain s2 where s2: "install_trans True s1 = Some s2" "idle 0 s2" "refs s2 = (\<lambda>_. 0)"
    "bcache.more s2 = bcache.more s1" and raw: "writes s2 = writes s1 @ slot_copies s1 (unat (lh_n (log_hdr (LOG s1))))"
    "disk s2 = apply_writes (slot_copies s1 (unat (lh_n (log_hdr (LOG s1))))) (disk s1)"
    "view s2 = apply_writes (slot_copies s1 (unat (lh_n (log_hdr (LOG s1))))) (view s1)"
    by (rule install_trans_law)
  have N1: "log_hdr (LOG s1) = h" by (simp add: L1)
  have w2: "writes s2 = slot_copies s1 (unat (lh_n h))" "disk s2 = apply_writes (slot_copies s1 (unat (lh_n h))) D"
    "view s2 = disk s2"
    using raw unfolding N1 by (simp_all add: s1_def t)
  define s3 where "s3 = upd_hdr (\<lambda>h. h\<lparr>lh_n := 0\<rparr>) s2"
  have L3: "LOG s3 = ?l\<lparr>log_hdr := h\<lparr>lh_n := 0\<rparr>\<rparr>" using more_LOG [OF s2(4)] by (simp add: s3_def L1)
  have i3: "idle 1 s3" using s2(2,3) by (simp add: s3_def idle_def NBUF_eq)
  define hb where "hb = put_header (h\<lparr>lh_n := 0\<rparr>) (view s3 ?st)"
  have "log_dev (LOG s3) = ROOTDEV" by (simp add: L3 dev)
  moreover have S3: "log_start (LOG s3) = ?st" "log_hdr (LOG s3) = h\<lparr>lh_n := 0\<rparr>" by (simp_all add: L3)
  ultimately obtain s' where
    s': "write_head s3 = Some s'" "idle 1 s'" "view s' = (view s3)(?st := hb)" "disk s' = (disk s3)(?st := hb)"
    "writes s' = writes s3 @ [(?st, hb)]" "refs s' = refs s3" "bcache.more s' = bcache.more s3"
    using write_head_law [of s3, OF _ i3, unfolded S3, folded hb_def] by blast
  have hb0: "header_of hb = h\<lparr>lh_n := 0\<rparr>"
    unfolding hb_def using hok by (intro header_of_put_header) (simp add: header_ok_def)
  have L': "LOG s' = ?l\<lparr>log_hdr := h\<lparr>lh_n := 0\<rparr>\<rparr>" using more_LOG [OF s'(7)] by (simp add: L3)
  have V: "disk s' b = V b" if "b \<notin> log_area ?l" for b
  proof -
    have "b \<noteq> ?st" using that sl(4) by auto
    then show ?thesis
      using recovers_to_installing(2) [OF geom rec _ refl that, folded h_def]
      by (simp add: s'(4) s3_def w2(2) W)
  qed
  have "recovers_to ?l (apply_writes (take j (writes s')) D) V" for j
  proof (cases "j \<le> unat (lh_n h)")
    case True
    then have "take j (writes s') = slot_copies s1 j"
      by (simp add: s'(5) s3_def w2(1) take_slot_copies) (simp add: slot_copies_def)
    then show ?thesis
      using recovers_to_installing(1) [OF geom rec, folded h_def, OF True] by (simp add: W)
  next
    case False
    then have "apply_writes (take j (writes s')) D = disk s'"
      by (simp add: s'(4,5) s3_def w2(1,2) slot_copies_def)
    then show ?thesis
      using V by (intro recovers_to_empty [OF geom]) (simp_all add: s'(4) hb0)
  qed
  moreover have "log_inv s'"
    using geom hok s'(2,4) by (simp add: log_inv_def L' hb0 header_ok_empty header_ok_def idle_def)
      (simp add: s'(6) s3_def s2(3) txn_def)
  moreover have "recover_from_log s0 = Some s'"
    using t(1) s2(1) s'(1) by (simp add: recover_from_log_def s1_def s3_def)
  moreover have "\<exists>bs. LOG s' = ?l\<lparr>log_hdr := \<lparr>lh_n = 0, lh_blocknos = bs\<rparr>\<rparr>"
    by (cases h) (auto simp: L')
  moreover have "view s' = disk s'" "disk s' = apply_writes (writes s') D"
    by (simp_all add: s'(3-5) s3_def w2)
  ultimately show ?thesis
    using V by (intro that [of s']) (simp_all add: i0)
qed

section \<open>Crashes\<close>

text \<open>Any number of reboots whose recovery is itself cut off after some of its disk writes.\<close>

inductive rebooted :: "super_block \<Rightarrow> (u32 \<Rightarrow> block) \<Rightarrow> (u32 \<Rightarrow> block) \<Rightarrow> bool" for sb D where
  once: "rebooted sb D D"
| again: "rebooted sb D E \<Longrightarrow> log_init ROOTDEV sb (reboot sb E) = Some r \<Longrightarrow>
    rebooted sb D (apply_writes (take j (writes r)) E)"

lemma rebooted_recovers:
  assumes "rebooted sb D E" "log_geom (log_at sb)" "recovers_to (log_at sb) D V"
  shows "recovers_to (log_at sb) E V"
  using assms
proof (induction rule: rebooted.induct)
  case (again E r j)
  then have "recovers_to (log_at sb) E V" by simp
  from recovery_law [OF again.prems(1) this] again.hyps(2) show ?case
    by (metis option.inject)
qed

text \<open>Before its header is on disk a commit stands for the old contents, from then on for the new
  ones.\<close>

lemma commit_prefix:
  assumes inv: "log_inv s"
  shows "recovers_to (LOG s) (apply_writes (take j (commit_writes s)) (disk s)) (disk s) \<or>
    recovers_to (LOG s) (apply_writes (take j (commit_writes s)) (disk s)) (view s)"
proof -
  let ?l = "LOG s" and ?h = "log_hdr (LOG s)"
  let ?n = "unat (lh_n ?h)" and ?st = "log_start (LOG s)"
  let ?hb = "put_header ?h (view s ?st)"
  let ?D = "\<lambda>j. apply_writes (take j (commit_writes s)) (disk s)"
  have geom: "log_geom ?l" and hok: "header_ok ?l ?h" and refs: "refs s = (\<lambda>b. if b \<in> set (txn ?h) then 1 else 0)"
    and empty: "lh_n (header_of (disk s ?st)) = 0" and cinv: "bcache_inv s"
    using inv by (simp_all add: log_inv_def idle_def)
  note tx = header_ok_txn [OF geom hok] and sl = log_slots [OF geom hok]
  have hb: "header_of ?hb = ?h"
    using hok by (intro header_of_put_header) (simp add: header_ok_def)
  have clean: "view s b = disk s b" if "b \<notin> set (txn ?h)" for b
    using unreferenced_clean [OF cinv, of b] that by (simp add: refs)
  have logged: "apply_writes (log_copies s m) (disk s) b = disk s b" if "b \<notin> log_area ?l \<or> b = ?st" "m \<le> ?n" for b m
    unfolding log_copies_def using that sl by (intro apply_writes_map_other) (metis less_le_trans)
  let ?E = "(apply_writes (log_copies s ?n) (disk s))(?st := ?hb)"
  have E: "?E ?st = ?hb" "?E b = disk s b" "k < ?n \<Longrightarrow> ?E (log_slot ?l k) = view s (lh_blocknos ?h ! k)"
    if "b \<notin> log_area ?l" for b k
    using logged [of b ?n] that sl(2,4) apply_writes_map [OF sl(3)] by (auto simp: log_copies_def)
  have new: "recovers_to ?l ?E (view s)"
    unfolding recovers_to_def Let_def fun_upd_same hb
    using hok E clean by (metis (no_types, lifting) tx(4) sl(4) fun_upd_same)
  have homes: "home_copies s m = map (\<lambda>k. (lh_blocknos ?h ! k, ?E (log_slot ?l k))) [0..<m]" if "m \<le> ?n" for m
    using that E(3) sl(2) apply_writes_map [OF sl(3)] by (auto simp: home_copies_def log_copies_def)
  have W: "commit_writes s = log_copies s ?n @ [(?st, ?hb)] @ home_copies s ?n @ [(?st, put_header (?h\<lparr>lh_n := 0\<rparr>) ?hb)]"
    by (simp add: commit_writes_def Let_def)
  have len: "length (log_copies s m) = m" "length (home_copies s m) = m" for m
    by (simp_all add: log_copies_def home_copies_def)
  have tk: "take j (log_copies s m) = log_copies s (min j m)" "take j (home_copies s m) = home_copies s (min j m)" for j m
    by (simp_all add: log_copies_def home_copies_def take_map min_def)
  note inst = recovers_to_installing [OF geom new, unfolded fun_upd_same hb]
  consider "j \<le> ?n" | "?n < j" "j \<le> Suc (?n + ?n)" | "Suc (?n + ?n) < j" by linarith
  then show ?thesis
  proof cases
    case 1
    then have "take j (commit_writes s) = log_copies s j" by (simp add: W len tk)
    moreover have "recovers_to ?l (apply_writes (log_copies s j) (disk s)) (disk s)"
      using 1 empty logged sl(4) by (intro recovers_to_empty [OF geom]) auto
    ultimately show ?thesis by simp
  next
    case 2
    then obtain m where m: "j = ?n + Suc m" "m \<le> ?n" by (metis add_Suc_right add_le_cancel_left less_iff_Suc_add Suc_le_mono)
    then have "take j (commit_writes s) = log_copies s ?n @ [(?st, ?hb)] @ home_copies s m"
      by (simp add: W len tk)
    then show ?thesis
      using inst(1) [OF m(2)] by (simp add: homes [OF m(2)])
  next
    case 3
    then have "take j (commit_writes s) = commit_writes s" by (simp add: W len)
    moreover have "recovers_to ?l (apply_writes (commit_writes s) (disk s)) (view s)"
    proof (rule recovers_to_empty [OF geom])
      have "header_of (put_header (?h\<lparr>lh_n := 0\<rparr>) ?hb) = ?h\<lparr>lh_n := 0\<rparr>"
        using hok by (intro header_of_put_header) (simp add: header_ok_def)
      then show "lh_n (header_of (apply_writes (commit_writes s) (disk s) ?st)) = 0" by (simp add: W)
      show "view s b = apply_writes (commit_writes s) (disk s) b" if "b \<notin> log_area ?l" for b
        using inst(2) [OF order_refl refl that] that sl(4) by (auto simp: W homes)
    qed
    ultimately show ?thesis by simp
  qed
qed

section \<open>Inside a transaction\<close>

text \<open>While buffers are held, each block of the transaction has one reference, each held block one
  more.  Without held buffers this is the invariant above.\<close>

definition log_ok :: "'z log_state_scheme \<Rightarrow> bool" where
  "log_ok s \<longleftrightarrow> log_geom (LOG s) \<and> header_ok (LOG s) (log_hdr (LOG s)) \<and> bcache_inv s \<and>
     refs s = (\<lambda>b. of_bool (b \<in> set (txn (log_hdr (LOG s)))) + of_bool (held s b)) \<and>
     lh_n (header_of (disk s (log_start (LOG s)))) = 0"

lemma log_inv_iff: "log_inv s \<longleftrightarrow> log_ok s \<and> (\<forall>b. \<not> held s b)"
proof -
  have "idle 0 s" if ok: "log_ok s" and nh: "\<forall>b. \<not> held s b"
  proof -
    have g: "log_geom (LOG s)" "header_ok (LOG s) (log_hdr (LOG s))"
      and r: "refs s = (\<lambda>b. of_bool (b \<in> set (txn (log_hdr (LOG s)))))"
      using ok nh by (auto simp: log_ok_def)
    have "{c. 0 < refs s c} = set (txn (log_hdr (LOG s)))"
      by (auto simp: r)
    then show ?thesis
      using header_ok_txn(6) [OF g] ok nh by (simp add: idle_def log_ok_def)
  qed
  moreover have "(\<lambda>b. if b \<in> set (txn (log_hdr (LOG s))) then 1 else 0 :: nat) =
      (\<lambda>b. of_bool (b \<in> set (txn (log_hdr (LOG s)))) + of_bool (held s b))" if "\<forall>b. \<not> held s b"
    using that by (intro ext) simp
  ultimately show ?thesis
    unfolding log_inv_def log_ok_def by (auto simp: idle_def)
qed

definition in_use :: "'z log_state_scheme \<Rightarrow> u32 set" where
  "in_use s = set (txn (log_hdr (LOG s))) \<union> {b. held s b}"

lemma log_ok_bread:
  assumes ok: "log_ok s" and nh: "\<not> held s b" and room: "card (insert b (in_use s)) \<le> NBUF"
  obtains g s' where "bread ROOTDEV b s = Some (g, s')" "log_ok s'" "guard_ok s' g" "g_blockno g = b"
    "view s' = view s" "disk s' = disk s" "writes s' = writes s" "bcache.more s' = bcache.more s"
    "held s' = (held s)(b := True)" "\<And>g'. guard_ok s g' \<Longrightarrow> guard_ok s' g'"
proof -
  have inv: "bcache_inv s" and r: "refs s = (\<lambda>b. of_bool (b \<in> set (txn (log_hdr (LOG s)))) + of_bool (held s b))"
    using ok by (simp_all add: log_ok_def)
  have u: "{c. 0 < refs s c} = in_use s"
    by (auto simp: r in_use_def)
  have "room s b"
  proof (cases "b \<in> in_use s")
    case True
    then have "0 < refs s b" using u by blast
    then show ?thesis by (simp add: room_def)
  next
    case False
    then show ?thesis using room by (simp add: room_def u)
  qed
  moreover have "refs s b < 2 ^ 63" by (simp add: r)
  ultimately obtain g s' where g: "bread ROOTDEV b s = Some (g, s')" "bcache_inv s'" "guard_ok s' g" "g_blockno g = b"
    "view s' = view s" "disk s' = disk s" "writes s' = writes s" "bcache.more s' = bcache.more s"
    "refs s' = (refs s)(b := Suc (refs s b))" "held s' = (held s)(b := True)"
    "\<And>g'. guard_ok s g' \<Longrightarrow> guard_ok s' g'"
    using bread_law [OF inv nh] by blast
  moreover have "refs s' = (\<lambda>b. of_bool (b \<in> set (txn (log_hdr (LOG s)))) + of_bool (held s' b))"
    using nh by (intro ext) (simp add: g r)
  then have "log_ok s'"
    using ok g more_LOG [OF g(8)] by (simp add: log_ok_def)
  ultimately show ?thesis by (intro that [of g s'])
qed

lemma log_ok_set_data:
  assumes ok: "log_ok s" and g: "guard_ok s g" and na: "g_blockno g \<notin> log_area (LOG s)"
  shows "log_ok (set_buf_data g d s)" "LOG (set_buf_data g d s) = LOG s"
proof -
  have inv: "bcache_inv s" using ok by (simp add: log_ok_def)
  note l = set_buf_data_law [OF inv g, of d]
  show L: "LOG (set_buf_data g d s) = LOG s" using more_LOG [OF l(7)] .
  show "log_ok (set_buf_data g d s)" using ok by (simp add: log_ok_def L l)
qed

lemma log_ok_drop:
  assumes ok: "log_ok s" and g: "guard_ok s g"
    and logged: "g_blockno g \<in> set (txn (log_hdr (LOG s))) \<or> view s (g_blockno g) = disk s (g_blockno g)"
  obtains s' where "buf_drop g s = Some s'" "log_ok s'" "view s' = view s" "disk s' = disk s"
    "writes s' = writes s" "bcache.more s' = bcache.more s" "held s' = (held s)(g_blockno g := False)"
    "\<And>g'. guard_ok s g' \<Longrightarrow> g_blockno g' \<noteq> g_blockno g \<Longrightarrow> guard_ok s' g'"
proof -
  have inv: "bcache_inv s" and r: "refs s = (\<lambda>b. of_bool (b \<in> set (txn (log_hdr (LOG s)))) + of_bool (held s b))"
    using ok by (simp_all add: log_ok_def)
  have h: "held s (g_blockno g)" using guard_okD [OF inv g] by simp
  have "1 < refs s (g_blockno g) \<or> view s (g_blockno g) = disk s (g_blockno g)"
    using logged h by (auto simp: r)
  then obtain s' where d: "buf_drop g s = Some s'" "bcache_inv s'" "view s' = view s" "disk s' = disk s"
    "writes s' = writes s" "refs s' = (refs s)(g_blockno g := refs s (g_blockno g) - 1)"
    "held s' = (held s)(g_blockno g := False)" "bcache.more s' = bcache.more s"
    "\<And>g'. guard_ok s g' \<Longrightarrow> g_blockno g' \<noteq> g_blockno g \<Longrightarrow> guard_ok s' g'"
    using buf_drop_law [OF inv g] by blast
  moreover have "refs s' = (\<lambda>b. of_bool (b \<in> set (txn (log_hdr (LOG s)))) + of_bool (held s' b))"
    using h by (intro ext) (simp add: d r)
  then have "log_ok s'"
    using ok d more_LOG [OF d(8)] by (simp add: log_ok_def)
  ultimately show ?thesis by (intro that [of s'])
qed

lemma log_ok_write:
  assumes ok: "log_ok s" and g: "guard_ok s g" and na: "g_blockno g \<notin> log_area (LOG s)"
    and out: "log_outstanding (LOG s) \<noteq> 0" and space: "Suc (unat (lh_n (log_hdr (LOG s)))) < unat (log_size (LOG s))"
  obtains s' h' where "log_write g s = Some s'" "log_ok s'" "view s' = view s" "disk s' = disk s"
    "writes s' = writes s" "held s' = held s" "\<And>g'. guard_ok s' g' = guard_ok s g'"
    "SB s' = SB s" "log_state.more s' = log_state.more s" "LOG s' = (LOG s)\<lparr>log_hdr := h'\<rparr>"
    "set (txn h') = insert (g_blockno g) (set (txn (log_hdr (LOG s))))"
    "unat (lh_n h') = unat (lh_n (log_hdr (LOG s))) + of_bool (g_blockno g \<notin> set (txn (log_hdr (LOG s))))"
proof -
  let ?l = "LOG s" and ?h = "log_hdr (LOG s)" and ?b = "g_blockno g"
  let ?n = "unat (lh_n ?h)"
  have geom: "log_geom ?l" and hok: "header_ok ?l ?h" and inv: "bcache_inv s"
    and r: "refs s = (\<lambda>b. of_bool (b \<in> set (txn ?h)) + of_bool (held s b))"
    using ok by (simp_all add: log_ok_def)
  note tx = header_ok_txn [OF geom hok]
  have len: "length (lh_blocknos ?h) = LOGSIZE" using hok by (simp add: header_ok_def)
  have "unat (log_size ?l - 1) = unat (log_size ?l) - 1"
    using geom by (subst unat_minus_no_underflow) (simp_all add: log_geom_def)
  then have guards: "\<not> (?n \<ge> LOGSIZE \<or> lh_n ?h \<ge> log_size ?l - 1)" "\<not> log_outstanding ?l < 1"
    using space tx(1) out by (simp_all add: word_le_nat_alt word_less_nat_alt unat_eq_0 Suc_le_eq not_le)
  show ?thesis
  proof (cases "?b \<in> set (txn ?h)")
    case True
    then obtain i where i: "find_index (\<lambda>x. x = ?b) (txn ?h) = Some i"
      by (cases "find_index (\<lambda>x. x = ?b) (txn ?h)") auto
    then have "i < ?n" "lh_blocknos ?h ! i = ?b"
      using find_index_SomeD [OF i] tx(2) by (auto simp: txn_def)
    then have "log_write g s = Some s"
      using guards i by (simp add: log_write_def Let_def absorb_index_def txn_def [symmetric] list_update_same_conv len)
    with True ok show ?thesis
      by (intro that [of s ?h]) auto
  next
    case False
    then have "find_index (\<lambda>x. x = ?b) (txn ?h) = None" by auto
    then have ai: "absorb_index (lh_blocknos ?h) ?n ?b = ?n"
      unfolding absorb_index_def txn_def [symmetric] by (simp only: option.case)
    define h' where "h' = ?h\<lparr>lh_blocknos := (lh_blocknos ?h)[?n := ?b], lh_n := lh_n ?h + 1\<rparr>"
    have un: "unat (lh_n ?h + 1) = Suc ?n"
      using tx(1) by (subst unat_plus_no_overflow) (simp_all add: LOGSIZE_eq)
    have txn': "txn h' = txn ?h @ [?b]"
      using tx(1) len by (simp add: h'_def txn_def un take_Suc_conv_app_nth)
    have n': "unat (lh_n h') = Suc ?n" by (simp add: h'_def un)
    have "refs s ?b < 2 ^ 63" by (simp add: r)
    note p = bpin_law [OF inv g this]
    let ?s = "(bpin g s)\<lparr>LOG := ?l\<lparr>log_hdr := h'\<rparr>\<rparr>"
    have comm: "bpin g (s\<lparr>LOG := x\<rparr>) = (bpin g s)\<lparr>LOG := x\<rparr>" for x
      by (simp add: bpin_def upd_refcnt_def)
    have "log_write g s = Some ?s"
      using guards by (simp add: log_write_def Let_def ai comm h'_def)
    moreover have "header_ok ?l h'"
      using hok False na space by (simp add: header_ok_def txn') (simp add: h'_def un)
    moreover have "refs ?s = (\<lambda>b. of_bool (b \<in> set (txn h')) + of_bool (held ?s b))"
      using False by (intro ext) (simp add: p r txn')
    ultimately have "log_write g s = Some ?s" "log_ok ?s"
      using ok p by (simp_all add: log_ok_def)
    moreover have "SB (bpin g s) = SB s" "log_state.more (bpin g s) = log_state.more s"
      using more_rest [OF p(7)] by simp_all
    ultimately show ?thesis
      using False p n' by (intro that [of ?s h']) (simp_all add: txn')
  qed
qed

text \<open>The pattern in which the file system changes a block: read it, change the buffer, hand it to
  the log, drop it.\<close>

definition log_update :: "u32 \<Rightarrow> u32 \<Rightarrow> (block \<Rightarrow> block) \<Rightarrow> 'z log_state_scheme \<Rightarrow> 'z log_state_scheme option" where
  "log_update dev b f s = do {
     (buf, s) \<leftarrow> bread dev b s;
     let s = set_buf_data buf (f (buf_data buf s)) s;
     s \<leftarrow> log_write buf s;
     buf_drop buf s }"

definition may_write :: "'z log_state_scheme \<Rightarrow> u32 \<Rightarrow> bool" where
  "may_write s b \<longleftrightarrow> b \<notin> log_area (LOG s) \<and> log_outstanding (LOG s) \<noteq> 0 \<and>
     Suc (unat (lh_n (log_hdr (LOG s)))) < unat (log_size (LOG s)) \<and> \<not> held s b \<and>
     card (insert b (in_use s)) \<le> NBUF"

lemma log_update_law:
  assumes ok: "log_ok s" and may: "may_write s b"
  obtains s' h' where "log_update ROOTDEV b f s = Some s'" "log_ok s'" "view s' = (view s)(b := f (view s b))"
    "disk s' = disk s" "writes s' = writes s" "held s' = held s"
    "\<And>g. guard_ok s g \<Longrightarrow> guard_ok s' g"
    "SB s' = SB s" "log_state.more s' = log_state.more s" "LOG s' = (LOG s)\<lparr>log_hdr := h'\<rparr>"
    "set (txn h') = insert b (set (txn (log_hdr (LOG s))))"
    "unat (lh_n h') = unat (lh_n (log_hdr (LOG s))) + of_bool (b \<notin> set (txn (log_hdr (LOG s))))"
proof -
  have may: "b \<notin> log_area (LOG s)" "log_outstanding (LOG s) \<noteq> 0" "\<not> held s b"
    "Suc (unat (lh_n (log_hdr (LOG s)))) < unat (log_size (LOG s))" "card (insert b (in_use s)) \<le> NBUF"
    using may by (simp_all add: may_write_def)
  obtain g s1 where g: "bread ROOTDEV b s = Some (g, s1)" "log_ok s1" "guard_ok s1 g" "g_blockno g = b"
    "view s1 = view s" "disk s1 = disk s" "writes s1 = writes s" "bcache.more s1 = bcache.more s"
    "held s1 = (held s)(b := True)" "\<And>g'. guard_ok s g' \<Longrightarrow> guard_ok s1 g'"
    using log_ok_bread [OF ok may(3,5)] by blast
  have L1: "LOG s1 = LOG s" by (rule more_LOG [OF g(8)])
  have inv1: "bcache_inv s1" using g(2) by (simp add: log_ok_def)
  have bd: "buf_data g s1 = view s b" using guard_okD(6) [OF inv1 g(3)] g by simp
  define s2 where "s2 = set_buf_data g (f (view s b)) s1"
  note l2 = set_buf_data_law [OF inv1 g(3), of "f (view s b)", folded s2_def]
  have ok2: "log_ok s2" and L2: "LOG s2 = LOG s"
    using log_ok_set_data [OF g(2,3), of "f (view s b)", folded s2_def] may(1) by (simp_all add: L1 g)
  have g2: "guard_ok s2 g" by (simp add: l2(8) g)
  obtain s3 h' where s3: "log_write g s2 = Some s3" "log_ok s3" "view s3 = view s2" "disk s3 = disk s2"
    "writes s3 = writes s2" "held s3 = held s2" "\<And>g'. guard_ok s3 g' = guard_ok s2 g'"
    "SB s3 = SB s2" "log_state.more s3 = log_state.more s2" "LOG s3 = (LOG s)\<lparr>log_hdr := h'\<rparr>"
    and h': "set (txn h') = insert b (set (txn (log_hdr (LOG s))))"
    "unat (lh_n h') = unat (lh_n (log_hdr (LOG s))) + of_bool (b \<notin> set (txn (log_hdr (LOG s))))"
    using log_ok_write [OF ok2 g2, unfolded L2 g(4), OF may(1,2,4)] by blast
  have "guard_ok s3 g" by (simp add: s3 g2)
  moreover have "g_blockno g \<in> set (txn (log_hdr (LOG s3)))" by (simp add: s3 h' g)
  ultimately obtain s' where s': "buf_drop g s3 = Some s'" "log_ok s'" "view s' = view s3" "disk s' = disk s3"
    "writes s' = writes s3" "bcache.more s' = bcache.more s3" "held s' = (held s3)(g_blockno g := False)"
    "\<And>g'. guard_ok s3 g' \<Longrightarrow> g_blockno g' \<noteq> g_blockno g \<Longrightarrow> guard_ok s' g'"
    using log_ok_drop [OF s3(2)] by blast
  have upd: "log_update ROOTDEV b f s = Some s'"
    using g(1) s3(1) s'(1) by (simp add: log_update_def bd s2_def)
  have "guard_ok s' g'" if "guard_ok s g'" for g'
  proof -
    have "held s (g_blockno g')" using guard_okD(7) [OF _ that] ok by (simp add: log_ok_def)
    then have "g_blockno g' \<noteq> g_blockno g" using may(3) g(4) by auto
    with s'(8) [of g'] g(10) [OF that] show ?thesis by (simp add: s3 l2)
  qed
  moreover have "held s' = held s" using may(3) by (auto simp: s' s3 l2 g fun_eq_iff)
  moreover have "SB s' = SB s" "log_state.more s' = log_state.more s"
    using more_rest [OF s'(6)] more_rest [OF g(8)] more_rest [OF l2(7)] s3(8,9) by simp_all
  ultimately show ?thesis
    using upd s' s3 l2 g h' more_LOG [OF s'(6)] by (intro that [of s' h']) simp_all
qed

section \<open>Properties\<close>

lemma geom_flags [simp]:
  "log_geom (l\<lparr>log_outstanding := x\<rparr>) = log_geom l" "header_ok (l\<lparr>log_outstanding := x\<rparr>) h = header_ok l h"
  "log_geom (l\<lparr>log_committing := c\<rparr>) = log_geom l" "header_ok (l\<lparr>log_committing := c\<rparr>) h = header_ok l h"
  "log_area (l\<lparr>log_outstanding := x\<rparr>) = log_area l" "log_area (l\<lparr>log_committing := c\<rparr>) = log_area l"
  by (simp_all add: log_geom_def header_ok_def log_area_def)

lemma log_inv_flags:
  "log_inv (upd_log (\<lambda>l. l\<lparr>log_outstanding := x\<rparr>) s) = log_inv s"
  "log_inv (upd_log (\<lambda>l. l\<lparr>log_committing := c\<rparr>) s) = log_inv s"
  by (simp_all add: log_inv_def)

lemma recovers_to_cong:
  "log_start l = log_start l' \<Longrightarrow> log_size l = log_size l' \<Longrightarrow> recovers_to l = recovers_to l'"
  by (simp add: recovers_to_def header_ok_def log_area_def log_slot_def Let_def fun_eq_iff)

lemma log_inv_installed:
  assumes "log_inv s"
  shows "recovers_to (LOG s) (disk s) (disk s)"
  using assms by (intro recovers_to_empty) (simp_all add: log_inv_def)

text \<open>What \<open>commit\<close> leaves behind: a log with an empty transaction, installed on disk.\<close>

lemma commit_done:
  assumes inv: "log_inv s"
  obtains s' W where "commit s = Some s'" "log_inv s'" "writes s' = writes s @ W"
    "\<And>b. b \<notin> log_area (LOG s) \<Longrightarrow> disk s' b = view s b"
    "\<exists>bs. LOG s' = (LOG s)\<lparr>log_hdr := \<lparr>lh_n = 0, lh_blocknos = bs\<rparr>\<rparr>"
    "\<And>j. recovers_to (LOG s) (apply_writes (take j W) (disk s)) (disk s) \<or>
       recovers_to (LOG s) (apply_writes (take j W) (disk s)) (view s)"
proof (cases "lh_n (log_hdr (LOG s)) > 0")
  case True
  from commit_law [OF inv True] obtain s' where c: "commit s = Some s'" "writes s' = writes s @ commit_writes s"
    "disk s' = apply_writes (commit_writes s) (disk s)" "view s' = apply_writes (commit_writes s) (view s)"
    "LOG s' = (LOG s)\<lparr>log_hdr := (log_hdr (LOG s))\<lparr>lh_n := 0\<rparr>\<rparr>" "idle 0 s'" "refs s' = (\<lambda>_. 0)"
    by blast
  let ?l = "LOG s" and ?h = "log_hdr (LOG s)"
  have geom: "log_geom ?l" and hok: "header_ok ?l ?h"
    using inv by (simp_all add: log_inv_def)
  have "header_of (put_header (?h\<lparr>lh_n := 0\<rparr>) x) = ?h\<lparr>lh_n := 0\<rparr>" for x
    using hok by (intro header_of_put_header) (simp add: header_ok_def)
  then have e: "lh_n (header_of (disk s' (log_start ?l))) = 0"
    by (simp add: c commit_writes_def Let_def)
  then have inv': "log_inv s'"
    using geom hok c by (simp add: log_inv_def header_ok_empty header_ok_def txn_def log_geom_def)
  have "disk s' b = view s b" if "b \<notin> log_area ?l" for b
  proof -
    have "apply_writes (commit_writes s) (view s) b = view s b"
      using that log_slots [OF geom hok]
      by (intro apply_writes_same) (auto simp: commit_writes_def Let_def log_copies_def home_copies_def)
    then show ?thesis
      using unreferenced_clean [of s' b] c by (simp add: idle_def)
  qed
  moreover have "\<exists>bs. LOG s' = ?l\<lparr>log_hdr := \<lparr>lh_n = 0, lh_blocknos = bs\<rparr>\<rparr>"
    unfolding c(5) by (rule exI [of _ "lh_blocknos ?h"]) simp
  ultimately show ?thesis
    using c inv' commit_prefix [OF inv] by (intro that [of s' "commit_writes s"]) auto
next
  case False
  then have n: "lh_n (log_hdr (LOG s)) = 0" by (simp add: word_gt_0)
  have "view s b = disk s b" for b
    using inv n unreferenced_clean [of s b] by (simp add: log_inv_def idle_def txn_def)
  moreover have "commit s = Some s" using n by (simp add: commit_def)
  ultimately show ?thesis
    using inv log_inv_installed [OF inv] n by (intro that [of s "[]"]) (auto intro!: exI [of _ "lh_blocknos (log_hdr (LOG s))"])
qed

text \<open>A sequence of updates inside one transaction.\<close>

definition updated :: "(u32 \<times> (block \<Rightarrow> block)) list \<Rightarrow> (u32 \<Rightarrow> block) \<Rightarrow> u32 \<Rightarrow> block" where
  "updated us v = fold (\<lambda>(b, f) v. v(b := f (v b))) us v"

abbreviation log_updates :: "(u32 \<times> (block \<Rightarrow> block)) list \<Rightarrow> 'z log_state_scheme \<Rightarrow> 'z log_state_scheme option" where
  "log_updates us \<equiv> for_each us (\<lambda>(b, f). log_update ROOTDEV b f)"

lemma may_write_idle:
  assumes "log_inv s" "b \<notin> log_area (LOG s)" "log_outstanding (LOG s) \<noteq> 0"
    "Suc (unat (lh_n (log_hdr (LOG s)))) < unat (log_size (LOG s))"
  shows "may_write s b"
proof -
  have g: "log_geom (LOG s)" "header_ok (LOG s) (log_hdr (LOG s))" and nh: "\<And>b. \<not> held s b"
    using assms(1) by (auto simp: log_inv_iff log_ok_def)
  have "in_use s = set (txn (log_hdr (LOG s)))" using nh by (auto simp: in_use_def)
  then have "card (insert b (in_use s)) \<le> NBUF"
    using header_ok_txn(6) [OF g] by (simp add: card_insert_if)
  with assms nh show ?thesis by (simp add: may_write_def)
qed

lemma log_inv_txn_card:
  assumes "log_inv s"
  shows "unat (lh_n (log_hdr (LOG s))) = card (set (txn (log_hdr (LOG s))))"
  using assms header_ok_txn(2) [of "LOG s" "log_hdr (LOG s)"] distinct_card [of "txn (log_hdr (LOG s))"]
  by (simp add: log_inv_def header_ok_def)

lemma log_updates_law:
  assumes "log_inv s" "log_outstanding (LOG s) \<noteq> 0" "fst ` set us \<inter> log_area (LOG s) = {}"
    "Suc (card (set (txn (log_hdr (LOG s))) \<union> fst ` set us)) < unat (log_size (LOG s))"
  obtains s' h' where "log_updates us s = Some s'" "log_inv s'" "view s' = updated us (view s)" "disk s' = disk s"
    "writes s' = writes s" "LOG s' = (LOG s)\<lparr>log_hdr := h'\<rparr>" "set (txn h') = set (txn (log_hdr (LOG s))) \<union> fst ` set us"
proof -
  have "\<exists>s' h'. log_updates us s = Some s' \<and> log_inv s' \<and> view s' = updated us (view s) \<and> disk s' = disk s \<and>
    writes s' = writes s \<and> LOG s' = (LOG s)\<lparr>log_hdr := h'\<rparr> \<and> set (txn h') = set (txn (log_hdr (LOG s))) \<union> fst ` set us"
    using assms
  proof (induction us arbitrary: s)
    case Nil
    then show ?case by (auto simp: updated_def intro!: exI [of _ "log_hdr (LOG s)"])
  next
    case (Cons u us)
    obtain b f where u: "u = (b, f)" by (cases u)
    have "card (set (txn (log_hdr (LOG s)))) \<le> card (set (txn (log_hdr (LOG s))) \<union> fst ` set (u # us))"
      by (rule card_mono) auto
    with Cons.prems(4) have n: "Suc (unat (lh_n (log_hdr (LOG s)))) < unat (log_size (LOG s))"
      by (simp only: log_inv_txn_card [OF Cons.prems(1)])
    have ok: "log_ok s" using Cons.prems(1) by (simp add: log_inv_iff)
    have may: "may_write s b"
      using Cons.prems n u by (intro may_write_idle) auto
    obtain t h where t: "log_update ROOTDEV b f s = Some t" "log_ok t" "view t = (view s)(b := f (view s b))"
      "disk t = disk s" "writes t = writes s" "held t = held s" "LOG t = (LOG s)\<lparr>log_hdr := h\<rparr>"
      "set (txn h) = insert b (set (txn (log_hdr (LOG s))))"
      by (rule log_update_law [OF ok may, of f]) (rule that, assumption+)
    have inv: "log_inv t" using t(2,6) Cons.prems(1) by (simp add: log_inv_iff)
    have un: "set (txn h) \<union> fst ` set us = set (txn (log_hdr (LOG s))) \<union> fst ` set (u # us)"
      by (auto simp: u t(8))
    have p: "log_outstanding (LOG t) \<noteq> 0" "fst ` set us \<inter> log_area (LOG t) = {}"
      "Suc (card (set (txn (log_hdr (LOG t))) \<union> fst ` set us)) < unat (log_size (LOG t))"
      using Cons.prems(2-4) un by (auto simp: t(7))
    from Cons.IH [OF inv p] obtain s' h' where s': "log_updates us t = Some s'" "log_inv s'"
      "view s' = updated us (view t)" "disk s' = disk t" "writes s' = writes t"
      "LOG s' = (LOG t)\<lparr>log_hdr := h'\<rparr>" "set (txn h') = set (txn (log_hdr (LOG t))) \<union> fst ` set us"
      by (elim exE conjE)
    have "log_updates (u # us) s = Some s'" by (simp add: u t(1) s'(1))
    moreover have "view s' = updated (u # us) (view s)" by (simp add: u updated_def s'(3) t(3))
    ultimately show ?case
      using s' t un by (intro exI [of _ s'] exI [of _ h']) simp
  qed
  then show ?thesis by (elim exE conjE) (rule that)
qed

text \<open>C1: Committing a transaction is atomic under crashes.  When the last operation of a
  transaction ends, \<open>end_op\<close> returns and every block outside the log has on disk the contents
  the transaction gave it.  If the machine stops after any number \<open>j\<close> of the disk writes, and
  then any number of times during recovery itself, the recovery that finally completes finds
  either all of the blocks as they were on disk before the commit or all of them as the
  transaction left them, always the same one of the two for a given \<open>j\<close>, and it leaves a
  working log.\<close>

theorem commit_crash_atomic:
  assumes inv: "log_inv s" and last: "log_outstanding (LOG s) = 1" and "\<not> log_committing (LOG s)"
    and sb: "sb_logstart sb = log_start (LOG s)" "sb_nlog sb = log_size (LOG s)"
  shows "\<exists>s' W. end_op s = Some s' \<and> log_inv s' \<and> writes s' = writes s @ W \<and>
    lh_n (log_hdr (LOG s')) = 0 \<and> (\<forall>b. b \<notin> log_area (LOG s) \<longrightarrow> disk s' b = view s b) \<and>
    (\<forall>j. \<exists>V. (V = disk s \<or> V = view s) \<and>
       (\<forall>E. rebooted sb (apply_writes (take j W) (disk s)) E \<longrightarrow>
          (\<exists>r. log_init ROOTDEV sb (reboot sb E) = Some r \<and> log_inv r \<and>
             (\<forall>b. b \<notin> log_area (LOG s) \<longrightarrow> disk r b = V b))))"
proof -
  define s0 where "s0 = upd_log (\<lambda>l. l\<lparr>log_committing := True\<rparr>) (upd_log (\<lambda>l. l\<lparr>log_outstanding := 0\<rparr>) s)"
  have inv0: "log_inv s0" unfolding s0_def log_inv_flags by (rule inv)
  have s0: "view s0 = view s" "disk s0 = disk s" "writes s0 = writes s" "log_area (LOG s0) = log_area (LOG s)"
    "log_start (LOG s0) = log_start (LOG s)" "log_size (LOG s0) = log_size (LOG s)"
    by (simp_all add: s0_def)
  obtain t W where t: "commit s0 = Some t" "log_inv t" "writes t = writes s @ W"
    "\<And>b. b \<notin> log_area (LOG s) \<Longrightarrow> disk t b = view s b"
    "\<exists>bs. LOG t = (LOG s0)\<lparr>log_hdr := \<lparr>lh_n = 0, lh_blocknos = bs\<rparr>\<rparr>"
    "\<And>j. recovers_to (LOG s0) (apply_writes (take j W) (disk s)) (disk s) \<or>
       recovers_to (LOG s0) (apply_writes (take j W) (disk s)) (view s)"
    using commit_done [OF inv0, unfolded s0] by blast
  let ?s' = "upd_log (\<lambda>l. l\<lparr>log_committing := False\<rparr>) t"
  have e: "end_op s = Some ?s'"
    using assms(3) last t(1) by (simp add: end_op_def s0_def)
  have L: "log_start (log_at sb) = log_start (LOG s)" "log_size (log_at sb) = log_size (LOG s)"
    using sb by (simp_all add: log_at_def)
  have geom: "log_geom (log_at sb)"
    using inv L by (simp add: log_inv_def log_geom_def) (simp add: log_at_def)
  have rec_eq: "recovers_to (LOG s0) = recovers_to (log_at sb)" "log_area (log_at sb) = log_area (LOG s)"
    using recovers_to_cong [of "LOG s0" "log_at sb"] L s0 by (simp_all add: log_area_def)
  have "\<exists>V. (V = disk s \<or> V = view s) \<and>
      (\<forall>E. rebooted sb (apply_writes (take j W) (disk s)) E \<longrightarrow>
         (\<exists>r. log_init ROOTDEV sb (reboot sb E) = Some r \<and> log_inv r \<and>
            (\<forall>b. b \<notin> log_area (LOG s) \<longrightarrow> disk r b = V b)))" for j
  proof -
    obtain V where V: "V = disk s \<or> V = view s" "recovers_to (log_at sb) (apply_writes (take j W) (disk s)) V"
      using t(6) [of j] unfolding rec_eq by blast
    have "\<exists>r. log_init ROOTDEV sb (reboot sb E) = Some r \<and> log_inv r \<and> (\<forall>b. b \<notin> log_area (LOG s) \<longrightarrow> disk r b = V b)"
      if "rebooted sb (apply_writes (take j W) (disk s)) E" for E
      using recovery_law [OF geom rebooted_recovers [OF that geom V(2)]] rec_eq(2) by metis
    with V(1) show ?thesis by blast
  qed
  moreover have "lh_n (log_hdr (LOG ?s')) = 0"
    using t(5) by auto
  moreover have "log_inv ?s'" unfolding log_inv_flags by (rule t(2))
  ultimately show ?thesis
    using e t(3,4) by (intro exI [of _ ?s'] exI [of _ W]) simp
qed

text \<open>C2: A file system operation that changes at most \<open>MAXOPBLOCKS\<close> blocks outside the log, run on
  the log that \<open>mkfs\<close> lays out, is admitted, never panics, touches the disk only at its end,
  and leaves on disk exactly its updates; the log is again empty.\<close>

theorem operation_applies_updates:
  assumes "log_inv s" "log_outstanding (LOG s) = 0" "\<not> log_committing (LOG s)" "lh_n (log_hdr (LOG s)) = 0"
    "log_size (LOG s) = 30" "card (fst ` set us) \<le> unat MAXOPBLOCKS" "fst ` set us \<inter> log_area (LOG s) = {}"
  shows "\<exists>s1 s2 s3. begin_op s = Some s1 \<and> log_updates us s1 = Some s2 \<and> writes s2 = writes s \<and>
    end_op s2 = Some s3 \<and> log_inv s3 \<and> lh_n (log_hdr (LOG s3)) = 0 \<and>
    (\<forall>b. b \<notin> log_area (LOG s) \<longrightarrow> disk s3 b = updated us (disk s) b)"
proof -
  let ?s1 = "upd_log (\<lambda>l. l\<lparr>log_outstanding := 1\<rparr>) s"
  have b: "begin_op s = Some ?s1"
    using assms(2-4) by (simp add: begin_op_def LOGSIZE_eq param_values)
  have inv1: "log_inv ?s1" unfolding log_inv_flags by (rule assms(1))
  have tx: "txn (log_hdr (LOG s)) = []" using assms(4) by (simp add: txn_def)
  have "log_outstanding (LOG ?s1) \<noteq> 0" "fst ` set us \<inter> log_area (LOG ?s1) = {}"
    "Suc (card (set (txn (log_hdr (LOG ?s1))) \<union> fst ` set us)) < unat (log_size (LOG ?s1))"
    using assms(5-7) by (simp_all add: tx param_values)
  note law = log_updates_law [OF inv1 this]
  obtain s2 h where u: "log_updates us ?s1 = Some s2" "log_inv s2"
    "view s2 = updated us (view ?s1)" "disk s2 = disk ?s1" "writes s2 = writes ?s1"
    "LOG s2 = (LOG ?s1)\<lparr>log_hdr := h\<rparr>"
    by (rule law) (rule that, assumption+)
  define s0 where "s0 = upd_log (\<lambda>l. l\<lparr>log_committing := True\<rparr>) (upd_log (\<lambda>l. l\<lparr>log_outstanding := 0\<rparr>) s2)"
  have inv0: "log_inv s0" unfolding s0_def log_inv_flags by (rule u(2))
  obtain t where t: "commit s0 = Some t" "log_inv t" "\<And>b. b \<notin> log_area (LOG s0) \<Longrightarrow> disk t b = view s0 b"
    "\<exists>bs. LOG t = (LOG s0)\<lparr>log_hdr := \<lparr>lh_n = 0, lh_blocknos = bs\<rparr>\<rparr>"
    by (rule commit_done [OF inv0]) (rule that, assumption+)
  let ?s3 = "upd_log (\<lambda>l. l\<lparr>log_committing := False\<rparr>) t"
  have "end_op s2 = Some ?s3"
    using t(1) assms(3) by (simp add: end_op_def s0_def u(6))
  moreover have "log_inv ?s3" unfolding log_inv_flags by (rule t(2))
  moreover have "lh_n (log_hdr (LOG ?s3)) = 0" using t(4) by auto
  moreover have "writes s2 = writes s" by (simp add: u(5))
  moreover have vd: "view s = disk s"
  proof
    show "view s b = disk s b" for b
      using unreferenced_clean [of s b] assms(1) by (simp add: log_inv_def idle_def tx)
  qed
  have "view s0 = updated us (disk s)" "log_area (LOG s0) = log_area (LOG s)"
    by (simp_all add: s0_def u(3,6) vd)
  then have "\<forall>b. b \<notin> log_area (LOG s) \<longrightarrow> disk ?s3 b = updated us (disk s) b"
    using t(3) by simp
  ultimately show ?thesis
    using b u(1) by blast
qed

lemma log_update_full:
  fixes s :: "'a log_state_scheme"
  assumes "unat (lh_n (log_hdr (LOG s))) = unat (log_size (LOG s)) - 1" "log_geom (LOG s)"
  shows "log_update dev b f s = None"
proof -
  have "log_size (LOG s) - 1 \<le> lh_n (log_hdr (LOG s))"
    using assms by (simp add: word_le_nat_alt unat_minus_no_underflow log_geom_def)
  then have "log_write g t = None" if "LOG t = LOG s" for g and t :: "'a log_state_scheme"
    using that by (simp add: log_write_def Let_def)
  moreover have "LOG (set_buf_data g d t) = LOG t" for g d and t :: "'a log_state_scheme"
    by (simp add: set_buf_data_def upd_buf_def)
  ultimately have "log_write g (set_buf_data g d t) = None" if "bread dev b s = Some (g, t)" for g d t
    using bread_LOG [OF that] by simp
  then show ?thesis
    by (auto simp: log_update_def split: Option.bind_split)
qed

text \<open>C5: \<open>begin_op\<close> admits three concurrent operations, reserving ten blocks for each, but the log that
  \<open>mkfs\<close> lays out holds only 29: once 29 distinct blocks are in the transaction the thirtieth
  block write, which stays within the reservations, panics.\<close>

theorem log_reservation_too_small:
  assumes "log_inv s" "log_outstanding (LOG s) = 0" "\<not> log_committing (LOG s)" "lh_n (log_hdr (LOG s)) = 0"
    "log_size (LOG s) = 30" "distinct bs" "length bs = 3 * unat MAXOPBLOCKS" "set bs \<inter> log_area (LOG s) = {}"
  shows "\<exists>s1 s2 s3 t. begin_op s = Some s1 \<and> begin_op s1 = Some s2 \<and> begin_op s2 = Some s3 \<and>
    log_updates (map (\<lambda>b. (b, f)) (take 29 bs)) s3 = Some t \<and> log_update ROOTDEV (bs ! 29) f t = None"
proof -
  let ?s = "\<lambda>k. upd_log (\<lambda>l. l\<lparr>log_outstanding := k\<rparr>) s"
  have b: "begin_op s = Some (?s 1)" "begin_op (?s 1) = Some (?s 2)" "begin_op (?s 2) = Some (?s 3)"
    using assms(2-4) by (simp_all add: begin_op_def LOGSIZE_eq param_values)
  have len: "length bs = 30" using assms(7) by (simp add: param_values)
  have inv3: "log_inv (?s 3)" unfolding log_inv_flags by (rule assms(1))
  have tx: "txn (log_hdr (LOG s)) = []" using assms(4) by (simp add: txn_def)
  let ?us = "map (\<lambda>b. (b, f)) (take 28 bs)"
  have fst: "fst ` set ?us = set (take 28 bs)" by force
  have c28: "card (set (take 28 bs)) = 28" using len assms(6) by (simp add: distinct_card)
  have "log_outstanding (LOG (?s 3)) \<noteq> 0" "fst ` set ?us \<inter> log_area (LOG (?s 3)) = {}"
    "Suc (card (set (txn (log_hdr (LOG (?s 3)))) \<union> fst ` set ?us)) < unat (log_size (LOG (?s 3)))"
    using assms(5,8) unfolding fst by (auto simp: tx c28 dest: in_set_takeD)
  note law = log_updates_law [OF inv3 this]
  obtain u h where u: "log_updates ?us (?s 3) = Some u" "log_inv u" "LOG u = (LOG (?s 3))\<lparr>log_hdr := h\<rparr>"
    "set (txn h) = set (txn (log_hdr (LOG (?s 3)))) \<union> fst ` set ?us"
    by (rule law) (rule that, assumption+)
  have n28: "unat (lh_n (log_hdr (LOG u))) = 28"
    unfolding log_inv_txn_card [OF u(2)] by (simp add: u(3,4) tx fst c28 del: set_map)
  have new: "bs ! 28 \<notin> set (txn (log_hdr (LOG u)))"
    using assms(6) len by (simp add: u(3,4) tx fst del: set_map) (simp add: in_set_conv_nth nth_eq_iff_index_eq)
  have ok: "log_ok u" using u(2) by (simp add: log_inv_iff)
  have may: "may_write u (bs ! 28)"
  proof (rule may_write_idle [OF u(2)])
    have "bs ! 28 \<in> set bs" using len by simp
    with assms(8) show "bs ! 28 \<notin> log_area (LOG u)" by (auto simp: u(3))
    show "Suc (unat (lh_n (log_hdr (LOG u)))) < unat (log_size (LOG u))"
      unfolding n28 using assms(5) by (simp add: u(3))
  qed (simp add: u(3))
  obtain t h' where t: "log_update ROOTDEV (bs ! 28) f u = Some t" "LOG t = (LOG u)\<lparr>log_hdr := h'\<rparr>"
      "unat (lh_n h') = unat (lh_n (log_hdr (LOG u))) + of_bool (bs ! 28 \<notin> set (txn (log_hdr (LOG u))))"
    by (rule log_update_law [OF ok may, of f]) (rule that, assumption+)
  then have n29: "unat (lh_n h') = 29" using new n28 by simp
  have "log_geom (LOG t)" using u(2) by (simp add: t(2) log_inv_def)
  then have "log_update ROOTDEV (bs ! 29) f t = None"
    using assms(5) by (intro log_update_full) (simp_all add: t(2) n29 u(3))
  moreover have "take 29 bs = take 28 bs @ [bs ! 28]"
    using len take_Suc_conv_app_nth [of 28 bs] by simp
  then have "log_updates (map (\<lambda>b. (b, f)) (take 29 bs)) (?s 3) = Some t"
    using u(1) t(1) by (simp add: for_each_append)
  ultimately show ?thesis using b by blast
qed

subsection \<open>Witnesses\<close>

text \<open>The layout \<open>mkfs\<close> writes: thirty log blocks from block 2 on.\<close>

definition demo_sb :: super_block where
  "demo_sb = \<lparr>sb_magic = FSMAGIC, sb_size = 2000, sb_nblocks = 1954, sb_ninodes = 200, sb_nlog = 30,
     sb_logstart = 2, sb_inodestart = 32, sb_bmapstart = 36\<rparr>"

definition demo_log :: log_state where
  "demo_log = the (log_init ROOTDEV demo_sb (reboot demo_sb (\<lambda>_ _. 0)))"

lemma demo_log_inv: "log_inv demo_log"
  and demo_log_LOG: "\<exists>bs. LOG demo_log = (log_at demo_sb)\<lparr>log_hdr := \<lparr>lh_n = 0, lh_blocknos = bs\<rparr>\<rparr>"
proof -
  have geom: "log_geom (log_at demo_sb)"
    by (simp add: log_geom_def log_at_def demo_sb_def LOGSIZE_eq)
  moreover have "recovers_to (log_at demo_sb) (\<lambda>_ _. 0) (\<lambda>_ _. 0)"
    by (rule recovers_to_empty [OF geom]) (simp_all add: header_of_def le_u32_def)
  ultimately obtain s where s: "log_init ROOTDEV demo_sb (reboot demo_sb (\<lambda>_ _. 0)) = Some s" "log_inv s"
    "\<exists>bs. LOG s = (log_at demo_sb)\<lparr>log_hdr := \<lparr>lh_n = 0, lh_blocknos = bs\<rparr>\<rparr>"
    by (rule recovery_law)
  then have "demo_log = s" by (simp add: demo_log_def)
  with s show "log_inv demo_log"
    "\<exists>bs. LOG demo_log = (log_at demo_sb)\<lparr>log_hdr := \<lparr>lh_n = 0, lh_blocknos = bs\<rparr>\<rparr>" by simp_all
qed

lemma demo_log_fields:
  "log_outstanding (LOG demo_log) = 0" "\<not> log_committing (LOG demo_log)" "lh_n (log_hdr (LOG demo_log)) = 0"
  "log_size (LOG demo_log) = 30" "log_start (LOG demo_log) = 2"
  "log_area (LOG demo_log) = {b. 2 \<le> unat b \<and> unat b < 32}"
  using demo_log_LOG by (auto simp: log_at_def log_new_def demo_sb_def log_area_def)

text \<open>An operation that has set block 100 to all ones.\<close>

definition demo_txn :: log_state where
  "demo_txn = the (log_updates [(100, \<lambda>_ _. 255)] (the (begin_op demo_log)))"

lemma demo_txn_inv: "log_inv demo_txn" "log_outstanding (LOG demo_txn) = 1" "\<not> log_committing (LOG demo_txn)"
  "log_start (LOG demo_txn) = 2" "log_size (LOG demo_txn) = 30" "view demo_txn 100 = (\<lambda>_. 255)"
proof -
  let ?us = "[(100, \<lambda>_ _. 255)] :: (u32 \<times> (block \<Rightarrow> block)) list"
  let ?s = "upd_log (\<lambda>l. l\<lparr>log_outstanding := 1\<rparr>) demo_log"
  have b: "begin_op demo_log = Some ?s"
    using demo_log_fields by (simp add: begin_op_def LOGSIZE_eq param_values)
  have inv: "log_inv ?s" unfolding log_inv_flags by (rule demo_log_inv)
  have "log_outstanding (LOG ?s) \<noteq> 0" "fst ` set ?us \<inter> log_area (LOG ?s) = {}"
    "Suc (card (set (txn (log_hdr (LOG ?s))) \<union> fst ` set ?us)) < unat (log_size (LOG ?s))"
    using demo_log_fields by (simp_all add: txn_def)
  note law = log_updates_law [OF inv this]
  obtain s h where s: "log_updates ?us ?s = Some s" "log_inv s" "view s = updated ?us (view ?s)"
    "LOG s = (LOG ?s)\<lparr>log_hdr := h\<rparr>"
    by (rule law) (rule that, assumption+)
  have "demo_txn = s" by (simp only: demo_txn_def b option.sel s(1))
  then show "log_inv demo_txn" "log_outstanding (LOG demo_txn) = 1" "\<not> log_committing (LOG demo_txn)"
    "log_start (LOG demo_txn) = 2" "log_size (LOG demo_txn) = 30" "view demo_txn 100 = (\<lambda>_. 255)"
    using s demo_log_fields by (simp_all add: updated_def)
qed

theorem commit_crash_atomic_witness:
  "\<exists>s' W. end_op demo_txn = Some s' \<and> disk s' 100 = (\<lambda>_. 255) \<and>
    (\<forall>j. \<exists>V. (V = disk demo_txn \<or> V = view demo_txn) \<and>
       (\<exists>r. log_init ROOTDEV demo_sb (reboot demo_sb (apply_writes (take j W) (disk demo_txn))) = Some r \<and>
          disk r 100 = V 100))"
proof -
  have sb: "sb_logstart demo_sb = log_start (LOG demo_txn)" "sb_nlog demo_sb = log_size (LOG demo_txn)"
    by (simp_all add: demo_txn_inv demo_sb_def)
  have n: "100 \<notin> log_area (LOG demo_txn)" by (simp add: log_area_def demo_txn_inv)
  obtain s' W where t: "end_op demo_txn = Some s'" "\<forall>b. b \<notin> log_area (LOG demo_txn) \<longrightarrow> disk s' b = view demo_txn b"
    "\<forall>j. \<exists>V. (V = disk demo_txn \<or> V = view demo_txn) \<and>
       (\<forall>E. rebooted demo_sb (apply_writes (take j W) (disk demo_txn)) E \<longrightarrow>
          (\<exists>r. log_init ROOTDEV demo_sb (reboot demo_sb E) = Some r \<and> log_inv r \<and>
             (\<forall>b. b \<notin> log_area (LOG demo_txn) \<longrightarrow> disk r b = V b)))"
    using commit_crash_atomic [OF demo_txn_inv(1-3) sb] by (elim exE conjE) (rule that)
  have "\<exists>V. (V = disk demo_txn \<or> V = view demo_txn) \<and>
      (\<exists>r. log_init ROOTDEV demo_sb (reboot demo_sb (apply_writes (take j W) (disk demo_txn))) = Some r \<and>
         disk r 100 = V 100)" for j
  proof -
    obtain V where V: "V = disk demo_txn \<or> V = view demo_txn"
      "\<forall>E. rebooted demo_sb (apply_writes (take j W) (disk demo_txn)) E \<longrightarrow>
          (\<exists>r. log_init ROOTDEV demo_sb (reboot demo_sb E) = Some r \<and> log_inv r \<and>
             (\<forall>b. b \<notin> log_area (LOG demo_txn) \<longrightarrow> disk r b = V b))"
      using t(3) by blast
    then show ?thesis
      using V(2) [rule_format, OF rebooted.once] n by blast
  qed
  with t(1,2) n demo_txn_inv(6) show ?thesis by (intro exI [of _ s'] exI [of _ W]) simp
qed

theorem operation_applies_updates_witness:
  "\<exists>s1 s2 s3. begin_op demo_log = Some s1 \<and> log_updates [(100, \<lambda>_ _. 255), (7000, \<lambda>d k. d k + 1)] s1 = Some s2 \<and>
    end_op s2 = Some s3 \<and> disk s3 100 = (\<lambda>_. 255)"
proof -
  let ?us = "[(100, \<lambda>_ _. 255), (7000, \<lambda>d k. d k + 1)] :: (u32 \<times> (block \<Rightarrow> block)) list"
  have "card (fst ` set ?us) \<le> unat MAXOPBLOCKS" "fst ` set ?us \<inter> log_area (LOG demo_log) = {}"
    "100 \<notin> log_area (LOG demo_log)"
    by (simp_all add: param_values demo_log_fields)
  with operation_applies_updates [OF demo_log_inv demo_log_fields(1-4), of ?us]
  show ?thesis by (fastforce simp: updated_def)
qed

theorem log_reservation_too_small_witness:
  "\<exists>s1 s2 s3 t. begin_op demo_log = Some s1 \<and> begin_op s1 = Some s2 \<and> begin_op s2 = Some s3 \<and>
    log_updates (map (\<lambda>b. (b, \<lambda>_ _. 255)) (take 29 (map word_of_nat [100..<130]))) s3 = Some t \<and>
    log_update ROOTDEV (map word_of_nat [100..<130] ! 29) (\<lambda>_ _. 255) t = None"
proof -
  have "distinct (map word_of_nat [100..<130] :: u32 list)"
    by (simp add: upt_rec)
  moreover have "set (map word_of_nat [100..<130]) \<inter> log_area (LOG demo_log) = {}"
    by (simp add: upt_rec demo_log_fields)
  ultimately show ?thesis
    using log_reservation_too_small [OF demo_log_inv demo_log_fields(1-4),
        where bs = "map word_of_nat [100..<130]" and f = "\<lambda>_ _. 255"] by (simp add: param_values)
qed

end
