(* ===== verification/Page_Table.thy ===== *)
theory Page_Table
  imports Kalloc
begin

text \<open>
  Page tables and user memory: \<open>kernel/src/page_table.rs\<close>.

  A page table is an array of 512 entries at a page-aligned address; the state keeps the entries
  of every table by the address of the table, the bytes of the data pages by their physical
  address, and the free list of the kernel heap, from which both kinds of pages come.
  \<open>Box::try_new_zeroed\<close> is an allocation of the heap of \<open>Kalloc\<close> with the layout of a page, null
  being \<open>AllocError\<close>, followed by clearing the page.

  Every operation returns its \<open>Result\<close> together with the state, since an error leaves the changes
  made before it; \<open>None\<close> is a panic.  The \<open>for\<close> loops over \<open>(a..b).step_by(PAGESIZE)\<close> run over the
  list \<open>page_range a b\<close>.
\<close>

section \<open>Entries\<close>

definition PTE_VALID :: usize where "PTE_VALID = push_bit 0 1"
definition PTE_READ :: usize where "PTE_READ = push_bit 1 1"
definition PTE_WRITE :: usize where "PTE_WRITE = push_bit 2 1"
definition PTE_EXEC :: usize where "PTE_EXEC = push_bit 3 1"
definition PTE_USER :: usize where "PTE_USER = push_bit 4 1"
definition PTE_GLOB :: usize where "PTE_GLOB = push_bit 5 1"
definition PTE_ACCES :: usize where "PTE_ACCES = push_bit 6 1"
definition PTE_DIRTY :: usize where "PTE_DIRTY = push_bit 7 1"

type_synonym pte = usize

definition is_valid :: "pte \<Rightarrow> bool" where
  "is_valid d \<longleftrightarrow> d AND PTE_VALID > 0"

definition is_leaf :: "pte \<Rightarrow> bool" where
  "is_leaf d \<longleftrightarrow> d AND (PTE_READ OR PTE_WRITE OR PTE_EXEC) > 0"

definition is_user :: "pte \<Rightarrow> bool" where
  "is_user d \<longleftrightarrow> d AND PTE_USER > 0"

definition get_flag :: "pte \<Rightarrow> usize" where
  "get_flag d = d AND (PTE_VALID OR PTE_READ OR PTE_WRITE OR PTE_EXEC OR PTE_USER OR PTE_GLOB OR
     PTE_ACCES OR PTE_DIRTY)"

definition set_addr :: "usize \<Rightarrow> usize \<Rightarrow> pte" where
  "set_addr addr perm = addr OR (perm OR PTE_VALID)"

definition as_page_table :: "pte \<Rightarrow> usize" where
  "as_page_table d = push_bit 12 (drop_bit 10 d)"

definition as_phys_addr :: "pte \<Rightarrow> usize" where
  "as_phys_addr d = push_bit 12 (drop_bit 10 d)"

definition as_pte_addr :: "usize \<Rightarrow> usize" where
  "as_pte_addr pa = push_bit 10 (drop_bit 12 pa)"

definition get_index :: "usize \<Rightarrow> nat \<Rightarrow> nat" where
  "get_index va level = unat (ucast (drop_bit (12 + level * 9) va AND 0x1FF) :: u16)"

definition align_down :: "usize \<Rightarrow> usize \<Rightarrow> usize option" where
  "align_down addr align = (if is_power_of_two align then Some (addr AND NOT (align - 1)) else None)"

definition align_up :: "usize \<Rightarrow> usize \<Rightarrow> usize option" where
  "align_up addr align = (if is_power_of_two align then Some ((addr + align - 1) AND NOT (align - 1)) else None)"

section \<open>State\<close>

record vm =
  heap :: "list_node list"
  tables :: "usize \<Rightarrow> nat \<Rightarrow> pte"
  bytes :: "usize \<Rightarrow> u8"

definition page_layout :: layout where
  "page_layout = \<lparr>lsize = PAGESIZE, lalign = PAGESIZE\<rparr>"

definition in_page :: "usize \<Rightarrow> usize \<Rightarrow> bool" where
  "in_page p a \<longleftrightarrow> unat p \<le> unat a \<and> unat a < unat p + 4096"

text \<open>\<open>Page::alloc_into_raw\<close> and \<open>Page::free_from_raw\<close> for a page of data and for a page table.\<close>

definition alloc_data_page :: "'z vm_scheme \<Rightarrow> (usize option \<times> 'z vm_scheme) option" where
  "alloc_data_page s = do {
     (p, h) \<leftarrow> kalloc (heap s) page_layout;
     if p = 0 then Some (None, s\<lparr>heap := h\<rparr>)
     else Some (Some p, s\<lparr>heap := h, bytes := (\<lambda>a. if in_page p a then 0 else bytes s a)\<rparr>) }"

definition alloc_table :: "'z vm_scheme \<Rightarrow> (usize option \<times> 'z vm_scheme) option" where
  "alloc_table s = do {
     (p, h) \<leftarrow> kalloc (heap s) page_layout;
     if p = 0 then Some (None, s\<lparr>heap := h\<rparr>)
     else Some (Some p, s\<lparr>heap := h, tables := (tables s)(p := (\<lambda>_. 0))\<rparr>) }"

definition free_page :: "usize \<Rightarrow> 'z vm_scheme \<Rightarrow> 'z vm_scheme option" where
  "free_page p s = do { h \<leftarrow> kdealloc (heap s) p page_layout; Some (s\<lparr>heap := h\<rparr>) }"

definition set_pte :: "usize \<Rightarrow> nat \<Rightarrow> pte \<Rightarrow> 'z vm_scheme \<Rightarrow> 'z vm_scheme" where
  "set_pte t i d s = s\<lparr>tables := (tables s)(t := (tables s t)(i := d))\<rparr>"

definition page_range :: "usize \<Rightarrow> usize \<Rightarrow> usize list" where
  "page_range a b = map (\<lambda>k. a + of_nat k * PAGESIZE) [0..<(unat b - unat a + 4095) div 4096]"

section \<open>Walking\<close>

text \<open>A walk ends at an entry of a level 0 table, given by its table and index.  The loop over the
  levels 2 and 1 is the argument list of the recursion.\<close>

fun walk_levels :: "nat list \<Rightarrow> usize \<Rightarrow> usize \<Rightarrow> 'z vm_scheme \<Rightarrow> (usize \<times> nat) option" where
  "walk_levels [] t va s = Some (t, get_index va 0)"
| "walk_levels (level # ls) t va s =
     (let pte = tables s t (get_index va level) in
      if \<not> is_valid pte then None else walk_levels ls (as_page_table pte) va s)"

definition pt_walk :: "usize \<Rightarrow> usize \<Rightarrow> 'z vm_scheme \<Rightarrow> (usize \<times> nat) option" where
  "pt_walk root va s = walk_levels [2, 1] root va s"

fun walk_alloc_levels :: "nat list \<Rightarrow> usize \<Rightarrow> usize \<Rightarrow> 'z vm_scheme \<Rightarrow>
    ((usize \<times> nat) option \<times> 'z vm_scheme) option" where
  "walk_alloc_levels [] t va s = Some (Some (t, get_index va 0), s)"
| "walk_alloc_levels (level # ls) t va s =
     (let i = get_index va level in
      if \<not> is_valid (tables s t i)
      then do {
        (p, s) \<leftarrow> alloc_table s;
        case p of
          None \<Rightarrow> Some (None, s)
        | Some p \<Rightarrow>
            let s = set_pte t i (set_addr (as_pte_addr p) PTE_VALID) s
            in walk_alloc_levels ls (as_page_table (tables s t i)) va s }
      else walk_alloc_levels ls (as_page_table (tables s t i)) va s)"

definition walk_alloc :: "usize \<Rightarrow> usize \<Rightarrow> 'z vm_scheme \<Rightarrow> ((usize \<times> nat) option \<times> 'z vm_scheme) option" where
  "walk_alloc root va s = walk_alloc_levels [2, 1] root va s"

definition walk_addr :: "usize \<Rightarrow> usize \<Rightarrow> 'z vm_scheme \<Rightarrow> usize result" where
  "walk_addr root va s =
     (case pt_walk root va s of
        Some (t, i) \<Rightarrow>
          let pte = tables s t i in
          if \<not> is_valid pte then Err ''walk_addr: pte is not valid''
          else if \<not> is_user pte then Err ''walk_addr: pte is not user''
          else Ok (as_phys_addr pte)
      | None \<Rightarrow> Err ''walk_addr: va is not mapped'')"

section \<open>Mapping\<close>

fun map_loop :: "usize list \<Rightarrow> usize \<Rightarrow> usize \<Rightarrow> usize \<Rightarrow> 'z vm_scheme \<Rightarrow> (unit result \<times> 'z vm_scheme) option" where
  "map_loop [] pa perm root s = Some (Ok (), s)"
| "map_loop (va # vas) pa perm root s = do {
     (e, s) \<leftarrow> walk_alloc root va s;
     case e of
       Some (t, i) \<Rightarrow>
         if is_valid (tables s t i) then Some (Err ''map_pages: remap'', s)
         else map_loop vas (pa + PAGESIZE) perm root (set_pte t i (set_addr (as_pte_addr pa) perm) s)
     | None \<Rightarrow> Some (Err ''map_pages: not enough memory for new page table'', s) }"

definition map_pages :: "usize \<Rightarrow> usize \<Rightarrow> usize \<Rightarrow> usize \<Rightarrow> usize \<Rightarrow> 'z vm_scheme \<Rightarrow>
    (unit result \<times> 'z vm_scheme) option" where
  "map_pages root va pa sz perm s = do {
     va_start \<leftarrow> align_down va PAGESIZE;
     va_end \<leftarrow> align_up (va + sz) PAGESIZE;
     map_loop (page_range va_start va_end) pa perm root s }"

fun unmap_loop :: "usize list \<Rightarrow> bool \<Rightarrow> usize \<Rightarrow> 'z vm_scheme \<Rightarrow> (unit result \<times> 'z vm_scheme) option" where
  "unmap_loop [] freeing root s = Some (Ok (), s)"
| "unmap_loop (va # vas) freeing root s =
     (case pt_walk root va s of
        Some (t, i) \<Rightarrow>
          if \<not> is_valid (tables s t i) then Some (Err ''not mapped'', s)
          else if \<not> is_leaf (tables s t i) then Some (Err ''not a leaf'', s)
          else do {
            s \<leftarrow> (if freeing then free_page (as_phys_addr (tables s t i)) s else Some s);
            unmap_loop vas freeing root (set_pte t i 0 s) }
      | None \<Rightarrow> Some (Err ''unmap_pages: pte not found'', s))"

definition unmap_pages :: "usize \<Rightarrow> usize \<Rightarrow> usize \<Rightarrow> bool \<Rightarrow> 'z vm_scheme \<Rightarrow> (unit result \<times> 'z vm_scheme) option" where
  "unmap_pages root va_start n freeing s =
     (if va_start mod PAGESIZE \<noteq> 0 then None
      else unmap_loop (page_range va_start (va_start + n * PAGESIZE)) freeing root s)"

section \<open>User memory\<close>

definition uvm_dealloc :: "usize \<Rightarrow> usize \<Rightarrow> usize \<Rightarrow> 'z vm_scheme \<Rightarrow> (usize result \<times> 'z vm_scheme) option" where
  "uvm_dealloc root oldsz newsz s =
     (if oldsz \<le> newsz then Some (Ok oldsz, s)
      else do {
        oldsz \<leftarrow> align_up oldsz PAGESIZE;
        newsz \<leftarrow> align_up newsz PAGESIZE;
        if newsz < oldsz
        then do {
          (r, s) \<leftarrow> unmap_pages root newsz ((oldsz - newsz) div PAGESIZE) True s;
          case r of Err e \<Rightarrow> Some (Err e, s) | Ok _ \<Rightarrow> Some (Ok newsz, s) }
        else Some (Ok newsz, s) })"

fun uvm_alloc_loop :: "usize list \<Rightarrow> usize \<Rightarrow> usize \<Rightarrow> usize \<Rightarrow> 'z vm_scheme \<Rightarrow> (usize result \<times> 'z vm_scheme) option" where
  "uvm_alloc_loop [] oldsz newsz root s = Some (Ok newsz, s)"
| "uvm_alloc_loop (va # vas) oldsz newsz root s = do {
     (mem, s) \<leftarrow> alloc_data_page s;
     case mem of
       None \<Rightarrow> do {
         (r, s) \<leftarrow> uvm_dealloc root oldsz newsz s;
         case r of
           Err e \<Rightarrow> Some (Err e, s)
         | Ok _ \<Rightarrow> Some (Err ''uvm_alloc: insufficient memory'', s) }
     | Some mem \<Rightarrow> do {
         (r, s) \<leftarrow> map_pages root va mem PAGESIZE (PTE_READ OR PTE_WRITE OR PTE_EXEC OR PTE_USER) s;
         case r of
           Err msg \<Rightarrow> do {
             s \<leftarrow> free_page mem s;
             (r, s) \<leftarrow> uvm_dealloc root oldsz newsz s;
             case r of Err e \<Rightarrow> Some (Err e, s) | Ok _ \<Rightarrow> Some (Err msg, s) }
         | Ok _ \<Rightarrow> uvm_alloc_loop vas oldsz newsz root s } }"

definition uvm_alloc :: "usize \<Rightarrow> usize \<Rightarrow> usize \<Rightarrow> 'z vm_scheme \<Rightarrow> (usize result \<times> 'z vm_scheme) option" where
  "uvm_alloc root oldsz newsz s =
     (if newsz \<le> oldsz then Some (Ok oldsz, s)
      else do {
        oldsz \<leftarrow> align_up oldsz PAGESIZE;
        uvm_alloc_loop (page_range oldsz newsz) oldsz newsz root s })"

definition store_bytes :: "usize \<Rightarrow> u8 list \<Rightarrow> 'z vm_scheme \<Rightarrow> 'z vm_scheme" where
  "store_bytes pa bs s =
     s\<lparr>bytes := (\<lambda>a. if unat (a - pa) < length bs then bs ! unat (a - pa) else bytes s a)\<rparr>"

definition load_bytes :: "usize \<Rightarrow> nat \<Rightarrow> 'z vm_scheme \<Rightarrow> u8 list" where
  "load_bytes pa n s = map (\<lambda>k. bytes s (pa + of_nat k)) [0..<n]"

definition uvm_init :: "usize \<Rightarrow> u8 list \<Rightarrow> 'z vm_scheme \<Rightarrow> (unit result \<times> 'z vm_scheme) option" where
  "uvm_init root code s =
     (if unat PAGESIZE \<le> length code then Some (Err ''uvm_init: more than a page'', s)
      else do {
        (mem, s) \<leftarrow> alloc_data_page s;
        case mem of
          None \<Rightarrow> Some (Err ''uvm_init: insufficient memory'', s)
        | Some mem \<Rightarrow> do {
            (r, s) \<leftarrow> map_pages root 0 mem PAGESIZE (PTE_READ OR PTE_WRITE OR PTE_EXEC OR PTE_USER) s;
            case r of Err e \<Rightarrow> Some (Err e, s) | Ok _ \<Rightarrow> Some (Ok (), store_bytes mem code s) } })"

definition uvm_clear :: "usize \<Rightarrow> usize \<Rightarrow> 'z vm_scheme \<Rightarrow> 'z vm_scheme option" where
  "uvm_clear root va s = do {
     (t, i) \<leftarrow> pt_walk root va s;
     Some (set_pte t i (tables s t i AND NOT PTE_USER) s) }"

fun uvm_copy_loop :: "usize list \<Rightarrow> usize \<Rightarrow> usize \<Rightarrow> 'z vm_scheme \<Rightarrow> ((unit + unit) \<times> 'z vm_scheme) option" where
  "uvm_copy_loop [] root child s = Some (Ok (), s)"
| "uvm_copy_loop (i # is) root child s = do {
     (t, k) \<leftarrow> pt_walk root i s;
     let pte = tables s t k;
     if \<not> is_valid pte then None
     else do {
       (mem, s) \<leftarrow> alloc_data_page s;
       case mem of
         None \<Rightarrow> Some (Err (), s)
       | Some mem \<Rightarrow> do {
           let s = store_bytes mem (load_bytes (as_phys_addr pte) (unat PAGESIZE) s) s;
           (r, s) \<leftarrow> map_pages child i mem PAGESIZE (get_flag pte) s;
           case r of
             Err _ \<Rightarrow> do { s \<leftarrow> free_page mem s; Some (Err (), s) }
           | Ok _ \<Rightarrow> uvm_copy_loop is root child s } } }"

definition uvm_copy :: "usize \<Rightarrow> usize \<Rightarrow> usize \<Rightarrow> 'z vm_scheme \<Rightarrow> ((unit + unit) \<times> 'z vm_scheme) option" where
  "uvm_copy root child sz s = uvm_copy_loop (page_range 0 sz) root child s"

text \<open>Dropping a \<open>Box<PageTable>\<close>: every entry is freed, recursively, then the page of the table.
  The fuel is the number of levels below and including the table.\<close>

definition free_pte :: "(usize \<Rightarrow> 's \<Rightarrow> 's option) \<Rightarrow> pte \<Rightarrow> 's \<Rightarrow> 's option" where
  "free_pte free_from_raw d s =
     (if is_valid d then if is_leaf d then None else free_from_raw (as_page_table d) s else Some s)"

primrec free_table :: "nat \<Rightarrow> usize \<Rightarrow> 'z vm_scheme \<Rightarrow> 'z vm_scheme option" where
  "free_table 0 t s = None"
| "free_table (Suc n) t s = do {
     s \<leftarrow> for_each [0..<512] (\<lambda>i s. free_pte (free_table n) (tables s t i) s) s;
     free_page t s }"

definition alloc_user_page_table :: "usize \<Rightarrow> usize \<Rightarrow> 'z vm_scheme \<Rightarrow> (usize option \<times> 'z vm_scheme) option" where
  "alloc_user_page_table trampoline trapframe s = do {
     (pgt, s) \<leftarrow> alloc_table s;
     case pgt of
       None \<Rightarrow> Some (None, s)
     | Some pgt \<Rightarrow> do {
         (r, s) \<leftarrow> map_pages pgt TRAMPOLINE trampoline PAGESIZE (PTE_READ OR PTE_EXEC) s;
         case r of
           Err _ \<Rightarrow> do { s \<leftarrow> free_table 3 pgt s; Some (None, s) }
         | Ok _ \<Rightarrow> do {
             (r, s) \<leftarrow> map_pages pgt TRAPFRAME trapframe PAGESIZE (PTE_READ OR PTE_WRITE) s;
             case r of
               Err _ \<Rightarrow> do { s \<leftarrow> free_table 3 pgt s; Some (None, s) }
             | Ok _ \<Rightarrow> Some (Some pgt, s) } } }"

definition expect :: "('e + 'a) \<times> 's \<Rightarrow> 's option" where
  "expect rs = (case fst rs of Err _ \<Rightarrow> None | Ok _ \<Rightarrow> Some (snd rs))"

definition unmap_user_page_table :: "usize \<Rightarrow> usize \<Rightarrow> 'z vm_scheme \<Rightarrow> 'z vm_scheme option" where
  "unmap_user_page_table root sz s = do {
     s \<leftarrow> unmap_pages root TRAMPOLINE 1 False s \<bind> expect;
     s \<leftarrow> unmap_pages root TRAPFRAME 1 False s \<bind> expect;
     if sz > 0
     then do {
       a \<leftarrow> align_up sz PAGESIZE;
       unmap_pages root 0 (a div PAGESIZE) True s \<bind> expect }
     else Some s }"

definition as_satp :: "usize \<Rightarrow> usize" where
  "as_satp root = push_bit 63 1 OR drop_bit 12 root"

section \<open>Copying between kernel and user\<close>

text \<open>\<open>copy_in\<close> returns the bytes it has stored at \<open>dst\<close>, also those before an error; \<open>copy_out\<close>
  takes the bytes at \<open>src\<close>.\<close>

definition page_base :: "usize \<Rightarrow> usize" where
  "page_base va = va AND NOT (PAGESIZE - 1)"

lemma power_of_two_page [simp]: "is_power_of_two 0x1000"
  by (auto simp: is_power_of_two_iff intro: exI [of _ 12])

lemma align_down_page [simp]: "align_down va PAGESIZE = Some (page_base va)"
  by (simp add: align_down_def page_base_def param_values)

lemma unat_page_base: "unat (page_base va) = unat va div 4096 * 4096"
  using unat_mask_align_down [of "0x1000" va]
  by (simp add: page_base_def mask_align_down_def param_values)

lemma unat_page_offset: "unat (va - page_base va) = unat va mod 4096"
  by (subst unat_minus_no_underflow) (simp_all add: unat_page_base minus_div_mult_eq_mod)

lemma copy_step:
  assumes "0 < (count :: usize)"
  shows "0 < unat (min (PAGESIZE - (va - page_base va)) count)"
    and "unat (count - min (PAGESIZE - (va - page_base va)) count) =
      unat count - unat (min (PAGESIZE - (va - page_base va)) count)"
    and "unat (min (PAGESIZE - (va - page_base va)) count) = min (4096 - unat va mod 4096) (unat count)"
proof -
  have "unat (PAGESIZE - (va - page_base va)) = 4096 - unat va mod 4096"
    by (subst unat_minus_no_underflow) (simp_all add: unat_page_offset param_values)
  then show eq: "unat (min (PAGESIZE - (va - page_base va)) count) = min (4096 - unat va mod 4096) (unat count)"
    by (simp add: min_def word_le_nat_alt)
  show "0 < unat (min (PAGESIZE - (va - page_base va)) count)"
    using assms by (simp add: eq word_less_nat_alt)
  show "unat (count - min (PAGESIZE - (va - page_base va)) count) =
      unat count - unat (min (PAGESIZE - (va - page_base va)) count)"
    by (rule unat_minus_no_underflow) (simp add: eq)
qed

function copy_in :: "usize \<Rightarrow> usize \<Rightarrow> usize \<Rightarrow> 'z vm_scheme \<Rightarrow> unit result \<times> u8 list" where
  "copy_in root srcva count s =
     (if count > 0
      then let va_base = page_base srcva; distance = srcva - va_base in
        case walk_addr root va_base s of
          Err e \<Rightarrow> (Err e, [])
        | Ok pa \<Rightarrow>
            let n = min (PAGESIZE - distance) count;
                (r, rest) = copy_in root (va_base + PAGESIZE) (count - n) s
            in (r, load_bytes (pa + distance) (unat n) s @ rest)
      else (Ok (), []))"
  by auto
termination
  by (relation "measure (\<lambda>(root, srcva, count, s). unat count)") (auto simp: copy_step word_less_nat_alt)

function copy_out :: "usize \<Rightarrow> usize \<Rightarrow> u8 list \<Rightarrow> usize \<Rightarrow> 'z vm_scheme \<Rightarrow> unit result \<times> 'z vm_scheme" where
  "copy_out root dstva src count s =
     (if count > 0
      then let va_base = page_base dstva; distance = dstva - va_base in
        case walk_addr root va_base s of
          Err e \<Rightarrow> (Err e, s)
        | Ok pa \<Rightarrow>
            let n = min (PAGESIZE - distance) count
            in copy_out root (va_base + PAGESIZE) (drop (unat n) src) (count - n)
                 (store_bytes (pa + distance) (take (unat n) src) s)
      else (Ok (), s))"
  by auto
termination
  by (relation "measure (\<lambda>(root, dstva, src, count, s). unat count)") (auto simp: copy_step word_less_nat_alt)

declare copy_in.simps [simp del] copy_out.simps [simp del]

text \<open>\<open>copy_in_str\<close> writes into the slice \<open>dst\<close> with a checked index.  The inner loop ends with
  the position of the terminator, with the next position, or with a panic.\<close>

datatype str_chunk = Terminated nat "u8 list" | Unfinished nat "u8 list" | Out_of_bounds

fun copy_in_str_chunk :: "nat \<Rightarrow> usize \<Rightarrow> nat \<Rightarrow> u8 list \<Rightarrow> 'z vm_scheme \<Rightarrow> str_chunk" where
  "copy_in_str_chunk 0 srcpa i dst s = Unfinished i dst"
| "copy_in_str_chunk (Suc count) srcpa i dst s =
     (if length dst \<le> i then Out_of_bounds
      else let dst = dst[i := bytes s srcpa] in
        if dst ! i = 0 then Terminated i dst
        else copy_in_str_chunk count (srcpa + 1) (i + 1) dst s)"

text \<open>The outer loop need not end: with a slice of one byte it never advances \<open>i\<close>.  \<open>None\<close> is a
  run without end and \<open>Some None\<close> a panic.\<close>

partial_function (option) copy_in_str_loop ::
    "usize \<Rightarrow> nat \<Rightarrow> u8 list \<Rightarrow> usize \<Rightarrow> 'z vm_scheme \<Rightarrow> (nat result \<times> u8 list) option option" where
  "copy_in_str_loop root i dst srcva s =
     (if i < length dst
      then let va_base = page_base srcva; distance = srcva - va_base in
        case walk_addr root va_base s of
          Err e \<Rightarrow> Some (Some (Err e, dst))
        | Ok pa \<Rightarrow>
            (case copy_in_str_chunk (min (4096 - unat distance) (length dst - 1)) (pa + distance) i dst s of
               Terminated i dst \<Rightarrow> Some (Some (Ok i, dst))
             | Out_of_bounds \<Rightarrow> Some None
             | Unfinished i dst \<Rightarrow> copy_in_str_loop root i dst (va_base + PAGESIZE) s)
      else Some (Some (Err ''copy_in_str: dst not enough space'', dst)))"

declare copy_in_str_loop.simps [code]

definition copy_in_str :: "usize \<Rightarrow> u8 list \<Rightarrow> usize \<Rightarrow> 'z vm_scheme \<Rightarrow> (nat result \<times> u8 list) option option" where
  "copy_in_str root dst srcva s = copy_in_str_loop root 0 dst srcva s"

section \<open>The encoding of entries\<close>

lemmas pte_flags = PTE_VALID_def PTE_READ_def PTE_WRITE_def PTE_EXEC_def PTE_USER_def PTE_GLOB_def
  PTE_ACCES_def PTE_DIRTY_def

lemma and_gt_0_iff: "0 < (a AND b :: usize) \<longleftrightarrow> (\<exists>n < 64. bit a n \<and> bit b n)"
  by (auto simp: word_neq_0_conv [symmetric] bit_eq_iff bit_simps)

lemma flag_bit: "bit (push_bit k 1 :: usize) n \<longleftrightarrow> k = n \<and> n < 64"
  by (auto simp: bit_simps)

lemma bit_flags [simp]:
  "bit PTE_VALID n \<longleftrightarrow> n = 0" "bit PTE_READ n \<longleftrightarrow> n = 1" "bit PTE_WRITE n \<longleftrightarrow> n = 2"
  "bit PTE_EXEC n \<longleftrightarrow> n = 3" "bit PTE_USER n \<longleftrightarrow> n = 4" "bit PTE_GLOB n \<longleftrightarrow> n = 5"
  "bit PTE_ACCES n \<longleftrightarrow> n = 6" "bit PTE_DIRTY n \<longleftrightarrow> n = 7"
  unfolding pte_flags flag_bit by auto

lemma is_valid_bit: "is_valid d \<longleftrightarrow> bit d 0"
  by (auto simp: is_valid_def and_gt_0_iff)

lemma is_user_bit: "is_user d \<longleftrightarrow> bit d 4"
  by (auto simp: is_user_def and_gt_0_iff)

lemma is_leaf_bit: "is_leaf d \<longleftrightarrow> bit d 1 \<or> bit d 2 \<or> bit d 3"
  by (auto simp: is_leaf_def and_gt_0_iff bit_or_iff conj_disj_distribL ex_disj_distrib)

lemma bit_get_flag: "bit (get_flag d) n \<longleftrightarrow> bit d n \<and> n < 8"
  by (auto simp: get_flag_def bit_or_iff bit_and_iff)

lemma not_valid_0 [simp]: "\<not> is_valid 0"
  by (simp add: is_valid_bit)

lemma bit_as_pte_addr: "bit (as_pte_addr pa) n \<longleftrightarrow> 10 \<le> n \<and> n < 64 \<and> bit pa (n + 2)"
  by (auto simp: as_pte_addr_def bit_simps)

lemma bit_set_addr:
  "bit (set_addr (as_pte_addr pa) perm) n \<longleftrightarrow> 10 \<le> n \<and> n < 64 \<and> bit pa (n + 2) \<or> bit perm n \<or> n = 0"
  by (auto simp: set_addr_def bit_as_pte_addr bit_or_iff)

definition flags_only :: "usize \<Rightarrow> bool" where
  "flags_only perm \<longleftrightarrow> perm = take_bit 8 perm"

lemma flags_only_bit: "flags_only perm \<Longrightarrow> bit perm n \<Longrightarrow> n < 8"
  by (metis flags_only_def bit_take_bit_iff)

lemma flags_only_consts [simp]: "flags_only PTE_VALID" "flags_only PTE_READ" "flags_only PTE_WRITE"
  "flags_only PTE_EXEC" "flags_only PTE_USER"
  by (simp_all add: flags_only_def pte_flags)

lemma flags_only_or [simp]: "flags_only a \<Longrightarrow> flags_only b \<Longrightarrow> flags_only (a OR b)"
  by (simp add: flags_only_def)

definition page_aligned :: "usize \<Rightarrow> bool" where
  "page_aligned a \<longleftrightarrow> 4096 dvd unat a"

lemma page_aligned_bit: "page_aligned a \<Longrightarrow> bit a n \<Longrightarrow> 12 \<le> n"
proof (rule ccontr)
  assume a: "page_aligned a" "bit a n" "\<not> 12 \<le> n"
  then have "take_bit 12 (unat a) = 0"
    by (simp add: page_aligned_def take_bit_eq_mod)
  moreover have "bit (unat a) n"
    using a(2) by (simp add: bit_unsigned_iff)
  ultimately show False
    using a(3) by (metis bit_0_eq bit_take_bit_iff bot_apply bot_bool_def not_le)
qed

lemma as_phys_addr_set_addr:
  assumes "page_aligned pa" "flags_only perm"
  shows "as_phys_addr (set_addr (as_pte_addr pa) perm) = pa"
proof (rule bit_eqI)
  fix n :: nat
  have "12 \<le> n \<Longrightarrow> n - 12 + 10 = n - 2" by simp
  then show "bit (as_phys_addr (set_addr (as_pte_addr pa) perm)) n \<longleftrightarrow> bit pa n"
    using page_aligned_bit [OF assms(1), of n] flags_only_bit [OF assms(2), of "n - 2"]
      bit_imp_le_length [of pa n]
    by (auto simp: as_phys_addr_def bit_push_bit_iff bit_drop_bit_eq bit_set_addr add.commute)
qed

lemma set_addr_flags [simp]:
  "is_valid (set_addr (as_pte_addr pa) perm)"
  "is_leaf (set_addr (as_pte_addr pa) perm) \<longleftrightarrow> is_leaf perm"
  "is_user (set_addr (as_pte_addr pa) perm) \<longleftrightarrow> is_user perm"
  by (simp_all add: is_valid_bit is_leaf_bit is_user_bit bit_set_addr)

lemma get_flag_set_addr:
  assumes "flags_only perm"
  shows "get_flag (set_addr (as_pte_addr pa) perm) = perm OR PTE_VALID"
  using flags_only_bit [OF assms] by (intro bit_eqI) (auto simp: bit_get_flag bit_set_addr bit_or_iff)

lemma as_page_table_set_addr:
  "page_aligned p \<Longrightarrow> as_page_table (set_addr (as_pte_addr p) PTE_VALID) = p"
  using as_phys_addr_set_addr [of p PTE_VALID] by (simp add: as_page_table_def as_phys_addr_def)

lemma flags_only_get_flag [simp]: "flags_only (get_flag d)"
  unfolding flags_only_def by (intro bit_eqI) (auto simp: bit_get_flag bit_take_bit_iff)

end
