(* ===== verification/Page_Map.thy ===== *)
theory Page_Map
  imports Page_Table
begin

text \<open>
  The laws of the page tables of \<open>Page_Table\<close>.  A set \<open>R\<close> of root tables is kept as a forest:
  \<open>tab\<close> follows a path of indices from a root, \<open>pt_inv\<close> says that no table is reached by two
  paths and that every table is a page held by its owner, outside the free list.  The meaning of
  the forest is \<open>pte_at\<close>, the entry of every virtual page.
\<close>

section \<open>The forest of tables\<close>

fun tab :: "'z vm_scheme \<Rightarrow> usize \<Rightarrow> nat list \<Rightarrow> usize option" where
  "tab s t [] = Some t"
| "tab s t (i # p) = (if is_valid (tables s t i) then tab s (as_page_table (tables s t i)) p else None)"

definition paths :: "nat list set" where
  "paths = {p. length p \<le> 2 \<and> set p \<subseteq> {..<512}}"

datatype vpn = Vpn nat nat nat

definition vpages :: "vpn set" where
  "vpages = {Vpn a b c | a b c. a < 512 \<and> b < 512 \<and> c < 512}"

definition page_no :: "usize \<Rightarrow> vpn" where
  "page_no va = Vpn (get_index va 2) (get_index va 1) (get_index va 0)"

definition pte_at :: "usize \<Rightarrow> vpn \<Rightarrow> 'z vm_scheme \<Rightarrow> pte" where
  "pte_at r v s = (case v of Vpn a b c \<Rightarrow> case tab s r [a, b] of None \<Rightarrow> 0 | Some t \<Rightarrow> tables s t c)"

definition page_block :: "usize \<Rightarrow> nat set" where
  "page_block p = {unat p ..< unat p + 4096}"

definition held_page :: "usize \<Rightarrow> 'z vm_scheme \<Rightarrow> bool" where
  "held_page p s \<longleftrightarrow> block_fits p page_layout \<and> page_block p \<inter> free_bytes (heap s) = {}"

definition pt_inv :: "usize set \<Rightarrow> 'z vm_scheme \<Rightarrow> bool" where
  "pt_inv R s \<longleftrightarrow> wf_free (heap s) \<and>
     (\<forall>r \<in> R. \<forall>q \<in> paths. \<forall>t. tab s r q = Some t \<longrightarrow> held_page t s) \<and>
     (\<forall>r \<in> R. \<forall>q \<in> paths. \<forall>r' \<in> R. \<forall>q' \<in> paths. \<forall>t.
        tab s r q = Some t \<longrightarrow> tab s r' q' = Some t \<longrightarrow> r = r' \<and> q = q')"

definition tabs :: "usize set \<Rightarrow> 'z vm_scheme \<Rightarrow> usize set" where
  "tabs R s = {t. \<exists>r \<in> R. \<exists>q \<in> paths. tab s r q = Some t}"

lemma tab_snoc:
  "tab s r (q @ [j]) = (case tab s r q of None \<Rightarrow> None
     | Some t \<Rightarrow> if is_valid (tables s t j) then Some (as_page_table (tables s t j)) else None)"
  by (induction q arbitrary: r) auto

lemma paths_snoc [simp]: "q @ [j] \<in> paths \<longleftrightarrow> length q \<le> 1 \<and> j < 512 \<and> q \<in> paths"
  by (auto simp: paths_def)

lemma nil_path [simp]: "[] \<in> paths"
  by (simp add: paths_def)

lemma get_index_eq: "get_index va level = unat va div 2 ^ (12 + level * 9) mod 512"
proof -
  let ?k = "12 + level * 9"
  have m: "(0x1FF :: usize) = mask 9"
    by (simp add: mask_eq_exp_minus_1)
  have "unat (drop_bit ?k va AND 0x1FF) = unat (take_bit 9 (drop_bit ?k va))"
    by (simp only: m take_bit_eq_mask)
  also have "\<dots> = take_bit 9 (drop_bit ?k (take_bit 64 (unat va)))"
    by (simp only: unsigned_take_bit_eq unsigned_drop_bit_eq) simp
  also have "take_bit 64 (unat va) = unat va"
    by (simp add: take_bit_nat_eq_self)
  finally have "unat (drop_bit ?k va AND 0x1FF) = unat va div 2 ^ ?k mod 512"
    by (simp only: take_bit_eq_mod drop_bit_eq_div) simp
  then show ?thesis
    by (simp add: get_index_def unsigned_ucast_eq take_bit_nat_eq_self)
qed

lemma get_index_less [simp]: "get_index va level < 512"
  by (simp add: get_index_eq)

lemma index_path [simp]: "[get_index va 2, get_index va 1] \<in> paths" "[get_index va 2] \<in> paths"
  by (simp_all add: paths_def)

lemma page_no_vpages [simp]: "page_no va \<in> vpages"
  by (simp add: page_no_def vpages_def)

lemma pt_inv_uniq:
  "pt_inv R s \<Longrightarrow> r \<in> R \<Longrightarrow> q \<in> paths \<Longrightarrow> tab s r q = Some t \<Longrightarrow>
     r' \<in> R \<Longrightarrow> q' \<in> paths \<Longrightarrow> tab s r' q' = Some t \<Longrightarrow> r = r' \<and> q = q'"
  unfolding pt_inv_def by blast

lemma pt_walk_tab:
  "pt_walk r va s = map_option (\<lambda>t. (t, get_index va 0)) (tab s r [get_index va 2, get_index va 1])"
  by (simp add: pt_walk_def Let_def)

declare tab.simps(2) [simp del]

lemma pt_walk_pte:
  "pt_walk r va s = Some (t, i) \<Longrightarrow> tables s t i = pte_at r (page_no va) s"
  "pt_walk r va s = None \<Longrightarrow> pte_at r (page_no va) s = 0"
  by (auto simp: pt_walk_tab pte_at_def page_no_def)

lemma block_size_page [simp]: "block_size page_layout = 4096"
  by (simp add: block_size_def size_align_def page_layout_def param_values)

lemma valid_page_layout [simp]: "valid_layout page_layout"
  by (simp add: valid_layout_def page_layout_def param_values)

lemma page_block_eq: "block block_size (p, page_layout) = page_block p"
  by (simp add: block_def page_block_def)

lemma fits_page: "block_fits p page_layout \<Longrightarrow> page_aligned p \<and> p \<noteq> 0 \<and> unat p + 4096 \<le> 2 ^ 63"
  by (auto simp: block_fits_def page_layout_def param_values page_aligned_def)
    (simp add: block_size_page [unfolded page_layout_def param_values])

lemma pages_disjoint:
  assumes "page_aligned p" "page_aligned q" "p \<noteq> q"
  shows "page_block p \<inter> page_block q = {}"
proof -
  from assms obtain a b where ab: "unat p = 4096 * a" "unat q = 4096 * b"
    by (auto simp: page_aligned_def dvd_def)
  moreover from this assms(3) have "a \<noteq> b"
    by (metis unsigned_word_eqI)
  ultimately show ?thesis
    by (auto simp: page_block_def)
qed

section \<open>Changing the forest\<close>

lemma set_pte_simps [simp]:
  "heap (set_pte t i d s) = heap s" "bytes (set_pte t i d s) = bytes s"
  "tables (set_pte t i d s) x j = (if x = t \<and> j = i then d else tables s x j)"
  by (simp_all add: set_pte_def)

lemma held_page_set_pte [simp]: "held_page p (set_pte t i d s) = held_page p s"
  by (simp add: held_page_def)

text \<open>Writing an entry of a level 0 table changes one virtual page.\<close>

lemma tab_set_leaf:
  assumes "pt_inv R s" "r \<in> R" "[a, b] \<in> paths" "tab s r [a, b] = Some t" "r' \<in> R" "q \<in> paths"
  shows "tab (set_pte t i d s) r' q = tab s r' q"
  using assms(6)
proof (induction q rule: rev_induct)
  case (snoc j q)
  then have "length q \<le> 1" "q \<in> paths" by auto
  moreover from this have "tab s r' q \<noteq> Some t"
    using pt_inv_uniq [OF assms(1-4,5)] by fastforce
  ultimately show ?case
    using snoc.IH by (auto simp: tab_snoc split: option.splits)
qed simp

lemma pt_inv_set_leaf:
  assumes "pt_inv R s" "r \<in> R" "[a, b] \<in> paths" "tab s r [a, b] = Some t"
  shows "pt_inv R (set_pte t i d s)"
  using assms(1) tab_set_leaf [OF assms] unfolding pt_inv_def by (simp add: held_page_def)

lemma tabs_set_leaf:
  assumes "pt_inv R s" "r \<in> R" "[a, b] \<in> paths" "tab s r [a, b] = Some t"
  shows "tabs R (set_pte t i d s) = tabs R s"
  using tab_set_leaf [OF assms] unfolding tabs_def by simp

lemma vpages_path: "Vpn a b c \<in> vpages \<Longrightarrow> [a, b] \<in> paths"
  by (simp add: vpages_def paths_def)

lemma pte_at_set_leaf:
  assumes "pt_inv R s" "r \<in> R" "[a, b] \<in> paths" "tab s r [a, b] = Some t" "r' \<in> R" "v \<in> vpages"
  shows "pte_at r' v (set_pte t i d s) = (if r' = r \<and> v = Vpn a b i then d else pte_at r' v s)"
proof -
  obtain a' b' c' where v: "v = Vpn a' b' c'" by (cases v)
  then have p: "[a', b'] \<in> paths" using assms(6) vpages_path by simp
  have "tab s r' [a', b'] = Some t \<longleftrightarrow> r' = r \<and> a' = a \<and> b' = b"
    using pt_inv_uniq [OF assms(1-4,5) p] assms(4) by blast
  with tab_set_leaf [OF assms(1-5) p] show ?thesis
    using assms(4) by (auto simp: pte_at_def v split: option.splits)
qed

text \<open>Linking a fresh table adds one path and changes no virtual page.\<close>

definition add_table :: "usize \<Rightarrow> nat \<Rightarrow> usize \<Rightarrow> 'z vm_scheme \<Rightarrow> 'z vm_scheme" where
  "add_table t i n s =
     set_pte t i (set_addr (as_pte_addr n) PTE_VALID) (s\<lparr>tables := (tables s)(n := (\<lambda>_. 0))\<rparr>)"

lemma add_table_simps [simp]:
  "heap (add_table t i n s) = heap s" "bytes (add_table t i n s) = bytes s"
  "tables (add_table t i n s) x j =
     (if x = t \<and> j = i then set_addr (as_pte_addr n) PTE_VALID else if x = n then 0 else tables s x j)"
  by (simp_all add: add_table_def)

lemma tab_add_table:
  assumes "pt_inv R s" "r \<in> R" "p @ [i] \<in> paths" "tab s r p = Some t" "\<not> is_valid (tables s t i)"
    and n: "n \<notin> tabs R s" "page_aligned n" and "r' \<in> R" "q \<in> paths"
  shows "tab (add_table t i n s) r' q = (if r' = r \<and> q = p @ [i] then Some n else tab s r' q)"
  using assms(9)
proof (induction q rule: rev_induct)
  case (snoc j q)
  have t: "t \<noteq> n"
    using n(1) assms(2-4) by (auto simp: tabs_def)
  from snoc.prems have q: "q \<in> paths" by simp
  have p: "p \<in> paths" using assms(3) by simp
  have none: "tab s r (p @ [i]) = None"
    using assms(4,5) by (simp add: tab_snoc)
  show ?case
  proof (cases "r' = r \<and> q = p @ [i]")
    case True
    then have "tab (add_table t i n s) r' q = Some n" "tab s r' q = None"
      using snoc.IH [OF q] none by simp_all
    then show ?thesis
      using True t unfolding tab_snoc by simp
  next
    case False
    with snoc.IH [OF q] have IH: "tab (add_table t i n s) r' q = tab s r' q" by (simp only: if_False)
    show ?thesis
    proof (cases "tab s r' q")
      case None
      with IH assms(4) show ?thesis by (auto simp: tab_snoc)
    next
      case (Some x)
      have x: "x \<noteq> n"
        using n(1) Some assms(8) q unfolding tabs_def by blast
      have "x = t \<Longrightarrow> r' = r \<and> q = p"
        using pt_inv_uniq [OF assms(1,8) q Some assms(2) p] assms(4) by blast
      moreover have "r' = r \<Longrightarrow> q = p \<Longrightarrow> x = t"
        using Some assms(4) by simp
      ultimately show ?thesis
        using IH Some x t n(2) assms(5) by (auto simp: tab_snoc as_page_table_set_addr)
    qed
  qed
qed simp

lemma tabs_add_table:
  assumes "pt_inv R s" "r \<in> R" "p @ [i] \<in> paths" "tab s r p = Some t" "\<not> is_valid (tables s t i)"
    and "n \<notin> tabs R s" "page_aligned n"
  shows "tabs R (add_table t i n s) = insert n (tabs R s)"
proof -
  note new = tab_add_table [OF assms]
  have none: "tab s r (p @ [i]) = None"
    using assms(4,5) by (simp add: tab_snoc)
  have "tab (add_table t i n s) r (p @ [i]) = Some n"
    using new [OF assms(2,3)] by simp
  then have "n \<in> tabs R (add_table t i n s)"
    unfolding tabs_def using assms(2,3) by blast
  moreover have "tab (add_table t i n s) r' q = Some x" if "r' \<in> R" "q \<in> paths" "tab s r' q = Some x" for r' q x
    using new [OF that(1,2)] none that(3) by auto
  then have "tabs R s \<subseteq> tabs R (add_table t i n s)"
    unfolding tabs_def by (intro subsetI) (simp only: mem_Collect_eq, blast)
  moreover have "tabs R (add_table t i n s) \<subseteq> insert n (tabs R s)"
  proof
    fix x
    assume "x \<in> tabs R (add_table t i n s)"
    then obtain r' q where "r' \<in> R" "q \<in> paths" "tab (add_table t i n s) r' q = Some x"
      unfolding tabs_def by blast
    with new [of r' q] show "x \<in> insert n (tabs R s)"
      unfolding tabs_def by (cases "r' = r \<and> q = p @ [i]") auto
  qed
  ultimately show ?thesis by auto
qed

lemma pte_at_add_table:
  assumes "pt_inv R s" "r \<in> R" "p @ [i] \<in> paths" "tab s r p = Some t" "\<not> is_valid (tables s t i)"
    and "n \<notin> tabs R s" "page_aligned n" "r' \<in> R" "v \<in> vpages"
  shows "pte_at r' v (add_table t i n s) = pte_at r' v s"
proof -
  obtain a b c where v: "v = Vpn a b c" by (cases v)
  then have ab: "[a, b] \<in> paths" using assms(9) vpages_path by simp
  have p: "length p \<le> 1" "p \<in> paths" using assms(3) by auto
  have none: "tab s r (p @ [i]) = None"
    using assms(4,5) by (simp add: tab_snoc)
  have t: "tab s r' [a, b] \<noteq> Some t"
    using pt_inv_uniq [OF assms(1,8) ab _ assms(2) p(2) assms(4)] p(1) by fastforce
  have n: "tab s r' [a, b] \<noteq> Some n"
    using assms(6,8) ab unfolding tabs_def by blast
  have "t \<noteq> n"
    using assms(2,4,6) p(2) unfolding tabs_def by blast
  with tab_add_table [OF assms(1-8) ab] none t n show ?thesis
    by (auto simp: pte_at_def v split: option.splits)
qed

definition grown :: "usize set \<Rightarrow> 'z vm_scheme \<Rightarrow> 'z vm_scheme \<Rightarrow> bool" where
  "grown R s s' \<longleftrightarrow> pt_inv R s' \<and> bytes s' = bytes s \<and>
     (\<forall>r \<in> R. \<forall>v \<in> vpages. pte_at r v s' = pte_at r v s) \<and>
     (\<forall>r \<in> R. \<forall>q \<in> paths. \<forall>t. tab s r q = Some t \<longrightarrow> tab s' r q = Some t) \<and>
     (\<forall>p. held_page p s \<longrightarrow> p \<notin> tabs R s \<longrightarrow> held_page p s' \<and> p \<notin> tabs R s')"

lemma grown_refl: "pt_inv R s \<Longrightarrow> grown R s s"
  by (simp add: grown_def)

lemma grown_trans: "grown R s s' \<Longrightarrow> grown R s' s'' \<Longrightarrow> grown R s s''"
  unfolding grown_def by auto

lemma tab_cong: "tables s' = tables s \<Longrightarrow> tab s' r q = tab s r q"
  by (induction q arbitrary: r) (auto simp: tab.simps)

lemma page_alloc_law:
  assumes "wf_free (heap s)"
  obtains n h where "kalloc (heap s) page_layout = Some (n, h)" "wf_free h"
    "free_bytes h \<subseteq> free_bytes (heap s)"
    "n \<noteq> 0 \<longrightarrow> block_fits n page_layout \<and> page_block n \<subseteq> free_bytes (heap s) \<and> page_block n \<inter> free_bytes h = {}"
proof -
  obtain n h where k: "kalloc (heap s) page_layout = Some (n, h)"
    using kheap.al_returns [OF assms valid_page_layout] by blast
  show thesis
    using that [OF k] kheap.al_inv [OF assms valid_page_layout k]
      kheap.al_shrinks [OF assms valid_page_layout k] kheap.al_block [OF assms valid_page_layout k]
    by (simp add: page_block_eq)
qed

lemma page_block_nonempty [simp]: "unat p \<in> page_block p"
  by (simp add: page_block_def)

lemma held_not_fresh: "held_page p s \<Longrightarrow> page_block n \<subseteq> free_bytes (heap s) \<Longrightarrow> p \<noteq> n"
  unfolding held_page_def using page_block_nonempty by fastforce

lemma held_page_shrink:
  "held_page p s \<Longrightarrow> free_bytes (heap s') \<subseteq> free_bytes (heap s) \<Longrightarrow> held_page p s'"
  unfolding held_page_def by blast

lemma pt_inv_shrink:
  assumes "pt_inv R s" "tables s' = tables s" "wf_free (heap s')"
    "free_bytes (heap s') \<subseteq> free_bytes (heap s)"
  shows "pt_inv R s'" "tabs R s' = tabs R s" "pte_at r v s' = pte_at r v s"
  using assms held_page_shrink [OF _ assms(4)] tab_cong [OF assms(2)]
  unfolding pt_inv_def tabs_def pte_at_def by (simp_all add: Ball_def split: vpn.splits option.splits)

lemma tabs_held: "pt_inv R s \<Longrightarrow> t \<in> tabs R s \<Longrightarrow> held_page t s"
  unfolding pt_inv_def tabs_def by blast

lemma pt_inv_add_table:
  assumes "pt_inv R s" "r \<in> R" "p @ [i] \<in> paths" "tab s r p = Some t" "\<not> is_valid (tables s t i)"
    and "n \<notin> tabs R s" "held_page n s"
  shows "pt_inv R (add_table t i n s)"
proof -
  have al: "page_aligned n" using assms(7) fits_page by (simp add: held_page_def)
  note new = tab_add_table [OF assms(1-6) al]
  have fresh: "tab s r' q \<noteq> Some n" if "r' \<in> R" "q \<in> paths" for r' q
    using assms(6) that unfolding tabs_def by blast
  have c: "x = n \<and> r' = r \<and> q = p @ [i] \<or> tab s r' q = Some x \<and> x \<noteq> n"
    if "r' \<in> R" "q \<in> paths" "tab (add_table t i n s) r' q = Some x" for r' q x
    using new [OF that(1,2)] that(3) fresh [OF that(1,2)]
    by (cases "r' = r \<and> q = p @ [i]") auto
  have h: "held_page x (add_table t i n s)" if "r' \<in> R" "q \<in> paths" "tab (add_table t i n s) r' q = Some x" for r' q x
    using c [OF that] that(1,2) assms(7) tabs_held [OF assms(1), of x]
    by (auto simp: tabs_def held_page_def)
  have u: "r1 = r2 \<and> q1 = q2"
    if "r1 \<in> R" "q1 \<in> paths" "r2 \<in> R" "q2 \<in> paths" "tab (add_table t i n s) r1 q1 = Some x"
      "tab (add_table t i n s) r2 q2 = Some x" for r1 q1 r2 q2 x
    using c [OF that(1,2,5)] c [OF that(3,4,6)] pt_inv_uniq [OF assms(1) that(1,2) _ that(3,4), of x]
    by blast
  have "wf_free (heap (add_table t i n s))"
    using assms(1) by (simp add: pt_inv_def)
  moreover have "\<forall>r \<in> R. \<forall>q \<in> paths. \<forall>x. tab (add_table t i n s) r q = Some x \<longrightarrow> held_page x (add_table t i n s)"
    using h by blast
  moreover have "\<forall>r \<in> R. \<forall>q \<in> paths. \<forall>r' \<in> R. \<forall>q' \<in> paths. \<forall>x. tab (add_table t i n s) r q = Some x \<longrightarrow>
      tab (add_table t i n s) r' q' = Some x \<longrightarrow> r = r' \<and> q = q'"
    using u by blast
  ultimately show ?thesis
    unfolding pt_inv_def by (intro conjI)
qed

section \<open>Walking with allocation\<close>

lemma link_table_law:
  assumes "pt_inv R s" "r \<in> R" "p @ [i] \<in> paths" "tab s r p = Some t" "\<not> is_valid (tables s t i)"
  obtains s' where "alloc_table s = Some (None, s')" "grown R s s'"
  | n s' where "alloc_table s = Some (Some n, s')"
      "grown R s (set_pte t i (set_addr (as_pte_addr n) PTE_VALID) s')"
      "tab (set_pte t i (set_addr (as_pte_addr n) PTE_VALID) s') r (p @ [i]) = Some n"
      "page_aligned n"
proof -
  have "wf_free (heap s)" using assms(1) by (simp add: pt_inv_def)
  then obtain n h where k: "kalloc (heap s) page_layout = Some (n, h)" "wf_free h"
    "free_bytes h \<subseteq> free_bytes (heap s)"
    "n \<noteq> 0 \<longrightarrow> block_fits n page_layout \<and> page_block n \<subseteq> free_bytes (heap s) \<and> page_block n \<inter> free_bytes h = {}"
    by (rule page_alloc_law)
  let ?s = "s\<lparr>heap := h\<rparr>"
  have s: "pt_inv R ?s" "tabs R ?s = tabs R s" "\<And>r v. pte_at r v ?s = pte_at r v s"
    using pt_inv_shrink [OF assms(1), of ?s] k(2,3) by simp_all
  have tb: "\<And>r q. tab ?s r q = tab s r q" by (rule tab_cong) simp
  have hp: "\<And>q. held_page q s \<Longrightarrow> held_page q ?s"
    using held_page_shrink [of _ s ?s] k(3) by simp
  show thesis
  proof (cases "n = 0")
    case True
    then have "alloc_table s = Some (None, ?s)"
      by (simp add: alloc_table_def k(1))
    moreover have "grown R s ?s"
      using s tb hp by (simp add: grown_def)
    ultimately show thesis by (rule that(1))
  next
    case False
    note n = k(4) [rule_format, OF False]
    let ?s' = "?s\<lparr>tables := (tables s)(n := (\<lambda>_. 0))\<rparr>"
    have eq: "set_pte t i (set_addr (as_pte_addr n) PTE_VALID) ?s' = add_table t i n ?s"
      by (simp add: add_table_def)
    have fresh: "n \<notin> tabs R ?s"
      using held_not_fresh tabs_held [OF assms(1)] n s(2) by auto
    have held: "held_page n ?s" using n by (simp add: held_page_def)
    then have al: "page_aligned n" using fits_page n by simp
    have t: "tab ?s r p = Some t" "\<not> is_valid (tables ?s t i)" using assms(4,5) tb by simp_all
    note new = tab_add_table [OF s(1) assms(2,3) t fresh al]
    have none: "tab s r (p @ [i]) = None"
      using assms(4,5) by (simp add: tab_snoc)
    have keep: "tab (add_table t i n ?s) r' q = Some x" if "r' \<in> R" "q \<in> paths" "tab s r' q = Some x" for r' q x
      using new [OF that(1,2)] tb that(3) none by auto
    have "held_page q (add_table t i n ?s) \<and> q \<notin> tabs R (add_table t i n ?s)"
      if "held_page q s" "q \<notin> tabs R s" for q
      using hp [OF that(1)] that(2) held_not_fresh [OF that(1)] n s(2)
        tabs_add_table [OF s(1) assms(2,3) t fresh al] by (simp add: held_page_def)
    then have "grown R s (add_table t i n ?s)"
      using pt_inv_add_table [OF s(1) assms(2,3) t fresh held] keep s(3)
        pte_at_add_table [OF s(1) assms(2,3) t fresh al] unfolding grown_def by simp
    moreover have "alloc_table s = Some (Some n, ?s')"
      by (simp add: alloc_table_def k(1) False)
    ultimately show thesis
      using that(2) [of n ?s'] new [OF assms(2,3)] al unfolding eq by simp
  qed
qed

lemma paths_append: "p @ x # xs \<in> paths \<Longrightarrow> p @ [x] \<in> paths"
  by (auto simp: paths_def)

lemma walk_alloc_levels_law:
  assumes "pt_inv R s" "r \<in> R" "tab s r p = Some t" "p @ map (get_index va) ls \<in> paths"
  shows "\<exists>e s'. walk_alloc_levels ls t va s = Some (e, s') \<and> grown R s s' \<and>
    (e = None \<or> (\<exists>t'. e = Some (t', get_index va 0) \<and> tab s' r (p @ map (get_index va) ls) = Some t'))"
  using assms
proof (induction ls arbitrary: p t s)
  case Nil
  then show ?case by (simp add: grown_refl)
next
  case (Cons l ls)
  let ?i = "get_index va l"
  have p: "p @ [?i] \<in> paths" "(p @ [?i]) @ map (get_index va) ls \<in> paths"
    using Cons.prems(4) paths_append by auto
  show ?case
  proof (cases "is_valid (tables s t ?i)")
    case True
    then have "tab s r (p @ [?i]) = Some (as_page_table (tables s t ?i))"
      using Cons.prems(3) by (simp add: tab_snoc)
    from Cons.IH [OF Cons.prems(1,2) this p(2)] True show ?thesis by simp
  next
    case False
    from link_table_law [OF Cons.prems(1,2) p(1) Cons.prems(3) False] show ?thesis
    proof cases
      case 1
      with False show ?thesis by auto
    next
      case (2 n s')
      let ?s = "set_pte t ?i (set_addr (as_pte_addr n) PTE_VALID) s'"
      have "pt_inv R ?s" using 2(2) by (simp add: grown_def)
      from Cons.IH [OF this Cons.prems(2) 2(3) p(2)] obtain e s'' where
        "walk_alloc_levels ls n va ?s = Some (e, s'')" "grown R ?s s''"
        "e = None \<or> (\<exists>t'. e = Some (t', get_index va 0) \<and> tab s'' r ((p @ [?i]) @ map (get_index va) ls) = Some t')"
        by blast
      moreover from this have "grown R s s''"
        using 2(2) by (blast intro: grown_trans)
      ultimately show ?thesis
        using 2(1,4) False by (simp add: as_page_table_set_addr Let_def)
    qed
  qed
qed

lemma walk_alloc_law:
  assumes "pt_inv R s" "r \<in> R"
  obtains (no_memory) s' where "walk_alloc r va s = Some (None, s')" "grown R s s'"
  | (entry) t s' where "walk_alloc r va s = Some (Some (t, get_index va 0), s')" "grown R s s'"
      "tab s' r [get_index va 2, get_index va 1] = Some t"
proof -
  from walk_alloc_levels_law [OF assms tab.simps(1), of va "[2, 1]", unfolded append_Nil list.map, OF index_path(1)]
  obtain e s' where
    w: "walk_alloc r va s = Some (e, s')" "grown R s s'" and
    e: "e = None \<or> (\<exists>t'. e = Some (t', get_index va 0) \<and> tab s' r [get_index va 2, get_index va 1] = Some t')"
    unfolding walk_alloc_def by blast
  from e show thesis
    using w by (elim disjE exE conjE) (simp_all add: that)
qed

section \<open>Mapping pages\<close>

text \<open>What \<open>map_pages\<close> does to the entries: one page after the other gets the next frame.\<close>

fun map_spec :: "usize list \<Rightarrow> usize \<Rightarrow> usize \<Rightarrow> (vpn \<Rightarrow> pte) \<Rightarrow> vpn \<Rightarrow> pte" where
  "map_spec [] pa perm m = m"
| "map_spec (va # vas) pa perm m =
     map_spec vas (pa + PAGESIZE) perm (m(page_no va := set_addr (as_pte_addr pa) perm))"

lemma map_spec_cong: "m v = m' v \<Longrightarrow> map_spec vas pa perm m v = map_spec vas pa perm m' v"
proof (induction vas arbitrary: pa m m')
  case (Cons va vas)
  show ?case
    unfolding map_spec.simps by (rule Cons.IH) (simp add: Cons.prems)
qed simp

definition same_pages :: "usize set \<Rightarrow> usize \<Rightarrow> 'z vm_scheme \<Rightarrow> 'z vm_scheme \<Rightarrow> bool" where
  "same_pages R r s s' \<longleftrightarrow> pt_inv R s' \<and> bytes s' = bytes s \<and>
     (\<forall>r' \<in> R - {r}. \<forall>v \<in> vpages. pte_at r' v s' = pte_at r' v s) \<and>
     (\<forall>p. held_page p s \<longrightarrow> p \<notin> tabs R s \<longrightarrow> held_page p s' \<and> p \<notin> tabs R s')"

lemma map_loop_law:
  assumes "pt_inv R s" "r \<in> R"
  shows "\<exists>res k s'. map_loop vas pa perm r s = Some (res, s') \<and> same_pages R r s s' \<and> k \<le> length vas \<and>
    (\<forall>v \<in> vpages. pte_at r v s' = map_spec (take k vas) pa perm (\<lambda>v. pte_at r v s) v) \<and>
    (\<forall>v \<in> vpages. is_valid (pte_at r v s) \<longrightarrow> pte_at r v s' = pte_at r v s) \<and>
    (case res of
       Ok _ \<Rightarrow> k = length vas
     | Err e \<Rightarrow> k < length vas \<and> (e = ''map_pages: remap'' \<and> is_valid (pte_at r (page_no (vas ! k)) s') \<or>
         e = ''map_pages: not enough memory for new page table''))"
  using assms(1)
proof (induction vas arbitrary: pa s)
  case Nil
  then show ?case by (auto simp: same_pages_def)
next
  case (Cons va vas)
  from Cons.prems assms(2) show ?case
  proof (cases rule: walk_alloc_law [where va = va])
    case (no_memory s')
    with assms(2) show ?thesis
      by (simp add: same_pages_def grown_def exI [of _ 0])
  next
    case (entry t s')
    note g = entry(2) [unfolded grown_def]
    have pte: "tables s' t (get_index va 0) = pte_at r (page_no va) s'"
      using entry(3) by (simp add: pte_at_def page_no_def)
    show ?thesis
    proof (cases "is_valid (tables s' t (get_index va 0))")
      case True
      with entry(1) pte g assms(2) show ?thesis
        by (simp add: same_pages_def exI [of _ 0])
    next
      case False
      let ?s = "set_pte t (get_index va 0) (set_addr (as_pte_addr pa) perm) s'"
      have inv: "pt_inv R s'" using g by simp
      note leaf = inv assms(2) index_path(1) entry(3)
      have inv2: "pt_inv R ?s" by (rule pt_inv_set_leaf [OF leaf])
      from Cons.IH [OF this, of "pa + PAGESIZE"] obtain res k s'' where
        IH: "map_loop vas (pa + PAGESIZE) perm r ?s = Some (res, s'')" "same_pages R r ?s s''" "k \<le> length vas"
        "\<forall>v \<in> vpages. pte_at r v s'' = map_spec (take k vas) (pa + PAGESIZE) perm (\<lambda>v. pte_at r v ?s) v"
        "\<forall>v \<in> vpages. is_valid (pte_at r v ?s) \<longrightarrow> pte_at r v s'' = pte_at r v ?s"
        "case res of Ok _ \<Rightarrow> k = length vas
         | Err e \<Rightarrow> k < length vas \<and> (e = ''map_pages: remap'' \<and> is_valid (pte_at r (page_no (vas ! k)) s'') \<or>
             e = ''map_pages: not enough memory for new page table'')"
        by blast
      note new = pte_at_set_leaf [OF leaf]
      have "same_pages R r s s''"
        using IH(2) g new tabs_set_leaf [OF leaf] by (simp add: same_pages_def)
      moreover have "pte_at r v s'' = map_spec (take (Suc k) (va # vas)) pa perm (\<lambda>v. pte_at r v s) v"
        if "v \<in> vpages" for v
        using IH(4) that new [OF assms(2) that] g assms(2)
        by (auto intro!: map_spec_cong simp: page_no_def)
      moreover have "pte_at r v s'' = pte_at r v s" if "v \<in> vpages" "is_valid (pte_at r v s)" for v
      proof -
        have old: "pte_at r v s' = pte_at r v s" using g assms(2) that(1) by simp
        then have "v \<noteq> page_no va" using that(2) False pte by auto
        then have "pte_at r v ?s = pte_at r v s'" using new [OF assms(2) that(1)] by (simp add: page_no_def)
        with IH(5) that old show ?thesis by simp
      qed
      moreover have "map_loop (va # vas) pa perm r s = Some (res, s'')"
        using entry(1) False IH(1) by simp
      ultimately show ?thesis
        using IH(3,6) by (intro exI [of _ res] exI [of _ "Suc k"] exI [of _ s'']) (auto split: sum.splits)
    qed
  qed
qed

section \<open>Virtual page numbers\<close>

lemma digits_eq_iff:
  "(x :: nat) mod 134217728 = y mod 134217728 \<longleftrightarrow>
     x div 262144 mod 512 = y div 262144 mod 512 \<and> x div 512 mod 512 = y div 512 mod 512 \<and> x mod 512 = y mod 512"
proof -
  have d: "z mod 134217728 = 512 * (512 * (z div 262144 mod 512) + z div 512 mod 512) + z mod 512" for z :: nat
  proof -
    have "z mod (512 * 262144) = 512 * (z div 512 mod 262144) + z mod 512"
      by (rule mod_mult2_eq)
    also have "z div 512 mod (512 * 512) = 512 * (z div 512 div 512 mod 512) + z div 512 mod 512"
      by (rule mod_mult2_eq)
    moreover have "z div 512 div 512 = z div 262144"
      by (simp add: div_mult2_eq [of z 512 512, symmetric] del: div_mult2_eq)
    ultimately show ?thesis by simp
  qed
  have g: "512 * a + b = 512 * a' + b' \<longleftrightarrow> a = a' \<and> b = b'" if "b < 512" "b' < 512" for a b a' b' :: nat
    using that by (metis div_mult_self4 mod_mult_self4 div_less mod_less add_0_right mult.commute zero_neq_numeral)
  show ?thesis
    unfolding d by (simp add: g del: distrib_left_numeral)
qed

lemma page_no_eq_iff:
  "page_no va = page_no vb \<longleftrightarrow> unat va div 4096 mod 134217728 = unat vb div 4096 mod 134217728"
  unfolding digits_eq_iff by (simp add: page_no_def get_index_eq div_mult2_eq [symmetric])

lemma page_no_base [simp]: "page_no (page_base va) = page_no va"
  by (simp add: page_no_eq_iff unat_page_base)

lemma align_up_page: "align_up a PAGESIZE = Some (mask_align_up a PAGESIZE)"
  by (simp add: align_up_def mask_align_up_def param_values)

definition next_page :: "usize \<Rightarrow> nat \<Rightarrow> usize" where
  "next_page va i = va + of_nat i * PAGESIZE"

lemma unat_next_page:
  assumes "unat va + i * 4096 < 2 ^ 64"
  shows "unat (next_page va i) = unat va + i * 4096"
proof -
  have "unat (of_nat i * PAGESIZE :: usize) = i * 4096"
    using assms by (simp add: param_values unat_word_ariths unat_of_nat)
  then show ?thesis
    using assms unfolding next_page_def by (subst unat_plus_no_overflow) simp_all
qed

lemma page_range_pages:
  assumes "page_aligned va" "unat vb = unat va + n * 4096"
  shows "page_range va vb = map (next_page va) [0..<n]"
proof -
  have "(n * 4096 + 4095) div 4096 = n" by simp
  then show ?thesis
    unfolding page_range_def next_page_def using assms(2) by simp
qed

lemma distinct_page_nos:
  assumes "page_aligned va" "unat va + n * 4096 \<le> 2 ^ 39"
  shows "inj_on (\<lambda>i. page_no (next_page va i)) {..<n}"
proof (rule inj_onI)
  fix i j
  assume ij: "i \<in> {..<n}" "j \<in> {..<n}" "page_no (next_page va i) = page_no (next_page va j)"
  have u: "unat (next_page va k) div 4096 = unat va div 4096 + k \<and> unat va div 4096 + k < 134217728"
    if "k < n" for k
    using assms that unat_next_page [of va k] by (auto simp: page_aligned_def dvd_def)
  show "i = j"
    using ij u [of i] u [of j] by (simp add: page_no_eq_iff)
qed

lemma map_spec_other:
  "v \<notin> page_no ` set vas \<Longrightarrow> map_spec vas pa perm m v = m v"
  by (induction vas arbitrary: pa m) simp_all

lemma map_spec_nth:
  assumes "inj_on (\<lambda>i. page_no (vas ! i)) {..<length vas}" "i < length vas"
  shows "map_spec vas pa perm m (page_no (vas ! i)) = set_addr (as_pte_addr (next_page pa i)) perm"
  using assms
proof (induction vas arbitrary: pa m i)
  case (Cons va vas)
  show ?case
  proof (cases i)
    case 0
    have "page_no va \<notin> page_no ` set vas"
    proof
      assume "page_no va \<in> page_no ` set vas"
      then obtain j where "j < length vas" "page_no va = page_no (vas ! j)"
        by (auto simp: in_set_conv_nth)
      with inj_onD [OF Cons.prems(1), of 0 "Suc j"] show False by simp
    qed
    then show ?thesis
      using 0 by (simp add: next_page_def map_spec_other)
  next
    case (Suc j)
    have "inj_on (\<lambda>i. page_no (vas ! i)) {..<length vas}"
    proof (rule inj_onI)
      fix x y
      assume "x \<in> {..<length vas}" "y \<in> {..<length vas}" "page_no (vas ! x) = page_no (vas ! y)"
      with inj_onD [OF Cons.prems(1), of "Suc x" "Suc y"] show "x = y" by simp
    qed
    with Cons.IH [OF this, of j "pa + PAGESIZE"] Cons.prems(2) Suc show ?thesis
      by (simp add: next_page_def algebra_simps)
  qed
qed simp

lemma map_pages_range:
  assumes "page_aligned va" "unat va + n * 4096 < 2 ^ 64"
  shows "map_pages r va pa (of_nat n * PAGESIZE) perm s = map_loop (map (next_page va) [0..<n]) pa perm r s"
proof -
  let ?e = "va + of_nat n * PAGESIZE"
  have e: "unat ?e = unat va + n * 4096"
    using unat_next_page [OF assms(2)] by (simp add: next_page_def)
  from assms(1) obtain k where k: "unat va = 4096 * k" by (auto simp: page_aligned_def)
  then have "4096 * (k + n) < 4096 * 4503599627370496"
    using assms(2) by simp
  then have "k + n < 4503599627370496" by (simp only: mult_less_cancel1)
  then have "unat va + n * 4096 + 4096 \<le> 2 ^ 64"
    unfolding k by simp
  then have "unat ?e + unat PAGESIZE \<le> 2 ^ 64"
    unfolding e by (simp add: param_values)
  then have "unat (mask_align_up ?e PAGESIZE) = (unat ?e + 4096 - 1) div 4096 * 4096"
    using unat_mask_align_up [of PAGESIZE ?e] by (simp add: param_values)
  also have "\<dots> = unat va + n * 4096"
  proof -
    have "unat va + n * 4096 + 4096 - 1 = 4095 + (k + n) * 4096" by (simp add: k)
    moreover have "(4095 + (k + n) * 4096) div 4096 = k + n" by (subst div_mult_self1) simp_all
    ultimately have "(unat va + n * 4096 + 4096 - 1) div 4096 * 4096 = (k + n) * 4096" by argo
    also have "\<dots> = unat va + n * 4096" unfolding k by (simp add: algebra_simps)
    finally show ?thesis unfolding e .
  qed
  finally have up: "unat (mask_align_up ?e PAGESIZE) = unat va + n * 4096" .
  have "unat (page_base va) = unat va"
    using assms(1) by (auto simp: unat_page_base page_aligned_def)
  then have "page_base va = va" by (rule unsigned_word_eqI)
  then show ?thesis
    unfolding map_pages_def align_down_page align_up_page
    using page_range_pages [OF assms(1) up] by simp
qed

lemma next_page_nth [simp]: "i < n \<Longrightarrow> map (next_page va) [0..<n] ! i = next_page va i"
  by simp

lemma map_pages_law:
  assumes "pt_inv R s" "r \<in> R" "page_aligned va" "unat va + n * 4096 \<le> 2 ^ 39"
  obtains res k s' where "map_pages r va pa (of_nat n * PAGESIZE) perm s = Some (res, s')"
    "same_pages R r s s'" "k \<le> n"
    "\<forall>i < k. pte_at r (page_no (next_page va i)) s' = set_addr (as_pte_addr (next_page pa i)) perm"
    "\<forall>v \<in> vpages. v \<notin> (\<lambda>i. page_no (next_page va i)) ` {..<k} \<longrightarrow> pte_at r v s' = pte_at r v s"
    "\<forall>v \<in> vpages. is_valid (pte_at r v s) \<longrightarrow> pte_at r v s' = pte_at r v s"
    "case res of Ok _ \<Rightarrow> k = n
     | Err e \<Rightarrow> k < n \<and> (e = ''map_pages: remap'' \<and> is_valid (pte_at r (page_no (next_page va k)) s) \<or>
           e = ''map_pages: not enough memory for new page table'')"
proof -
  let ?vas = "map (next_page va) [0..<n]"
  from map_loop_law [OF assms(1,2), of ?vas pa perm] obtain res k s' where
    m: "map_loop ?vas pa perm r s = Some (res, s')" "same_pages R r s s'" "k \<le> n"
    "\<forall>v \<in> vpages. pte_at r v s' = map_spec (take k ?vas) pa perm (\<lambda>v. pte_at r v s) v"
    "\<forall>v \<in> vpages. is_valid (pte_at r v s) \<longrightarrow> pte_at r v s' = pte_at r v s" and
    res: "case res of Ok _ \<Rightarrow> k = n
     | Err e \<Rightarrow> k < n \<and> (e = ''map_pages: remap'' \<and> is_valid (pte_at r (page_no (?vas ! k)) s') \<or>
           e = ''map_pages: not enough memory for new page table'')"
    unfolding length_map length_upt minus_nat.diff_0 by blast
  have tk: "take k ?vas = map (next_page va) [0..<k]"
    using m(3) by (simp add: take_map)
  note inj = distinct_page_nos [OF assms(3,4)]
  have injk: "inj_on (\<lambda>i. page_no (map (next_page va) [0..<k] ! i)) {..<length (map (next_page va) [0..<k])}"
    using inj_on_subset [OF inj] m(3) by (auto simp: inj_on_def)
  have new: "\<forall>i < k. pte_at r (page_no (next_page va i)) s' = set_addr (as_pte_addr (next_page pa i)) perm"
  proof (intro allI impI)
    fix i assume "i < k"
    with map_spec_nth [OF injk, of i pa perm "\<lambda>v. pte_at r v s"] m(4) tk
    show "pte_at r (page_no (next_page va i)) s' = set_addr (as_pte_addr (next_page pa i)) perm"
      by simp
  qed
  have old: "\<forall>v \<in> vpages. v \<notin> (\<lambda>i. page_no (next_page va i)) ` {..<k} \<longrightarrow> pte_at r v s' = pte_at r v s"
    using m(4) by (auto simp: tk map_spec_other image_image atLeast0LessThan)
  have "k < n \<Longrightarrow> page_no (next_page va k) \<notin> (\<lambda>i. page_no (next_page va i)) ` {..<k}"
    using inj_onD [OF inj, of k] by fastforce
  with old res have "case res of Ok _ \<Rightarrow> k = n
     | Err e \<Rightarrow> k < n \<and> (e = ''map_pages: remap'' \<and> is_valid (pte_at r (page_no (next_page va k)) s) \<or>
           e = ''map_pages: not enough memory for new page table'')"
    by (auto split: sum.splits)
  moreover have "map_pages r va pa (of_nat n * PAGESIZE) perm s = Some (res, s')"
    using map_pages_range [OF assms(3), of n r pa perm s] assms(4) m(1) by simp
  ultimately show thesis
    using that m(2,3,5) new old by blast
qed

end
