(* ===== verification/User_Memory.thy ===== *)
theory User_Memory
  imports Page_Map
begin

text \<open>
  User memory over the page tables: \<open>uvm_alloc\<close>, \<open>uvm_dealloc\<close>, \<open>uvm_copy\<close> and the copies between
  kernel and user of \<open>kernel/src/page_table.rs\<close>.

  \<open>own R A s\<close> says that the pages of the set \<open>A\<close>, pairs of a root and a virtual page, are
  mapped to frames of their own: each frame is a page taken from the heap, is no page table and
  belongs to no other page of \<open>A\<close>.  \<open>umem\<close> is the memory a process sees.
\<close>

section \<open>Frames\<close>

definition frame :: "usize \<Rightarrow> vpn \<Rightarrow> 'z vm_scheme \<Rightarrow> usize" where
  "frame r v s = as_phys_addr (pte_at r v s)"

definition own :: "usize set \<Rightarrow> (usize \<times> vpn) set \<Rightarrow> 'z vm_scheme \<Rightarrow> bool" where
  "own R A s \<longleftrightarrow> pt_inv R s \<and>
     (\<forall>r v. (r, v) \<in> A \<longrightarrow> r \<in> R \<and> v \<in> vpages \<and> is_valid (pte_at r v s) \<and> is_leaf (pte_at r v s) \<and>
        held_page (frame r v s) s \<and> frame r v s \<notin> tabs R s) \<and>
     (\<forall>r v r' v'. (r, v) \<in> A \<longrightarrow> (r', v') \<in> A \<longrightarrow> frame r v s = frame r' v' s \<longrightarrow> r = r' \<and> v = v')"

definition fresh_frame :: "usize set \<Rightarrow> (usize \<times> vpn) set \<Rightarrow> usize \<Rightarrow> 'z vm_scheme \<Rightarrow> bool" where
  "fresh_frame R A p s \<longleftrightarrow> held_page p s \<and> p \<notin> tabs R s \<and> (\<forall>r v. (r, v) \<in> A \<longrightarrow> frame r v s \<noteq> p)"

definition same_map :: "usize set \<Rightarrow> 'z vm_scheme \<Rightarrow> 'z vm_scheme \<Rightarrow> bool" where
  "same_map R s s' \<longleftrightarrow> (\<forall>r \<in> R. \<forall>v \<in> vpages. pte_at r v s' = pte_at r v s)"

lemma own_memD:
  assumes "own R A s" "(r, v) \<in> A"
  shows "r \<in> R" "v \<in> vpages" "is_valid (pte_at r v s)" "is_leaf (pte_at r v s)"
    "held_page (frame r v s) s" "frame r v s \<notin> tabs R s"
  using assms unfolding own_def by auto

lemma own_keep:
  assumes "own R A s" "pt_inv R s'" "\<forall>r v. (r, v) \<in> A \<longrightarrow> pte_at r v s' = pte_at r v s"
    "\<forall>r v. (r, v) \<in> A \<longrightarrow> held_page (frame r v s) s' \<and> frame r v s \<notin> tabs R s'"
  shows "own R A s'" "\<forall>r v. (r, v) \<in> A \<longrightarrow> frame r v s' = frame r v s"
proof -
  have f: "frame r v s' = frame r v s" if "(r, v) \<in> A" for r v
    using assms(3) that by (auto simp: frame_def)
  then show "\<forall>r v. (r, v) \<in> A \<longrightarrow> frame r v s' = frame r v s" by auto
  have "r \<in> R \<and> v \<in> vpages \<and> is_valid (pte_at r v s') \<and> is_leaf (pte_at r v s') \<and>
        held_page (frame r v s') s' \<and> frame r v s' \<notin> tabs R s'" if "(r, v) \<in> A" for r v
    using own_memD [OF assms(1) that] f [OF that] assms(3,4) that by auto
  moreover have "r = r' \<and> v = v'" if "(r, v) \<in> A" "(r', v') \<in> A" "frame r v s' = frame r' v' s'" for r v r' v'
    using assms(1) that f [OF that(1)] f [OF that(2)] unfolding own_def by auto
  ultimately show "own R A s'"
    using assms(2) unfolding own_def by simp
qed

lemma own_subset: "own R A s \<Longrightarrow> B \<subseteq> A \<Longrightarrow> own R B s"
  unfolding own_def by blast

lemma own_insert:
  assumes "own R A s" "fresh_frame R A p s" "r \<in> R" "v \<in> vpages" "is_valid (pte_at r v s)"
    "is_leaf (pte_at r v s)" "frame r v s = p"
  shows "own R (insert (r, v) A) s"
  using assms unfolding own_def fresh_frame_def by (auto; metis)

lemma own_frame_other:
  "own R A s \<Longrightarrow> (r, v) \<in> A \<Longrightarrow> (r', v') \<in> A \<Longrightarrow> (r, v) \<noteq> (r', v') \<Longrightarrow> frame r v s \<noteq> frame r' v' s"
  unfolding own_def by blast

lemma alloc_data_law:
  assumes "own R A s"
  obtains (no_memory) s' where "alloc_data_page s = Some (None, s')" "own R A s'" "same_map R s s'"
      "bytes s' = bytes s"
  | (page) p s' where "alloc_data_page s = Some (Some p, s')" "own R A s'" "same_map R s s'"
      "fresh_frame R A p s'" "bytes s' = (\<lambda>a. if in_page p a then 0 else bytes s a)"
proof -
  have inv: "pt_inv R s" using assms by (simp add: own_def)
  then have "wf_free (heap s)" by (simp add: pt_inv_def)
  then obtain n h where k: "kalloc (heap s) page_layout = Some (n, h)" "wf_free h"
    "free_bytes h \<subseteq> free_bytes (heap s)"
    "n \<noteq> 0 \<longrightarrow> block_fits n page_layout \<and> page_block n \<subseteq> free_bytes (heap s) \<and> page_block n \<inter> free_bytes h = {}"
    by (rule page_alloc_law)
  have shr: "own R A s' \<and> same_map R s s' \<and> tabs R s' = tabs R s \<and> (\<forall>r v. (r, v) \<in> A \<longrightarrow> frame r v s' = frame r v s)"
    if s': "heap s' = h" "tables s' = tables s" for s' :: "'a vm_scheme"
  proof -
    note sh = pt_inv_shrink [OF inv s'(2)]
    have "\<forall>p. held_page p s \<longrightarrow> held_page p s'"
      using held_page_shrink [of _ s s'] k(3) s'(1) by simp
    then have "\<forall>r v. (r, v) \<in> A \<longrightarrow> held_page (frame r v s) s' \<and> frame r v s \<notin> tabs R s"
      using own_memD [OF assms] by auto
    with own_keep [OF assms, of s'] sh s'(1) k(2,3) show ?thesis
      by (simp add: same_map_def)
  qed
  show thesis
  proof (cases "n = 0")
    case True
    then have "alloc_data_page s = Some (None, s\<lparr>heap := h\<rparr>)"
      by (simp add: alloc_data_page_def k(1))
    with shr [of "s\<lparr>heap := h\<rparr>"] show thesis
      using no_memory by simp
  next
    case False
    let ?s = "s\<lparr>heap := h, bytes := (\<lambda>a. if in_page n a then 0 else bytes s a)\<rparr>"
    note n = k(4) [rule_format, OF False]
    have "n \<notin> tabs R s" "\<forall>r v. (r, v) \<in> A \<longrightarrow> frame r v s \<noteq> n"
      using held_not_fresh [of _ s n] tabs_held [OF inv] own_memD(5) [OF assms] n by auto
    with shr [of ?s] n have "fresh_frame R A n ?s"
      by (auto simp: fresh_frame_def held_page_def)
    moreover have "alloc_data_page s = Some (Some n, ?s)"
      by (simp add: alloc_data_page_def k(1) False)
    ultimately show thesis
      using page [of n ?s] shr [of ?s] by simp
  qed
qed

lemma free_page_law:
  assumes "own R A s" "fresh_frame R A p s"
  obtains s' where "free_page p s = Some s'" "own R A s'" "same_map R s s'" "bytes s' = bytes s"
    "tables s' = tables s" "free_bytes (heap s') = free_bytes (heap s) \<union> page_block p"
proof -
  have inv: "pt_inv R s" using assms by (simp add: own_def)
  have wf: "wf_free (heap s)" using inv by (simp add: pt_inv_def)
  have p: "block_fits p page_layout" "block block_size (p, page_layout) \<inter> free_bytes (heap s) = {}"
    using assms(2) by (simp_all add: fresh_frame_def held_page_def page_block_eq)
  from kheap.de_returns [OF wf valid_page_layout p] obtain h where h: "kdealloc (heap s) p page_layout = Some h"
    by blast
  let ?s = "s\<lparr>heap := h\<rparr>"
  have fb: "wf_free h" "free_bytes h = free_bytes (heap s) \<union> page_block p"
    using kheap.de_inv [OF wf valid_page_layout p h] by (simp_all add: page_block_eq)
  have held: "held_page q ?s" if "held_page q s" "q \<noteq> p" for q
  proof -
    have "page_aligned q" "page_aligned p"
      using that(1) p(1) fits_page by (auto simp: held_page_def)
    from pages_disjoint [OF this that(2)] that(1) fb(2) show ?thesis
      by (auto simp: held_page_def)
  qed
  have tb: "\<And>r q. tab ?s r q = tab s r q" by (rule tab_cong) simp
  then have tabs: "tabs R ?s = tabs R s" and pte: "\<And>r v. pte_at r v ?s = pte_at r v s"
    by (simp_all add: tabs_def pte_at_def split: vpn.splits option.splits)
  have "p \<notin> tabs R s" using assms(2) by (simp add: fresh_frame_def)
  then have "held_page t ?s" if "t \<in> tabs R s" for t
    using held [OF tabs_held [OF inv that]] that by blast
  then have "\<forall>r \<in> R. \<forall>q \<in> paths. \<forall>t. tab s r q = Some t \<longrightarrow> held_page t ?s"
    unfolding tabs_def by blast
  then have inv': "pt_inv R ?s"
    using inv fb(1) unfolding pt_inv_def tb by simp
  have "\<forall>r v. (r, v) \<in> A \<longrightarrow> held_page (frame r v s) ?s \<and> frame r v s \<notin> tabs R ?s"
    using own_memD(5,6) [OF assms(1)] held assms(2) tabs by (auto simp: fresh_frame_def)
  then have "own R A ?s"
    using own_keep(1) [OF assms(1) inv'] pte by simp
  then show thesis
    using that [of ?s] h fb(2) pte by (simp add: free_page_def same_map_def)
qed

lemma map_one_law:
  assumes "own R A s" "r \<in> R" "page_aligned va" "unat va + 4096 \<le> 2 ^ 39" "fresh_frame R A p s"
    "\<not> is_valid (pte_at r (page_no va) s)" "flags_only perm" "is_leaf perm"
  obtains (no_memory) s' where "map_pages r va p PAGESIZE perm s =
        Some (Err ''map_pages: not enough memory for new page table'', s')"
      "own R A s'" "same_map R s s'" "bytes s' = bytes s" "fresh_frame R A p s'"
  | (mapped) s' where "map_pages r va p PAGESIZE perm s = Some (Ok (), s')"
      "own R (insert (r, page_no va) A) s'" "bytes s' = bytes s"
      "pte_at r (page_no va) s' = set_addr (as_pte_addr p) perm"
      "\<forall>r' \<in> R. \<forall>v \<in> vpages. (r', v) \<noteq> (r, page_no va) \<longrightarrow> pte_at r' v s' = pte_at r' v s"
proof -
  have inv: "pt_inv R s" using assms(1) by (simp add: own_def)
  obtain res k s' where
    m: "map_pages r va p PAGESIZE perm s = Some (res, s')" and sp: "same_pages R r s s'" and k: "k \<le> 1" and
    new: "\<forall>i < k. pte_at r (page_no (next_page va i)) s' = set_addr (as_pte_addr (next_page p i)) perm" and
    old: "\<forall>v \<in> vpages. v \<notin> (\<lambda>i. page_no (next_page va i)) ` {..<k} \<longrightarrow> pte_at r v s' = pte_at r v s" and
    valid: "\<forall>v \<in> vpages. is_valid (pte_at r v s) \<longrightarrow> pte_at r v s' = pte_at r v s" and
    res: "case res of Ok _ \<Rightarrow> k = 1
     | Err e \<Rightarrow> k < 1 \<and> (e = ''map_pages: remap'' \<and> is_valid (pte_at r (page_no (next_page va k)) s) \<or>
           e = ''map_pages: not enough memory for new page table'')"
    using assms(4) by (rule map_pages_law [OF inv assms(2,3), of 1 p perm, unfolded of_nat_1 mult_1])
  note sp = sp [unfolded same_pages_def]
  have np: "\<And>a. next_page a 0 = a" by (simp add: next_page_def)
  have nA: "(r, page_no va) \<notin> A" using own_memD(3) [OF assms(1)] assms(6) by blast
  have other: "\<forall>r' \<in> R. \<forall>v \<in> vpages. (r', v) \<noteq> (r, page_no va) \<longrightarrow> pte_at r' v s' = pte_at r' v s"
  proof (intro ballI impI)
    fix r' v
    assume *: "r' \<in> R" "v \<in> vpages" "(r', v) \<noteq> (r, page_no va)"
    from k old np * have "r' = r \<Longrightarrow> pte_at r' v s' = pte_at r' v s"
      by (cases k) auto
    with sp * show "pte_at r' v s' = pte_at r' v s" by blast
  qed
  have "\<forall>r v. (r, v) \<in> A \<longrightarrow> held_page (frame r v s) s' \<and> frame r v s \<notin> tabs R s'"
    using own_memD(5,6) [OF assms(1)] sp by blast
  moreover have "\<forall>r v. (r, v) \<in> A \<longrightarrow> pte_at r v s' = pte_at r v s"
  proof (intro allI impI)
    fix r' v
    assume a: "(r', v) \<in> A"
    then have "(r', v) \<noteq> (r, page_no va)" using nA by blast
    with other own_memD(1,2) [OF assms(1) a] show "pte_at r' v s' = pte_at r' v s" by blast
  qed
  ultimately have own: "own R A s'" and fr: "\<forall>r v. (r, v) \<in> A \<longrightarrow> frame r v s' = frame r v s"
    using own_keep [OF assms(1)] sp by blast+
  have fresh: "fresh_frame R A p s'"
    using assms(5) sp fr by (simp add: fresh_frame_def)
  show thesis
  proof (cases res)
    case (Inl e)
    with res np assms(6) have "k = 0" "res = Err ''map_pages: not enough memory for new page table''"
      by auto
    moreover from this have "same_map R s s'"
      unfolding same_map_def using sp old by (intro ballI, case_tac "ra = r") auto
    ultimately show thesis
      using no_memory own m sp fresh by blast
  next
    case (Inr u)
    with res new np have pte: "pte_at r (page_no va) s' = set_addr (as_pte_addr p) perm" by simp
    have "page_aligned p" using assms(5) fits_page by (auto simp: fresh_frame_def held_page_def)
    then have "frame r (page_no va) s' = p"
      by (simp add: frame_def pte as_phys_addr_set_addr assms(7))
    then have "own R (insert (r, page_no va) A) s'"
      using own_insert [OF own fresh assms(2)] pte assms(8) by simp
    then show thesis
      using mapped [OF _ _ _ pte other] m Inr sp by simp
  qed
qed

section \<open>The contents of owned pages\<close>

definition page_data :: "usize \<Rightarrow> vpn \<Rightarrow> 'z vm_scheme \<Rightarrow> u8 list" where
  "page_data r v s = load_bytes (frame r v s) 4096 s"

definition same_data :: "(usize \<times> vpn) set \<Rightarrow> 'z vm_scheme \<Rightarrow> 'z vm_scheme \<Rightarrow> bool" where
  "same_data A s s' \<longleftrightarrow> (\<forall>r v. (r, v) \<in> A \<longrightarrow> pte_at r v s' = pte_at r v s \<and> page_data r v s' = page_data r v s)"

lemma same_data_refl: "same_data A s s"
  by (simp add: same_data_def)

lemma same_data_trans: "same_data A s s' \<Longrightarrow> same_data A s' s'' \<Longrightarrow> same_data A s s''"
  by (simp add: same_data_def)

lemma same_data_subset: "same_data B s s' \<Longrightarrow> A \<subseteq> B \<Longrightarrow> same_data A s s'"
  by (auto simp: same_data_def)

lemma page_offset:
  assumes "block_fits p page_layout" "k < 4096"
  shows "unat (p + of_nat k) = unat p + k"
  using assms fits_page [OF assms(1)] by (subst unat_plus_no_overflow) (auto simp: unat_of_nat)

lemma in_page_offset:
  assumes "block_fits p page_layout" "block_fits q page_layout" "k < 4096"
  shows "in_page p (q + of_nat k) \<longleftrightarrow> p = q"
proof (cases "p = q")
  case True
  with assms show ?thesis by (simp add: in_page_def page_offset)
next
  case False
  from pages_disjoint [OF _ _ this] fits_page [OF assms(1)] fits_page [OF assms(2)]
  have "page_block p \<inter> page_block q = {}" by blast
  moreover have "unat q + k \<in> page_block q" using assms(3) by (simp add: page_block_def)
  ultimately have "unat q + k \<notin> page_block p" by blast
  with False show ?thesis
    by (simp add: in_page_def page_offset [OF assms(2,3)] page_block_def)
qed

lemma load_bytes_cong:
  "(\<And>k. k < n \<Longrightarrow> bytes s' (p + of_nat k) = bytes s (p + of_nat k)) \<Longrightarrow> load_bytes p n s' = load_bytes p n s"
  by (simp add: load_bytes_def)

lemma own_fits: "own R A s \<Longrightarrow> (r, v) \<in> A \<Longrightarrow> block_fits (frame r v s) page_layout"
  by (drule (1) own_memD(5)) (simp add: held_page_def)

lemma same_data_clear:
  assumes "own R A s" "fresh_frame R A p s'" "same_map R s s'"
    "bytes s' = (\<lambda>a. if in_page p a then 0 else bytes s a)"
  shows "same_data A s s'" "load_bytes p 4096 s' = replicate 4096 0"
proof -
  have p: "block_fits p page_layout"
    using assms(2) by (simp add: fresh_frame_def held_page_def)
  show "load_bytes p 4096 s' = replicate 4096 0"
    unfolding load_bytes_def
    by (rule nth_equalityI) (simp_all add: assms(4) in_page_offset [OF p p])
  show "same_data A s s'"
    unfolding same_data_def
  proof (intro allI impI)
    fix r v
    assume a: "(r, v) \<in> A"
    have pte: "pte_at r v s' = pte_at r v s"
      using assms(3) own_memD(1,2) [OF assms(1) a] by (simp add: same_map_def)
    then have fr: "frame r v s' = frame r v s" by (simp add: frame_def)
    have "frame r v s \<noteq> p" using assms(2) a fr by (auto simp: fresh_frame_def)
    then have "page_data r v s' = page_data r v s"
      unfolding page_data_def fr using in_page_offset [OF p own_fits [OF assms(1) a]]
      by (intro load_bytes_cong) (auto simp: assms(4))
    with pte show "pte_at r v s' = pte_at r v s \<and> page_data r v s' = page_data r v s" ..
  qed
qed

lemma same_data_map:
  assumes "bytes s' = bytes s" "\<forall>r v. (r, v) \<in> A \<longrightarrow> pte_at r v s' = pte_at r v s"
  shows "same_data A s s'"
  using assms by (simp add: same_data_def page_data_def frame_def load_bytes_def)

section \<open>Growing a process\<close>

definition new_page :: "usize \<Rightarrow> vpn \<Rightarrow> 'z vm_scheme \<Rightarrow> bool" where
  "new_page r v s \<longleftrightarrow> is_valid (pte_at r v s) \<and> is_user (pte_at r v s) \<and>
     get_flag (pte_at r v s) = PTE_VALID OR PTE_READ OR PTE_WRITE OR PTE_EXEC OR PTE_USER \<and>
     page_data r v s = replicate 4096 0"

definition low_page :: "usize \<Rightarrow> bool" where
  "low_page va \<longleftrightarrow> page_aligned va \<and> unat va + 4096 \<le> 2 ^ 39"

lemma uvm_dealloc_noop: "oldsz \<le> newsz \<Longrightarrow> uvm_dealloc r oldsz newsz s = Some (Ok oldsz, s)"
  by (simp add: uvm_dealloc_def)

lemma page_data_single:
  "frame r v s = p \<Longrightarrow> bytes s = bytes s' \<Longrightarrow> page_data r v s = load_bytes p 4096 s'"
  by (simp add: page_data_def load_bytes_def)

abbreviation rwxu :: usize where
  "rwxu \<equiv> PTE_READ OR PTE_WRITE OR PTE_EXEC OR PTE_USER"

lemma rwxu_flags: "flags_only rwxu" "is_leaf rwxu" "is_user rwxu"
  by (simp_all add: is_leaf_bit is_user_bit bit_or_iff)

text \<open>One round of the loop of \<open>uvm_alloc\<close>: either a cleared page of its own is mapped, or nothing
  has changed.\<close>

lemma uvm_alloc_step:
  assumes "own R A s" "r \<in> R" "low_page va" "\<not> is_valid (pte_at r (page_no va) s)" "oldsz \<le> newsz"
  obtains (failed) e s' where "uvm_alloc_loop (va # vas) oldsz newsz r s = Some (Err e, s')"
      "own R A s'" "same_map R s s'" "same_data A s s'"
  | (mapped) s' where "uvm_alloc_loop (va # vas) oldsz newsz r s = uvm_alloc_loop vas oldsz newsz r s'"
      "own R (insert (r, page_no va) A) s'" "new_page r (page_no va) s'" "same_data A s s'"
      "\<forall>r' \<in> R. \<forall>v \<in> vpages. (r', v) \<noteq> (r, page_no va) \<longrightarrow> pte_at r' v s' = pte_at r' v s"
  using assms(1)
proof (cases rule: alloc_data_law)
  case (no_memory s')
  then have "same_data A s s'"
    using own_memD(1,2) [OF assms(1)] by (intro same_data_map) (auto simp: same_map_def)
  with no_memory failed [of _ s'] show thesis
    by (simp add: uvm_dealloc_noop [OF assms(5)])
next
  case (page p s1)
  note clear = same_data_clear [OF assms(1) page(4,3,5)]
  have va: "page_aligned va" "unat va + 4096 \<le> 2 ^ 39" using assms(3) by (simp_all add: low_page_def)
  have "\<not> is_valid (pte_at r (page_no va) s1)"
    using page(3) assms(2,4) by (simp add: same_map_def)
  from page(2) assms(2) va page(4) this rwxu_flags(1,2) show thesis
  proof (cases rule: map_one_law)
    case (no_memory s2)
    from no_memory(2,5) obtain s3 where s3: "free_page p s2 = Some s3" "own R A s3" "same_map R s2 s3"
      "bytes s3 = bytes s2" by (rule free_page_law)
    have "same_map R s s3" using page(3) no_memory(3) s3(3) by (simp add: same_map_def)
    moreover have "same_data A s1 s3"
      using no_memory(3,4) s3(3,4) own_memD(1,2) [OF page(2)] by (intro same_data_map) (auto simp: same_map_def)
    then have "same_data A s s3" using clear(1) same_data_trans by blast
    ultimately show thesis
      using failed [of "''map_pages: not enough memory for new page table''" s3] page(1) no_memory(1) s3(1,2)
      by (simp add: uvm_dealloc_noop [OF assms(5)])
  next
    case (mapped s2)
    have nA: "(r, page_no va) \<notin> A" using own_memD(3) [OF assms(1)] assms(4) by blast
    have fr: "frame r (page_no va) s2 = p"
      using page(4) fits_page mapped(4) rwxu_flags(1)
      by (simp add: frame_def as_phys_addr_set_addr fresh_frame_def held_page_def)
    have "page_data r (page_no va) s2 = replicate 4096 0"
      using page_data_single [OF fr mapped(3)] clear(2) by simp
    then have "new_page r (page_no va) s2"
      using mapped(4) rwxu_flags by (simp add: new_page_def get_flag_set_addr ac_simps)
    moreover have keep: "\<forall>r' v. (r', v) \<in> A \<longrightarrow> pte_at r' v s2 = pte_at r' v s1"
    proof (intro allI impI)
      fix r' v
      assume a: "(r', v) \<in> A"
      then have "(r', v) \<noteq> (r, page_no va)" using nA by blast
      with mapped(5) own_memD(1,2) [OF assms(1) a] show "pte_at r' v s2 = pte_at r' v s1" by blast
    qed
    have "same_data A s s2"
      using clear(1) same_data_map [OF mapped(3) keep] by (rule same_data_trans)
    moreover have "\<forall>r' \<in> R. \<forall>v \<in> vpages. (r', v) \<noteq> (r, page_no va) \<longrightarrow> pte_at r' v s2 = pte_at r' v s"
      using mapped(5) page(3) by (simp add: same_map_def)
    ultimately show thesis
      using that(2) [OF _ mapped(2)] page(1) mapped(1) by simp
  qed
qed

definition pages_of :: "usize \<Rightarrow> usize list \<Rightarrow> (usize \<times> vpn) set" where
  "pages_of r vas = (\<lambda>va. (r, page_no va)) ` set vas"

lemma pages_of_simps [simp]:
  "pages_of r [] = {}" "pages_of r (va # vas) = insert (r, page_no va) (pages_of r vas)"
  by (simp_all add: pages_of_def)

lemma new_page_keep: "same_data A s s' \<Longrightarrow> (r, v) \<in> A \<Longrightarrow> new_page r v s \<Longrightarrow> new_page r v s'"
  by (simp add: same_data_def new_page_def)

lemma uvm_alloc_loop_law:
  assumes "own R A s" "r \<in> R" "list_all low_page vas" "distinct (map page_no vas)"
    "\<forall>va \<in> set vas. \<not> is_valid (pte_at r (page_no va) s)" "oldsz \<le> newsz"
  shows "\<exists>res k s'. uvm_alloc_loop vas oldsz newsz r s = Some (res, s') \<and> k \<le> length vas \<and>
    own R (A \<union> pages_of r (take k vas)) s' \<and> same_data A s s' \<and>
    (\<forall>va \<in> set (take k vas). new_page r (page_no va) s') \<and>
    (\<forall>r' \<in> R. \<forall>v \<in> vpages. (r', v) \<notin> pages_of r (take k vas) \<longrightarrow> pte_at r' v s' = pte_at r' v s) \<and>
    (res = Ok newsz \<and> k = length vas \<or> (\<exists>e. res = Err e) \<and> k < length vas)"
  using assms(1,3,4,5)
proof (induction vas arbitrary: A s)
  case Nil
  then show ?case by (simp add: same_data_refl)
next
  case (Cons va vas)
  have va: "low_page va" "\<not> is_valid (pte_at r (page_no va) s)"
    using Cons.prems by simp_all
  from Cons.prems(1) assms(2) va assms(6) show ?case
  proof (cases rule: uvm_alloc_step [where vas = vas])
    case (failed e s')
    then show ?thesis
      by (intro exI [of _ "Err e"] exI [of _ 0] exI [of _ s']) (simp add: same_map_def)
  next
    case (mapped s')
    let ?A = "insert (r, page_no va) A"
    have "\<forall>vb \<in> set vas. \<not> is_valid (pte_at r (page_no vb) s')"
      using mapped(5) assms(2) Cons.prems(3,4) by (auto simp: image_iff)
    with Cons.IH [OF mapped(2)] Cons.prems(2,3) obtain res k s'' where
      IH: "uvm_alloc_loop vas oldsz newsz r s' = Some (res, s'')" "k \<le> length vas"
      "own R (?A \<union> pages_of r (take k vas)) s''" "same_data ?A s' s''"
      "\<forall>va \<in> set (take k vas). new_page r (page_no va) s''"
      "\<forall>r' \<in> R. \<forall>v \<in> vpages. (r', v) \<notin> pages_of r (take k vas) \<longrightarrow> pte_at r' v s'' = pte_at r' v s'"
      "res = Ok newsz \<and> k = length vas \<or> (\<exists>e. res = Err e) \<and> k < length vas"
      by auto
    have "new_page r (page_no va) s''"
      using mapped(3) IH(4) new_page_keep by blast
    moreover have "same_data A s s''"
      using mapped(4) same_data_subset [OF IH(4), of A] same_data_trans by blast
    ultimately show ?thesis
      using IH mapped(1,5) by (intro exI [of _ res] exI [of _ "Suc k"] exI [of _ s'']) auto
  qed
qed

lemma align_up_unat:
  assumes "unat a + 4096 \<le> 2 ^ 64"
  shows "unat (mask_align_up a PAGESIZE) = (unat a + 4095) div 4096 * 4096"
  using unat_mask_align_up [of PAGESIZE a] assms by (simp add: param_values)

lemma page_range_low:
  assumes "page_aligned a" "unat b \<le> 2 ^ 38" "unat a \<le> unat b + 4096"
  shows "list_all low_page (page_range a b)" "distinct (map page_no (page_range a b))"
proof -
  define n where "n = (unat b - unat a + 4095) div 4096"
  have pr: "page_range a b = map (next_page a) [0..<n]"
    by (simp add: page_range_def n_def next_page_def)
  have "n * 4096 \<le> unat b - unat a + 4095"
    unfolding n_def by (rule div_times_less_eq_dividend)
  then have top: "unat a + n * 4096 \<le> 2 ^ 39"
    using assms(2,3) by simp
  have "low_page (next_page a k)" if "k < n" for k
  proof -
    have "(k + 1) * 4096 \<le> n * 4096" using that by (intro mult_right_mono) simp_all
    then have k: "unat a + k * 4096 + 4096 \<le> 2 ^ 39" using top by simp
    then have "unat (next_page a k) = unat a + k * 4096" by (intro unat_next_page) simp
    with k assms(1) show ?thesis by (simp add: low_page_def page_aligned_def)
  qed
  then show "list_all low_page (page_range a b)"
    by (simp add: pr list_all_iff)
  show "distinct (map page_no (page_range a b))"
    using distinct_page_nos [OF assms(1) top]
    by (simp add: pr distinct_map comp_def atLeast0LessThan inj_on_def)
qed

lemma align_up_aligned:
  assumes "unat a + 4096 \<le> 2 ^ 64"
  shows "page_aligned (mask_align_up a PAGESIZE)" "unat a \<le> unat (mask_align_up a PAGESIZE)"
    "unat (mask_align_up a PAGESIZE) < unat a + 4096"
  using nat_round_up_ge [of 4096 "unat a"] nat_round_up_less [of 4096 "unat a"]
  by (simp_all add: align_up_unat [OF assms] page_aligned_def)

text \<open>C9: Growing a process (\<open>uvm_alloc\<close>, below \<open>sbrk\<close> and \<open>exec\<close>) over a range of addresses that is
  not mapped never panics and changes no page that was mapped before, of this process or of any
  other, neither its translation nor its contents.  On success every page of the range is mapped
  readable, writable and executable for the user, holds zeros, and sits in a frame that no other
  page and no page table uses.  On failure only some first \<open>k\<close> pages of the range are mapped.\<close>

theorem uvm_alloc_grows:
  assumes "own R A s" "r \<in> R" "oldsz \<le> newsz" "unat newsz \<le> 2 ^ 38"
    "\<forall>va \<in> set (page_range (mask_align_up oldsz PAGESIZE) newsz). \<not> is_valid (pte_at r (page_no va) s)"
  shows "\<exists>res k s'. uvm_alloc r oldsz newsz s = Some (res, s') \<and>
    (let vas = take k (page_range (mask_align_up oldsz PAGESIZE) newsz) in
     own R (A \<union> pages_of r vas) s' \<and> same_data A s s' \<and>
     (\<forall>va \<in> set vas. new_page r (page_no va) s') \<and>
     (\<forall>r' \<in> R. \<forall>v \<in> vpages. (r', v) \<notin> pages_of r vas \<longrightarrow> pte_at r' v s' = pte_at r' v s) \<and>
     (res = Ok newsz \<and> vas = page_range (mask_align_up oldsz PAGESIZE) newsz \<or> (\<exists>e. res = Err e)))"
proof (cases "oldsz = newsz")
  case True
  have "page_range (mask_align_up oldsz PAGESIZE) newsz = []"
    using align_up_aligned(2) [of oldsz] assms(4) True by (simp add: page_range_def)
  with assms(1) True show ?thesis
    by (simp add: uvm_alloc_def same_data_refl)
next
  case False
  let ?vas = "page_range (mask_align_up oldsz PAGESIZE) newsz"
  have "unat oldsz \<le> unat newsz" using assms(3) by (simp add: word_le_nat_alt)
  with assms(4) have o: "unat oldsz + 4096 \<le> 2 ^ 64" "unat oldsz \<le> unat newsz" by simp_all
  note up = align_up_aligned [OF o(1)]
  have low: "list_all low_page ?vas" "distinct (map page_no ?vas)"
    using page_range_low [OF up(1) assms(4)] up(3) o(2) by simp_all
  have le: "mask_align_up oldsz PAGESIZE \<le> newsz \<or> ?vas = []"
    by (auto simp: word_le_nat_alt page_range_def)
  from False assms(3) have eq: "uvm_alloc r oldsz newsz s =
      uvm_alloc_loop ?vas (mask_align_up oldsz PAGESIZE) newsz r s"
    by (simp add: uvm_alloc_def align_up_page)
  from le show ?thesis
  proof
    assume "?vas = []"
    with assms(1) eq show ?thesis by (simp add: same_data_refl)
  next
    assume "mask_align_up oldsz PAGESIZE \<le> newsz"
    from uvm_alloc_loop_law [OF assms(1,2) low assms(5) this] obtain res k s' where
      "uvm_alloc_loop ?vas (mask_align_up oldsz PAGESIZE) newsz r s = Some (res, s')" "k \<le> length ?vas"
      "own R (A \<union> pages_of r (take k ?vas)) s'" "same_data A s s'"
      "\<forall>va \<in> set (take k ?vas). new_page r (page_no va) s'"
      "\<forall>r' \<in> R. \<forall>v \<in> vpages. (r', v) \<notin> pages_of r (take k ?vas) \<longrightarrow> pte_at r' v s' = pte_at r' v s"
      "res = Ok newsz \<and> k = length ?vas \<or> (\<exists>e. res = Err e) \<and> k < length ?vas"
      by blast
    with eq show ?thesis
      by (intro exI [of _ res] exI [of _ k] exI [of _ s']) (auto simp: Let_def)
  qed
qed

section \<open>Shrinking a process\<close>

lemma unmap_step:
  assumes "own R A s" "(r, page_no va) \<in> A"
  obtains s' where "unmap_loop (va # vas) True r s = unmap_loop vas True r s'"
    "own R (A - {(r, page_no va)}) s'" "same_data (A - {(r, page_no va)}) s s'"
    "pte_at r (page_no va) s' = 0"
    "\<forall>r' \<in> R. \<forall>v \<in> vpages. (r', v) \<noteq> (r, page_no va) \<longrightarrow> pte_at r' v s' = pte_at r' v s"
    "free_bytes (heap s') = free_bytes (heap s) \<union> page_block (frame r (page_no va) s)"
proof -
  let ?A = "A - {(r, page_no va)}"
  note m = own_memD [OF assms]
  from m(3) obtain t where walk: "pt_walk r va s = Some (t, get_index va 0)"
    and tab: "tab s r [get_index va 2, get_index va 1] = Some t"
    using pt_walk_pte(2) [of r va s] by (cases "tab s r [get_index va 2, get_index va 1]") (auto simp: pt_walk_tab)
  note pte = pt_walk_pte(1) [OF walk]
  have own: "own R ?A s" using assms(1) by (rule own_subset) blast
  have "fresh_frame R ?A (frame r (page_no va) s) s"
    unfolding fresh_frame_def using m(5,6) own_frame_other [OF assms(1) _ assms(2)] by blast
  with own obtain s1 where s1: "free_page (frame r (page_no va) s) s = Some s1" "own R ?A s1" "same_map R s s1"
    "bytes s1 = bytes s" "tables s1 = tables s"
    "free_bytes (heap s1) = free_bytes (heap s) \<union> page_block (frame r (page_no va) s)"
    by (rule free_page_law)
  let ?s = "set_pte t (get_index va 0) 0 s1"
  have inv: "pt_inv R s1" using s1(2) by (simp add: own_def)
  have tab1: "tab s1 r [get_index va 2, get_index va 1] = Some t"
    using tab tab_cong [OF s1(5)] by simp
  note leaf = inv m(1) index_path(1) tab1
  have new: "pte_at r' v ?s = (if r' = r \<and> v = page_no va then 0 else pte_at r' v s1)"
    if "r' \<in> R" "v \<in> vpages" for r' v
    using pte_at_set_leaf [OF leaf that] by (simp add: page_no_def)
  have keep: "\<forall>r' v. (r', v) \<in> ?A \<longrightarrow> pte_at r' v ?s = pte_at r' v s1"
    using new own_memD(1,2) [OF assms(1)] by auto
  have own': "own R ?A ?s"
    using own_keep(1) [OF s1(2) pt_inv_set_leaf [OF leaf] keep] own_memD(5,6) [OF s1(2)] tabs_set_leaf [OF leaf]
    by simp
  have "same_data ?A s ?s"
    using s1(3,4) keep own_memD(1,2) [OF assms(1)] by (intro same_data_map) (auto simp: same_map_def)
  moreover have "unmap_loop (va # vas) True r s = unmap_loop vas True r ?s"
    using walk m(3,4) s1(1) by (simp add: pte frame_def)
  ultimately show thesis
    using that [of ?s] own' new s1(3,6) m(1,2) by (simp add: same_map_def)
qed

lemma unmap_loop_law:
  assumes "own R A s" "pages_of r vas \<subseteq> A" "distinct (map page_no vas)"
  shows "\<exists>s'. unmap_loop vas True r s = Some (Ok (), s') \<and> own R (A - pages_of r vas) s' \<and>
    same_data (A - pages_of r vas) s s' \<and> (\<forall>va \<in> set vas. pte_at r (page_no va) s' = 0) \<and>
    (\<forall>r' \<in> R. \<forall>v \<in> vpages. (r', v) \<notin> pages_of r vas \<longrightarrow> pte_at r' v s' = pte_at r' v s) \<and>
    free_bytes (heap s') = free_bytes (heap s) \<union> (\<Union>va \<in> set vas. page_block (frame r (page_no va) s))"
  using assms
proof (induction vas arbitrary: A s)
  case Nil
  then show ?case by (simp add: same_data_refl)
next
  case (Cons va vas)
  let ?A = "A - {(r, page_no va)}"
  have "(r, page_no va) \<in> A" using Cons.prems(2) by simp
  with Cons.prems(1) obtain s1 where s1: "unmap_loop (va # vas) True r s = unmap_loop vas True r s1"
    "own R ?A s1" "same_data ?A s s1" "pte_at r (page_no va) s1 = 0"
    "\<forall>r' \<in> R. \<forall>v \<in> vpages. (r', v) \<noteq> (r, page_no va) \<longrightarrow> pte_at r' v s1 = pte_at r' v s"
    "free_bytes (heap s1) = free_bytes (heap s) \<union> page_block (frame r (page_no va) s)"
    by (rule unmap_step)
  have va: "(r, page_no va) \<notin> pages_of r vas" "r \<in> R"
    using Cons.prems(3) own_memD(1) [OF Cons.prems(1) \<open>(r, page_no va) \<in> A\<close>] by (auto simp: pages_of_def)
  then have "pages_of r vas \<subseteq> ?A" "distinct (map page_no vas)"
    using Cons.prems(2,3) by auto
  from Cons.IH [OF s1(2) this] obtain s2 where s2: "unmap_loop vas True r s1 = Some (Ok (), s2)"
    "own R (?A - pages_of r vas) s2" "same_data (?A - pages_of r vas) s1 s2"
    "\<forall>va \<in> set vas. pte_at r (page_no va) s2 = 0"
    "\<forall>r' \<in> R. \<forall>v \<in> vpages. (r', v) \<notin> pages_of r vas \<longrightarrow> pte_at r' v s2 = pte_at r' v s1"
    "free_bytes (heap s2) = free_bytes (heap s1) \<union> (\<Union>va \<in> set vas. page_block (frame r (page_no va) s1))"
    by blast
  have eq: "A - pages_of r (va # vas) = ?A - pages_of r vas" by auto
  have "same_data (?A - pages_of r vas) s s2"
    using same_data_subset [OF s1(3) Diff_subset] s2(3) by (rule same_data_trans)
  moreover have "frame r (page_no vb) s1 = frame r (page_no vb) s" if "vb \<in> set vas" for vb
  proof -
    have "page_no vb \<noteq> page_no va" using Cons.prems(3) that by (auto simp: image_iff)
    with s1(5) va(2) show ?thesis by (simp add: frame_def)
  qed
  moreover have "pte_at r (page_no va) s2 = 0"
    using s2(5) va s1(4) by simp
  ultimately show ?case
    using s1 s2 unfolding eq by auto
qed

lemma page_aligned_mod: "page_aligned a \<longleftrightarrow> a mod PAGESIZE = 0"
proof -
  have "unat (a mod PAGESIZE) = unat a mod 4096"
    by (simp add: param_values unat_mod_distrib)
  then show ?thesis
    unfolding page_aligned_def dvd_eq_mod_eq_0 by (metis unsigned_eq_0_iff)
qed

lemma walk_addr_Ok_iff:
  "walk_addr r va s = Ok pa \<longleftrightarrow> is_valid (pte_at r (page_no va) s) \<and> is_user (pte_at r (page_no va) s) \<and>
     pa = as_phys_addr (pte_at r (page_no va) s)"
proof (cases "pt_walk r va s")
  case None
  with pt_walk_pte(2) [OF None] show ?thesis by (simp add: walk_addr_def)
next
  case (Some e)
  moreover obtain t i where "e = (t, i)" by (cases e)
  ultimately show ?thesis
    using pt_walk_pte(1) [of r va s t i] by (auto simp: walk_addr_def Let_def)
qed

lemma round_up_mono: "a \<le> b \<Longrightarrow> (a + 4095) div 4096 * 4096 \<le> (b + 4095 :: nat) div 4096 * 4096"
  by (intro mult_right_mono div_le_mono) simp_all

lemma unmap_pages_range:
  assumes "page_aligned va" "unat va + n * 4096 < 2 ^ 64"
  shows "unmap_pages r va (of_nat n) freeing s = unmap_loop (map (next_page va) [0..<n]) freeing r s"
proof -
  have "unat (va + of_nat n * PAGESIZE) = unat va + n * 4096"
    using unat_next_page [OF assms(2)] by (simp add: next_page_def)
  from page_range_pages [OF assms(1) this] assms(1) show ?thesis
    by (simp add: unmap_pages_def page_aligned_mod)
qed

text \<open>C10: Shrinking a process (\<open>uvm_dealloc\<close>) whose pages between the two sizes are its own
  never fails: it unmaps exactly the pages from the rounded new size to the rounded old
  size, returns exactly their frames to the free list, and leaves the translation and the
  contents of every other page alone.\<close>

theorem uvm_dealloc_shrinks:
  assumes "own R A s" "newsz < oldsz" "unat oldsz \<le> 2 ^ 38"
    "pages_of r (page_range (mask_align_up newsz PAGESIZE) (mask_align_up oldsz PAGESIZE)) \<subseteq> A"
  shows "\<exists>s'. uvm_dealloc r oldsz newsz s = Some (Ok (mask_align_up newsz PAGESIZE), s') \<and>
    (let vas = page_range (mask_align_up newsz PAGESIZE) (mask_align_up oldsz PAGESIZE) in
     own R (A - pages_of r vas) s' \<and> same_data (A - pages_of r vas) s s' \<and>
     (\<forall>va \<in> set vas. \<exists>e. walk_addr r va s' = Err e) \<and>
     (\<forall>r' \<in> R. \<forall>v \<in> vpages. (r', v) \<notin> pages_of r vas \<longrightarrow> pte_at r' v s' = pte_at r' v s) \<and>
     free_bytes (heap s') = free_bytes (heap s) \<union> (\<Union>va \<in> set vas. page_block (frame r (page_no va) s)))"
proof -
  let ?a = "mask_align_up newsz PAGESIZE" and ?b = "mask_align_up oldsz PAGESIZE"
  let ?vas = "page_range ?a ?b"
  have "unat newsz < unat oldsz" using assms(2) by (simp add: word_less_nat_alt)
  with assms(3) have lt: "unat newsz \<le> unat oldsz" "unat newsz + 4096 \<le> 2 ^ 64" "unat oldsz + 4096 \<le> 2 ^ 64"
    by simp_all
  note a = align_up_aligned(1) [OF lt(2)] and b = align_up_aligned(1,3) [OF lt(3)]
  have ab: "unat ?a \<le> unat ?b"
    unfolding align_up_unat [OF lt(2)] align_up_unat [OF lt(3)] by (rule round_up_mono) (rule lt(1))
  define n where "n = (unat ?b - unat ?a) div 4096"
  have n: "unat ?b = unat ?a + n * 4096"
    using a b(1) ab by (auto simp: n_def page_aligned_def)
  have un: "unat ((?b - ?a) div PAGESIZE) = n"
    using ab by (simp add: n_def unat_div_distrib unat_minus_no_underflow param_values)
  have div: "(?b - ?a) div PAGESIZE = of_nat n"
    unfolding un [symmetric] by simp
  have top: "unat ?a + n * 4096 \<le> 2 ^ 39"
    using n b(2) assms(3) by simp
  have vas: "?vas = map (next_page ?a) [0..<n]"
    using page_range_pages [OF a n] .
  have "distinct (map page_no ?vas)"
    using distinct_page_nos [OF a top] by (simp add: vas distinct_map comp_def atLeast0LessThan inj_on_def)
  from unmap_loop_law [OF assms(1,4) this] obtain s' where s': "unmap_loop ?vas True r s = Some (Ok (), s')"
    "own R (A - pages_of r ?vas) s'" "same_data (A - pages_of r ?vas) s s'"
    "\<forall>va \<in> set ?vas. pte_at r (page_no va) s' = 0"
    "\<forall>r' \<in> R. \<forall>v \<in> vpages. (r', v) \<notin> pages_of r ?vas \<longrightarrow> pte_at r' v s' = pte_at r' v s"
    "free_bytes (heap s') = free_bytes (heap s) \<union> (\<Union>va \<in> set ?vas. page_block (frame r (page_no va) s))"
    by blast
  have "\<forall>va \<in> set ?vas. \<exists>e. walk_addr r va s' = Err e"
    using s'(4) walk_addr_Ok_iff [of r _ s'] by (metis not_valid_0 sum.exhaust)
  moreover have "uvm_dealloc r oldsz newsz s = Some (Ok ?a, s')"
  proof (cases "?a < ?b")
    case True
    then show ?thesis
      using not_le [THEN iffD2, OF assms(2)] s'(1) unmap_pages_range [OF a, of n r True s] top
      by (simp add: uvm_dealloc_def align_up_page div vas)
  next
    case False
    then have "n = 0" using n by (simp add: word_less_nat_alt)
    then show ?thesis
      using False not_le [THEN iffD2, OF assms(2)] s'(1) by (simp add: uvm_dealloc_def align_up_page vas)
  qed
  ultimately show ?thesis
    using s' unfolding Let_def by blast
qed

section \<open>The memory a process sees\<close>

definition user_byte :: "usize \<Rightarrow> usize \<Rightarrow> 'z vm_scheme \<Rightarrow> u8 option" where
  "user_byte r va s = (case walk_addr r (page_base va) s of
     Err _ \<Rightarrow> None | Ok pa \<Rightarrow> Some (bytes s (pa + (va - page_base va))))"

text \<open>Addresses with the same low 39 bits are the same to the page tables.\<close>

definition lin :: "usize \<Rightarrow> nat" where
  "lin va = unat va mod 2 ^ 39"

lemma lin_add: "lin (va + of_nat i) = (unat va + i) mod 2 ^ 39"
proof -
  have "unat (va + of_nat i) = (unat va + i) mod 2 ^ 64"
    by (simp add: unat_word_ariths unat_of_nat mod_add_right_eq)
  moreover have "(2 :: nat) ^ 39 dvd 2 ^ 64" by (rule le_imp_power_dvd) simp
  ultimately show ?thesis
    unfolding lin_def by (simp only: mod_mod_cancel)
qed

lemma page_offset_word: "va - page_base va = of_nat (unat va mod 4096)"
  unfolding unat_page_offset [symmetric] by simp

lemma page_add:
  assumes "i < 4096 - unat va mod 4096"
  shows "unat (va + of_nat i) = unat va + i" "page_base (va + of_nat i) = page_base va"
    "unat (va + of_nat i) mod 4096 = unat va mod 4096 + i"
proof -
  obtain q m where qm: "unat va = 4096 * q + m" "m < 4096" "unat va mod 4096 = m" "unat va div 4096 = q"
    by (metis mod_less_divisor mult_div_mod_eq zero_less_numeral)
  have "4096 * q < 4096 * 4503599627370496"
    using qm(1) unat_lt_64 [of va] by linarith
  then have "q < 4503599627370496" by (simp only: mult_less_cancel1)
  then have "unat va + i < 2 ^ 64"
    using assms unfolding qm(3) unfolding qm(1) by simp
  then show u: "unat (va + of_nat i) = unat va + i"
    by (subst unat_plus_no_overflow) (simp_all add: unat_of_nat)
  have v: "unat (va + of_nat i) = 4096 * q + (m + i)"
    unfolding u qm(1) by simp
  have lt: "m + i < 4096" using assms qm(2,3) by simp
  show "unat (va + of_nat i) mod 4096 = unat va mod 4096 + i"
    unfolding v qm(3) using lt by simp
  have "unat (va + of_nat i) div 4096 = unat va div 4096"
    unfolding v qm(4) using lt by simp
  then have "unat (page_base (va + of_nat i)) = unat (page_base va)"
    by (simp only: unat_page_base)
  then show "page_base (va + of_nat i) = page_base va"
    by (rule unsigned_word_eqI)
qed

lemma page_end: "page_base va + PAGESIZE = va + of_nat (4096 - unat va mod 4096)"
proof -
  have "of_nat (4096 - unat va mod 4096) = PAGESIZE - (of_nat (unat va mod 4096) :: usize)"
    by (simp add: of_nat_diff param_values)
  moreover have "page_base va = va - of_nat (unat va mod 4096)"
    using page_offset_word [of va] by (simp add: algebra_simps)
  ultimately show ?thesis by simp
qed

lemma user_byte_page:
  assumes "i < 4096 - unat va mod 4096"
  shows "user_byte r (va + of_nat i) s = (case walk_addr r (page_base va) s of
     Err _ \<Rightarrow> None | Ok pa \<Rightarrow> Some (bytes s (pa + (va - page_base va) + of_nat i)))"
  unfolding user_byte_def page_add(2) [OF assms] by (simp add: algebra_simps split: sum.splits)

section \<open>Copying in\<close>

lemma copy_in_law:
  "\<exists>res bs. copy_in r va n s = (res, bs) \<and> length bs \<le> unat n \<and>
     (\<forall>i < length bs. user_byte r (va + of_nat i) s = Some (bs ! i)) \<and>
     (res = Ok () \<and> length bs = unat n \<or>
      (\<exists>e. res = Err e) \<and> length bs < unat n \<and> user_byte r (va + of_nat (length bs)) s = None)"
proof (induction r va n s rule: copy_in.induct)
  case (1 r va n s)
  show ?case
  proof (cases "0 < n")
    case False
    then show ?thesis by (subst copy_in.simps) (simp add: word_gt_0)
  next
    case True
    show ?thesis
    proof (cases "walk_addr r (page_base va) s")
      case (Inl e)
      with True user_byte_page [of 0 va r s] show ?thesis
        by (subst copy_in.simps) (simp add: word_less_nat_alt)
    next
      case (Inr pa)
      let ?d = "va - page_base va"
      let ?m = "min (PAGESIZE - ?d) n"
      note m = copy_step [OF True, of va]
      obtain res bs where IH: "copy_in r (page_base va + PAGESIZE) (n - ?m) s = (res, bs)"
        "length bs \<le> unat (n - ?m)"
        "\<forall>i < length bs. user_byte r (page_base va + PAGESIZE + of_nat i) s = Some (bs ! i)"
        "res = Ok () \<and> length bs = unat (n - ?m) \<or> (\<exists>e. res = Err e) \<and> length bs < unat (n - ?m) \<and>
           user_byte r (page_base va + PAGESIZE + of_nat (length bs)) s = None"
        using 1 [OF True refl refl Inr refl] by blast
      let ?bs = "load_bytes (pa + ?d) (unat ?m) s @ bs"
      have eq: "copy_in r va n s = (res, ?bs)"
        using True Inr IH(1) by (subst copy_in.simps) (simp add: Let_def)
      have far: "page_base va + PAGESIZE + of_nat i = va + of_nat (unat ?m + i)" if "0 < unat (n - ?m)" for i
        using that m unfolding page_end by (simp add: min_def split: if_splits)
      have "user_byte r (va + of_nat i) s = Some (?bs ! i)" if "i < length ?bs" for i
      proof (cases "i < unat ?m")
        case True
        with m(3) user_byte_page [of i va r s] Inr show ?thesis
          by (simp add: nth_append load_bytes_def)
      next
        case False
        with that have "0 < unat (n - ?m)" "i - unat ?m < length bs"
          using IH(2) by (auto simp: load_bytes_def)
        moreover from this far [of "i - unat ?m"] False
        have "page_base va + PAGESIZE + of_nat (i - unat ?m) = va + of_nat i"
          by (simp only: not_less le_add_diff_inverse)
        moreover have "?bs ! i = bs ! (i - unat ?m)"
          using False by (simp add: nth_append load_bytes_def)
        ultimately show ?thesis
          using IH(3) by metis
      qed
      moreover have len: "length ?bs = unat ?m + length bs" by (simp add: load_bytes_def)
      have le: "unat ?m \<le> unat n" using m(3) by simp
      have "length ?bs \<le> unat n"
        using IH(2) le unfolding len m(2) by linarith
      moreover from IH(4) have "res = Ok () \<and> length ?bs = unat n \<or>
          (\<exists>e. res = Err e) \<and> length ?bs < unat n \<and> user_byte r (va + of_nat (length ?bs)) s = None"
      proof
        assume "res = Ok () \<and> length bs = unat (n - ?m)"
        then show ?thesis using le unfolding len m(2) by simp
      next
        assume a: "(\<exists>e. res = Err e) \<and> length bs < unat (n - ?m) \<and>
           user_byte r (page_base va + PAGESIZE + of_nat (length bs)) s = None"
        then have "0 < unat (n - ?m)" by linarith
        from far [OF this, of "length bs"] a have "user_byte r (va + of_nat (length ?bs)) s = None"
          unfolding len by metis
        moreover have "length ?bs < unat n" using a le unfolding len m(2) by linarith
        ultimately show ?thesis using a by blast
      qed
      ultimately show ?thesis
        using eq by blast
    qed
  qed
qed

section \<open>Copying out\<close>

definition user_owned :: "usize set \<Rightarrow> (usize \<times> vpn) set \<Rightarrow> 'z vm_scheme \<Rightarrow> bool" where
  "user_owned R A s \<longleftrightarrow> own R A s \<and>
     (\<forall>r \<in> R. \<forall>v \<in> vpages. is_valid (pte_at r v s) \<longrightarrow> is_user (pte_at r v s) \<longrightarrow> (r, v) \<in> A)"

lemma store_bytes_simps [simp]:
  "heap (store_bytes pa bs s) = heap s" "tables (store_bytes pa bs s) = tables s"
  by (simp_all add: store_bytes_def)

lemma store_bytes_maps:
  "tab (store_bytes pa bs s) = tab s" "pte_at r v (store_bytes pa bs s) = pte_at r v s"
  "walk_addr r va (store_bytes pa bs s) = walk_addr r va s"
proof -
  show t: "tab (store_bytes pa bs s) = tab s" by (intro ext tab_cong) simp
  show "pte_at r v (store_bytes pa bs s) = pte_at r v s"
    by (simp add: pte_at_def t split: vpn.splits option.splits)
  show "walk_addr r va (store_bytes pa bs s) = walk_addr r va s"
    by (simp add: walk_addr_def pt_walk_tab t split: option.splits)
qed

lemma own_store:
  assumes "own R A s"
  shows "own R A (store_bytes p bs s)" "same_map R s (store_bytes p bs s)"
    "fresh_frame R A q s \<Longrightarrow> fresh_frame R A q (store_bytes p bs s)"
proof -
  let ?s = "store_bytes p bs s"
  have inv: "pt_inv R s" using assms by (simp add: own_def)
  then have "wf_free (heap s)" by (simp add: pt_inv_def)
  then have i: "pt_inv R ?s" "tabs R ?s = tabs R s"
    using pt_inv_shrink(1,2) [OF inv, of ?s] by simp_all
  show "own R A ?s"
    using own_keep(1) [OF assms i(1)] own_memD(5,6) [OF assms] by (simp add: store_bytes_maps i(2) held_page_def)
  show "same_map R s ?s" by (simp add: same_map_def store_bytes_maps)
  show "fresh_frame R A q s \<Longrightarrow> fresh_frame R A q ?s"
    by (simp add: fresh_frame_def held_page_def i(2) frame_def store_bytes_maps)
qed

lemma user_owned_store:
  assumes "user_owned R A s"
  shows "user_owned R A (store_bytes pa bs s)"
proof -
  have "own R A (store_bytes pa bs s)"
    using assms own_store(1) [of R A s] by (simp add: user_owned_def)
  then show ?thesis
    using assms by (simp add: user_owned_def store_bytes_maps)
qed

lemma word_distance:
  assumes "unat (a :: usize) < 2 ^ 63" "unat b < 2 ^ 63" "m \<le> 4096"
  shows "unat (a - b) < m \<longleftrightarrow> unat b \<le> unat a \<and> unat a < unat b + m"
proof (cases "unat b \<le> unat a")
  case True
  then show ?thesis by (auto simp: unat_minus_no_underflow)
next
  case False
  then have "unat (a - b) = unat a + 2 ^ 64 - unat b"
    by (simp add: unat_sub_if_size word_size)
  with False assms show ?thesis by simp
qed

lemma store_bytes_page:
  assumes "block_fits p page_layout" "block_fits q page_layout" "d + length bs \<le> 4096" "j < 4096"
  shows "bytes (store_bytes (p + of_nat d) bs s) (q + of_nat j) =
    (if p = q \<and> d \<le> j \<and> j < d + length bs then bs ! (j - d) else bytes s (q + of_nat j))"
proof (cases "bs = []")
  case True
  then show ?thesis by (auto simp: store_bytes_def)
next
  case False
  then have d: "d < 4096" using assms(3) by (cases bs) auto
  note u = page_offset [OF assms(1) d] page_offset [OF assms(2,4)]
  have b: "unat p + 4096 \<le> 2 ^ 63" "unat q + 4096 \<le> 2 ^ 63" using fits_page assms(1,2) by blast+
  have w: "unat (q + of_nat j - (p + of_nat d)) < length bs \<longleftrightarrow>
      unat p + d \<le> unat q + j \<and> unat q + j < unat p + d + length bs"
    using b d assms(3,4) u word_distance [of "q + of_nat j" "p + of_nat d" "length bs"] by simp
  show ?thesis
  proof (cases "p = q")
    case True
    moreover have "unat (q + of_nat j - (q + of_nat d)) = j - d" if "d \<le> j"
      using that u True by (subst unat_minus_no_underflow) simp_all
    ultimately show ?thesis
      using w by (auto simp: store_bytes_def)
  next
    case False
    have "page_block p \<inter> page_block q = {}"
      using pages_disjoint [OF _ _ False] fits_page assms(1,2) by blast
    moreover have "unat q + j \<in> page_block q"
      using assms(4) by (simp add: page_block_def)
    ultimately have "unat q + j \<notin> page_block p" by blast
    then have "\<not> (unat p + d \<le> unat q + j \<and> unat q + j < unat p + d + length bs)"
      using assms(3) by (auto simp: page_block_def)
    with w False show ?thesis by (simp add: store_bytes_def)
  qed
qed

lemma user_byte_eq:
  "user_byte r x s = (let d = pte_at r (page_no x) s in
     if is_valid d \<and> is_user d then Some (bytes s (as_phys_addr d + of_nat (unat x mod 4096))) else None)"
proof (cases "walk_addr r (page_base x) s")
  case (Inl e)
  then show ?thesis
    using walk_addr_Ok_iff [of r "page_base x" s] by (auto simp: user_byte_def Let_def)
next
  case (Inr pa)
  then show ?thesis
    using walk_addr_Ok_iff [of r "page_base x" s pa]
    by (simp add: user_byte_def Let_def page_offset_word)
qed

lemma lin_cell: "lin x = lin y \<longleftrightarrow> page_no x = page_no y \<and> unat x mod 4096 = unat y mod 4096"
proof -
  have "(2 :: nat) ^ 39 = 4096 * 134217728" by simp
  then have l: "lin z = 4096 * (unat z div 4096 mod 134217728) + unat z mod 4096" for z
    unfolding lin_def by (simp only: mod_mult2_eq)
  have "4096 * a + b = 4096 * a' + b' \<longleftrightarrow> a = a' \<and> b = b'" if "b < 4096" "b' < 4096" for a b a' b' :: nat
    using that by (metis div_mult_self4 mod_mult_self4 div_less mod_less add_0_right mult.commute zero_neq_numeral)
  then show ?thesis
    unfolding l page_no_eq_iff by simp
qed

text \<open>The effect of storing the part of a copy that lies in one page.\<close>

lemma user_byte_store:
  assumes "user_owned R A s" "r \<in> R" "walk_addr r (page_base va) s = Ok pa"
    "length bs \<le> 4096 - unat va mod 4096" and s': "s' = store_bytes (pa + (va - page_base va)) bs s"
  shows "i < length bs \<Longrightarrow> user_byte r (va + of_nat i) s' = Some (bs ! i)"
    and "r' \<in> R \<Longrightarrow> (r' = r \<Longrightarrow> \<forall>i < length bs. lin x \<noteq> lin (va + of_nat i)) \<Longrightarrow> user_byte r' x s' = user_byte r' x s"
proof -
  let ?d = "unat va mod 4096"
  have own: "own R A s" using assms(1) by (simp add: user_owned_def)
  have pte: "is_valid (pte_at r (page_no va) s)" "is_user (pte_at r (page_no va) s)" "pa = frame r (page_no va) s"
    using assms(3) walk_addr_Ok_iff [of r "page_base va" s pa] by (simp_all add: frame_def)
  then have A: "(r, page_no va) \<in> A" using assms(1,2) by (simp add: user_owned_def)
  have pa: "block_fits pa page_layout" using own_fits [OF own A] pte(3) by simp
  have d: "?d + length bs \<le> 4096" using assms(4) by simp
  have sb: "bytes s' (q + of_nat j) = (if pa = q \<and> ?d \<le> j \<and> j < ?d + length bs then bs ! (j - ?d) else bytes s (q + of_nat j))"
    if "block_fits q page_layout" "j < 4096" for q j
    unfolding s' page_offset_word using store_bytes_page [OF pa that(1) d that(2)] .
  have pte': "\<And>r v. pte_at r v s' = pte_at r v s"
    by (simp add: s' store_bytes_maps)
  show "user_byte r (va + of_nat i) s' = Some (bs ! i)" if "i < length bs"
  proof -
    have i: "i < 4096 - ?d" using that assms(4) by simp
    have "page_no (va + of_nat i) = page_no va"
      using page_no_base [of "va + of_nat i"] page_no_base [of va] page_add(2) [OF i] by simp
    with sb [OF pa, of "?d + i"] i that pte(1,2) show ?thesis
      unfolding user_byte_eq Let_def page_add(3) [OF i] pte' by (simp add: pte(3) frame_def)
  qed
  show "user_byte r' x s' = user_byte r' x s"
    if r': "r' \<in> R" and out: "r' = r \<Longrightarrow> \<forall>i < length bs. lin x \<noteq> lin (va + of_nat i)"
  proof (cases "is_valid (pte_at r' (page_no x) s) \<and> is_user (pte_at r' (page_no x) s)")
    case True
    then have B: "(r', page_no x) \<in> A" using assms(1) r' by (simp add: user_owned_def)
    have nb: "\<not> (pa = frame r' (page_no x) s \<and> ?d \<le> unat x mod 4096 \<and> unat x mod 4096 < ?d + length bs)"
    proof
      assume a: "pa = frame r' (page_no x) s \<and> ?d \<le> unat x mod 4096 \<and> unat x mod 4096 < ?d + length bs"
      then have "(r, page_no va) = (r', page_no x)"
        using own_frame_other [OF own A B] pte(3) by argo
      then have eq: "r' = r" "page_no x = page_no va" by simp_all
      let ?i = "unat x mod 4096 - ?d"
      have i: "?i < length bs" "?i < 4096 - ?d" using a assms(4) by auto
      have "page_no (va + of_nat ?i) = page_no va"
        using page_no_base [of "va + of_nat ?i"] page_no_base [of va] page_add(2) [OF i(2)] by simp
      then have "lin x = lin (va + of_nat ?i)"
        unfolding lin_cell page_add(3) [OF i(2)] using eq(2) a by simp
      with out [OF eq(1)] i(1) show False by blast
    qed
    have "unat x mod 4096 < 4096" by simp
    from sb [OF own_fits [OF own B] this] nb
    have "bytes s' (frame r' (page_no x) s + of_nat (unat x mod 4096)) =
        bytes s (frame r' (page_no x) s + of_nat (unat x mod 4096))"
      by (simp only: if_False)
    then show ?thesis
      unfolding user_byte_eq Let_def pte' frame_def by simp
  next
    case False
    then show ?thesis unfolding user_byte_eq Let_def pte' by (simp only: if_False)
  qed
qed

lemma lin_apart:
  assumes "i < m" "m + j < 2 ^ 39"
  shows "lin (va + of_nat i) \<noteq> lin (va + of_nat (m + j))"
proof
  assume "lin (va + of_nat i) = lin (va + of_nat (m + j))"
  then have "(unat va + i) mod 2 ^ 39 = (unat va + (m + j)) mod 2 ^ 39"
    unfolding lin_add .
  then have "2 ^ 39 dvd (unat va + (m + j)) - (unat va + i)"
    using assms(1) by (metis mod_eq_dvd_iff_nat add_le_cancel_left less_imp_le trans_le_add1)
  then have "2 ^ 39 dvd m + j - i" by simp
  with assms show False by (simp add: nat_dvd_not_less)
qed

definition copied_out :: "usize set \<Rightarrow> usize \<Rightarrow> usize \<Rightarrow> u8 list \<Rightarrow> nat \<Rightarrow> 'z vm_scheme \<Rightarrow> 'z vm_scheme \<Rightarrow> bool" where
  "copied_out R r va src k s s' \<longleftrightarrow>
     (\<forall>i < k. user_byte r (va + of_nat i) s' = Some (src ! i)) \<and>
     (\<forall>r' \<in> R. \<forall>x. (r' = r \<longrightarrow> (\<forall>i < k. lin x \<noteq> lin (va + of_nat i))) \<longrightarrow> user_byte r' x s' = user_byte r' x s)"

lemma copied_out_append:
  assumes "copied_out R r va src m s s1" "copied_out R r (va + of_nat m) (drop m src) k s1 s2"
    "m + k \<le> 2 ^ 39" "m + k \<le> length src" "r \<in> R"
  shows "copied_out R r va src (m + k) s s2"
proof -
  have w: "\<And>j. va + of_nat m + of_nat j = va + of_nat (m + j)" by (simp add: algebra_simps)
  note c1 = assms(1) [unfolded copied_out_def] and c2 = assms(2) [unfolded copied_out_def w]
  have "user_byte r (va + of_nat i) s2 = Some (src ! i)" if "i < m + k" for i
  proof (cases "i < m")
    case True
    have "\<forall>j < k. lin (va + of_nat i) \<noteq> lin (va + of_nat (m + j))"
      using lin_apart [OF True] assms(3) by auto
    with c1 c2 True assms(5) show ?thesis by metis
  next
    case False
    then have "i - m < k" "m + (i - m) = i" using that by auto
    with c2 have "user_byte r (va + of_nat i) s2 = Some (drop m src ! (i - m))" by metis
    with assms(4) that False show ?thesis by simp
  qed
  moreover have "user_byte r' x s2 = user_byte r' x s"
    if "r' \<in> R" "r' = r \<longrightarrow> (\<forall>i < m + k. lin x \<noteq> lin (va + of_nat i))" for r' x
  proof -
    have "user_byte r' x s2 = user_byte r' x s1"
    proof -
      have "r' = r \<longrightarrow> (\<forall>i < k. lin x \<noteq> lin (va + of_nat (m + i)))"
        using that(2) by (metis nat_add_left_cancel_less)
      with c2 that(1) show ?thesis by blast
    qed
    also have "\<dots> = user_byte r' x s"
      using c1 that by auto
    finally show ?thesis .
  qed
  ultimately show ?thesis unfolding copied_out_def by blast
qed

lemma copy_out_law:
  assumes "user_owned R A s" "r \<in> R" "length src = unat n" "unat n \<le> 2 ^ 39"
  shows "\<exists>res k s'. copy_out r va src n s = (res, s') \<and> k \<le> unat n \<and> user_owned R A s' \<and>
     copied_out R r va src k s s' \<and>
     (res = Ok () \<and> k = unat n \<or> (\<exists>e. res = Err e) \<and> k < unat n \<and> user_byte r (va + of_nat k) s = None)"
  using assms
proof (induction r va src n s rule: copy_out.induct)
  case (1 r va src n s)
  show ?case
  proof (cases "0 < n")
    case False
    then have "copy_out r va src n s = (Ok (), s)" by (subst copy_out.simps) simp
    with False 1(2) show ?thesis by (simp add: copied_out_def word_gt_0)
  next
    case True
    show ?thesis
    proof (cases "walk_addr r (page_base va) s")
      case (Inl e)
      have "copy_out r va src n s = (Err e, s)"
        by (subst copy_out.simps) (simp add: True Inl Let_def)
      with True 1(2) user_byte_page [of 0 va r s] Inl show ?thesis
        by (intro exI [of _ "Err e"] exI [of _ 0] exI [of _ s])
          (simp add: word_less_nat_alt copied_out_def)
    next
      case (Inr pa)
      let ?d = "va - page_base va"
      let ?m = "min (PAGESIZE - ?d) n"
      let ?s = "store_bytes (pa + ?d) (take (unat ?m) src) s"
      note m = copy_step [OF True, of va]
      have le: "unat ?m \<le> unat n" using m(3) by simp
      have len: "length (take (unat ?m) src) = unat ?m" using 1(4) le by simp
      have l2: "length (drop (unat ?m) src) = unat (n - ?m)" and l3: "unat (n - ?m) \<le> 2 ^ 39"
        using 1(4,5) unfolding m(2) by simp_all
      have first: "copied_out R r va src (unat ?m) s ?s"
        using user_byte_store [OF 1(2,3) Inr _ refl, of "take (unat ?m) src"] m(3)
        unfolding copied_out_def len by simp
      obtain res k s' where IH: "copy_out r (page_base va + PAGESIZE) (drop (unat ?m) src) (n - ?m) ?s = (res, s')"
        "k \<le> unat (n - ?m)" "user_owned R A s'"
        "copied_out R r (page_base va + PAGESIZE) (drop (unat ?m) src) k ?s s'"
        "res = Ok () \<and> k = unat (n - ?m) \<or> (\<exists>e. res = Err e) \<and> k < unat (n - ?m) \<and>
           user_byte r (page_base va + PAGESIZE + of_nat k) ?s = None"
        using 1(1) [OF True refl refl Inr refl user_owned_store [OF 1(2)] 1(3) l2 l3] by blast
      have eq: "copy_out r va src n s = (res, s')"
        using True Inr IH(1) by (subst copy_out.simps) (simp add: Let_def)
      have far: "page_base va + PAGESIZE = va + of_nat (unat ?m)" if "0 < unat (n - ?m)"
        using that m unfolding page_end by (simp add: min_def split: if_splits)
      show ?thesis
      proof (cases "0 < unat (n - ?m)")
        case True
        note far = far [OF True]
        have k: "unat ?m + k \<le> unat n" using IH(2) le unfolding m(2) by linarith
        from copied_out_append [OF first IH(4) [unfolded far]] k 1(3,4,5)
        have out: "copied_out R r va src (unat ?m + k) s s'" by simp
        have "user_byte r (va + of_nat (unat ?m + k)) ?s = user_byte r (va + of_nat (unat ?m + k)) s" if "k < unat (n - ?m)"
        proof -
          have "unat ?m + k < 2 ^ 39" using that 1(5) le unfolding m(2) by linarith
          then have "\<forall>i < unat ?m. lin (va + of_nat (unat ?m + k)) \<noteq> lin (va + of_nat i)"
            using lin_apart [of _ "unat ?m" k va] by metis
          with first 1(3) show ?thesis unfolding copied_out_def by blast
        qed
        with IH(5) k le have "res = Ok () \<and> unat ?m + k = unat n \<or> (\<exists>e. res = Err e) \<and> unat ?m + k < unat n \<and>
            user_byte r (va + of_nat (unat ?m + k)) s = None"
          unfolding far m(2) by (auto simp: add.assoc)
        with eq k IH(3) out show ?thesis by blast
      next
        case False
        then have z: "n - ?m = 0" "k = 0" "unat ?m = unat n"
          using IH(2) le m(2) by (simp_all add: unsigned_eq_0_iff)
        then have "s' = ?s" "res = Ok ()"
          using IH(1,5) False by (simp_all add: copy_out.simps [of _ _ _ 0])
        with eq first z(3) IH(3) show ?thesis by auto
      qed
    qed
  qed
qed

text \<open>C11: \<open>copy_out\<close> followed by \<open>copy_in\<close> gives back the bytes.  When every user page has a frame of
  its own, a copy to user memory either stores all bytes, or fails at the first byte that is not
  mapped for the user with exactly the bytes before it stored; memory outside the written
  range, of this process and of every other, is as before; and after a full copy, \<open>copy_in\<close> from
  the same address returns the bytes.\<close>

theorem copy_out_copy_in:
  assumes "user_owned R A s" "r \<in> R" "length src = unat n" "unat n \<le> 2 ^ 39"
  shows "\<exists>res k s'. copy_out r va src n s = (res, s') \<and> user_owned R A s' \<and> copied_out R r va src k s s' \<and>
    (res = Ok () \<and> k = unat n \<and> copy_in r va n s' = (Ok (), src) \<or>
     (\<exists>e. res = Err e) \<and> k < unat n \<and> user_byte r (va + of_nat k) s = None)"
proof -
  from copy_out_law [OF assms] obtain res k s' where c: "copy_out r va src n s = (res, s')" "user_owned R A s'"
    "copied_out R r va src k s s'"
    "res = Ok () \<and> k = unat n \<or> (\<exists>e. res = Err e) \<and> k < unat n \<and> user_byte r (va + of_nat k) s = None"
    by blast
  have "copy_in r va n s' = (Ok (), src)" if "k = unat n"
  proof -
    have b: "user_byte r (va + of_nat i) s' = Some (src ! i)" if "i < unat n" for i
      using c(3) that \<open>k = unat n\<close> by (simp add: copied_out_def)
    from copy_in_law [of r va n s'] obtain res bs where i: "copy_in r va n s' = (res, bs)"
      "\<forall>i < length bs. user_byte r (va + of_nat i) s' = Some (bs ! i)"
      "res = Ok () \<and> length bs = unat n \<or> (\<exists>e. res = Err e) \<and> length bs < unat n \<and>
         user_byte r (va + of_nat (length bs)) s' = None"
      by blast
    with b have "res = Ok ()" "length bs = unat n" by auto
    moreover from this i(2) b have "bs = src"
      using assms(3) by (intro nth_equalityI) auto
    ultimately show ?thesis using i(1) by simp
  qed
  with c show ?thesis by blast
qed

section \<open>Copying a process\<close>

definition copied_page :: "usize \<Rightarrow> usize \<Rightarrow> vpn \<Rightarrow> 'z vm_scheme \<Rightarrow> bool" where
  "copied_page r c v s \<longleftrightarrow> is_valid (pte_at c v s) \<and> get_flag (pte_at c v s) = get_flag (pte_at r v s) \<and>
     page_data c v s = page_data r v s"

lemma flag_tests [simp]:
  "is_leaf (get_flag d) = is_leaf d" "is_valid (get_flag d) = is_valid d" "is_user (get_flag d) = is_user d"
  by (simp_all add: is_leaf_bit is_valid_bit is_user_bit bit_get_flag)

lemma get_flag_valid: "is_valid d \<Longrightarrow> get_flag d OR PTE_VALID = get_flag d"
  by (rule bit_eqI) (auto simp: bit_or_iff bit_get_flag is_valid_bit)

lemma same_data_store:
  assumes "own R A s" "fresh_frame R A p s" "length bs = 4096"
  shows "same_data A s (store_bytes p bs s)" "load_bytes p 4096 (store_bytes p bs s) = bs"
proof -
  have p: "block_fits p page_layout"
    using assms(2) by (simp add: fresh_frame_def held_page_def)
  have sb: "bytes (store_bytes p bs s) (q + of_nat j) = (if p = q then bs ! j else bytes s (q + of_nat j))"
    if "block_fits q page_layout" "j < 4096" for q j
    using store_bytes_page [OF p that(1), of 0 bs j s] that(2) assms(3) by simp
  show "load_bytes p 4096 (store_bytes p bs s) = bs"
    unfolding load_bytes_def using assms(3) by (intro nth_equalityI) (simp_all add: sb [OF p])
  show "same_data A s (store_bytes p bs s)"
    unfolding same_data_def
  proof (intro allI impI conjI)
    fix r v
    assume a: "(r, v) \<in> A"
    show "pte_at r v (store_bytes p bs s) = pte_at r v s" by (rule store_bytes_maps)
    have "frame r v s \<noteq> p" using assms(2) a by (auto simp: fresh_frame_def)
    then show "page_data r v (store_bytes p bs s) = page_data r v s"
      unfolding page_data_def frame_def store_bytes_maps using sb [OF own_fits [OF assms(1) a]]
      by (intro load_bytes_cong) (auto simp: frame_def)
  qed
qed

lemma uvm_copy_step:
  assumes "own R A s" "c \<in> R" "low_page va" "(r, page_no va) \<in> A" "\<not> is_valid (pte_at c (page_no va) s)"
  obtains (failed) s' where "uvm_copy_loop (va # vas) r c s = Some (Err (), s')"
      "own R A s'" "same_map R s s'" "same_data A s s'"
  | (mapped) s' where "uvm_copy_loop (va # vas) r c s = uvm_copy_loop vas r c s'"
      "own R (insert (c, page_no va) A) s'" "copied_page r c (page_no va) s'" "same_data A s s'"
      "\<forall>r' \<in> R. \<forall>v \<in> vpages. (r', v) \<noteq> (c, page_no va) \<longrightarrow> pte_at r' v s' = pte_at r' v s"
proof -
  let ?v = "page_no va"
  let ?d = "pte_at r ?v s"
  note m = own_memD [OF assms(1,4)]
  from m(3) obtain t k where walk: "pt_walk r va s = Some (t, k)" "tables s t k = ?d"
    using pt_walk_pte [of r va s] by (cases "pt_walk r va s") auto
  from assms(1) show thesis
  proof (cases rule: alloc_data_law)
    case (no_memory s1)
    then have "same_data A s s1"
      using own_memD(1,2) [OF assms(1)] by (intro same_data_map) (auto simp: same_map_def)
    with no_memory failed [of s1] walk m(3) show thesis by simp
  next
    case (page p s1)
    note clear = same_data_clear [OF assms(1) page(4,3,5)]
    let ?bs = "load_bytes (as_phys_addr ?d) 4096 s1"
    let ?s2 = "store_bytes p ?bs s1"
    have bs: "length ?bs = 4096" "?bs = page_data r ?v s1"
      using clear(1) assms(4) by (auto simp: load_bytes_def page_data_def frame_def same_data_def)
    note st = same_data_store [OF page(2,4) bs(1)] own_store [OF page(2), where p = p and bs = ?bs]
    have s2: "same_data A s ?s2" "same_map R s ?s2"
      using same_data_trans [OF clear(1) st(1)] page(3) st(4) by (simp_all add: same_map_def)
    have va: "page_aligned va" "unat va + 4096 \<le> 2 ^ 39" using assms(3) by (simp_all add: low_page_def)
    have nv: "\<not> is_valid (pte_at c ?v ?s2)" using s2(2) assms(2,5) by (simp add: same_map_def)
    have fl: "flags_only (get_flag ?d)" "is_leaf (get_flag ?d)" using m(4) by simp_all
    have unf: "uvm_copy_loop (va # vas) r c s = (case map_pages c va p PAGESIZE (get_flag ?d) ?s2 of None \<Rightarrow> None
        | Some (Err _, s3) \<Rightarrow> do { s \<leftarrow> free_page p s3; Some (Err (), s) }
        | Some (Ok _, s3) \<Rightarrow> uvm_copy_loop vas r c s3)"
      using walk m(3) page(1) by (simp add: param_values split: option.splits sum.splits)
    from st(3) assms(2) va st(5) [OF page(4)] nv fl show thesis
    proof (cases rule: map_one_law)
      case (no_memory s3)
      from no_memory(2,5) obtain s4 where s4: "free_page p s3 = Some s4" "own R A s4" "same_map R s3 s4"
        "bytes s4 = bytes s3" by (rule free_page_law)
      have "same_map R s s4" using s2(2) no_memory(3) s4(3) by (simp add: same_map_def)
      moreover have "same_data A ?s2 s4"
        using no_memory(3,4) s4(3,4) own_memD(1,2) [OF assms(1)] by (intro same_data_map) (auto simp: same_map_def)
      then have "same_data A s s4" using s2(1) same_data_trans by blast
      ultimately show thesis
        using failed [of s4] no_memory(1) s4(1,2) unf by simp
    next
      case (mapped s3)
      have nA: "(c, ?v) \<notin> A" using own_memD(3) [OF assms(1)] assms(5) by blast
      have fr: "frame c ?v s3 = p"
        using page(4) fits_page mapped(4) by (simp add: frame_def as_phys_addr_set_addr fresh_frame_def held_page_def)
      have keep: "\<forall>r' v. (r', v) \<in> A \<longrightarrow> pte_at r' v s3 = pte_at r' v ?s2"
      proof (intro allI impI)
        fix r' v
        assume a: "(r', v) \<in> A"
        then have "(r', v) \<noteq> (c, ?v)" using nA by blast
        with mapped(5) own_memD(1,2) [OF assms(1) a] show "pte_at r' v s3 = pte_at r' v ?s2" by blast
      qed
      have sd: "same_data A s s3"
        using s2(1) same_data_map [OF mapped(3) keep] by (rule same_data_trans)
      have "page_data c ?v s3 = page_data r ?v s"
        using page_data_single [OF fr mapped(3)] st(2) bs(2) clear(1) assms(4) by (simp add: same_data_def)
      then have "copied_page r c ?v s3"
        using mapped(4) sd assms(4) m(3) by (simp add: copied_page_def same_data_def get_flag_set_addr get_flag_valid)
      moreover have "\<forall>r' \<in> R. \<forall>v \<in> vpages. (r', v) \<noteq> (c, ?v) \<longrightarrow> pte_at r' v s3 = pte_at r' v s"
        using mapped(5) s2(2) by (simp add: same_map_def)
      ultimately show thesis
        using that(2) [OF _ mapped(2) _ sd] mapped(1) unf by simp
    qed
  qed
qed

lemma copied_page_keep:
  "same_data A s s' \<Longrightarrow> (c, v) \<in> A \<Longrightarrow> (r, v) \<in> A \<Longrightarrow> copied_page r c v s \<Longrightarrow> copied_page r c v s'"
  by (simp add: same_data_def copied_page_def)

lemma uvm_copy_loop_law:
  assumes "own R A s" "c \<in> R" "list_all low_page vas" "distinct (map page_no vas)" "pages_of r vas \<subseteq> A"
    "\<forall>va \<in> set vas. \<not> is_valid (pte_at c (page_no va) s)"
  shows "\<exists>res k s'. uvm_copy_loop vas r c s = Some (res, s') \<and> k \<le> length vas \<and>
    own R (A \<union> pages_of c (take k vas)) s' \<and> same_data A s s' \<and>
    (\<forall>va \<in> set (take k vas). copied_page r c (page_no va) s') \<and>
    (\<forall>r' \<in> R. \<forall>v \<in> vpages. (r', v) \<notin> pages_of c (take k vas) \<longrightarrow> pte_at r' v s' = pte_at r' v s) \<and>
    (res = Ok () \<and> k = length vas \<or> res = Err () \<and> k < length vas)"
  using assms(1,3,4,5,6)
proof (induction vas arbitrary: A s)
  case Nil
  then show ?case by (simp add: same_data_refl)
next
  case (Cons va vas)
  have va: "low_page va" "(r, page_no va) \<in> A" "\<not> is_valid (pte_at c (page_no va) s)"
    using Cons.prems by simp_all
  from Cons.prems(1) assms(2) va show ?case
  proof (cases rule: uvm_copy_step [where vas = vas])
    case (failed s')
    then show ?thesis
      by (intro exI [of _ "Err ()"] exI [of _ 0] exI [of _ s']) (simp add: same_map_def)
  next
    case (mapped s')
    let ?A = "insert (c, page_no va) A"
    have "\<forall>vb \<in> set vas. \<not> is_valid (pte_at c (page_no vb) s')"
      using mapped(5) assms(2) Cons.prems(3,5) by (auto simp: image_iff)
    moreover have "pages_of r vas \<subseteq> ?A" using Cons.prems(4) by auto
    ultimately obtain res k s'' where
      IH: "uvm_copy_loop vas r c s' = Some (res, s'')" "k \<le> length vas"
      "own R (?A \<union> pages_of c (take k vas)) s''" "same_data ?A s' s''"
      "\<forall>va \<in> set (take k vas). copied_page r c (page_no va) s''"
      "\<forall>r' \<in> R. \<forall>v \<in> vpages. (r', v) \<notin> pages_of c (take k vas) \<longrightarrow> pte_at r' v s'' = pte_at r' v s'"
      "res = Ok () \<and> k = length vas \<or> res = Err () \<and> k < length vas"
      using Cons.IH [OF mapped(2)] Cons.prems(2,3) by auto
    have "copied_page r c (page_no va) s''"
      using copied_page_keep [OF IH(4) _ _ mapped(3)] va(2) by simp
    moreover have "same_data A s s''"
      using mapped(4) same_data_subset [OF IH(4), of A] same_data_trans by blast
    ultimately show ?thesis
      using IH mapped(1,5) by (intro exI [of _ res] exI [of _ "Suc k"] exI [of _ s'']) auto
  qed
qed

text \<open>C12: Copying a process for \<open>fork\<close> (\<open>uvm_copy\<close>) never panics when the parent owns its pages and
  the child has none there.  On success the child has the same bytes with the same permissions at
  every page below the size, in frames shared with nobody; in any case the memory of the parent
  and of every other process is unchanged.\<close>

theorem uvm_copy_copies:
  assumes "own R A s" "c \<in> R" "unat sz \<le> 2 ^ 38" "pages_of r (page_range 0 sz) \<subseteq> A"
    "\<forall>va \<in> set (page_range 0 sz). \<not> is_valid (pte_at c (page_no va) s)"
  shows "\<exists>res k s'. uvm_copy r c sz s = Some (res, s') \<and> same_data A s s' \<and>
    (let vas = take k (page_range 0 sz) in
     own R (A \<union> pages_of c vas) s' \<and> (\<forall>va \<in> set vas. copied_page r c (page_no va) s') \<and>
     (\<forall>r' \<in> R. \<forall>v \<in> vpages. (r', v) \<notin> pages_of c vas \<longrightarrow> pte_at r' v s' = pte_at r' v s) \<and>
     (res = Ok () \<and> vas = page_range 0 sz \<or> res = Err ()))"
proof -
  have z: "page_aligned 0" "unat (0 :: usize) \<le> unat sz + 4096" by (simp_all add: page_aligned_def)
  note low = page_range_low [OF z(1) assms(3) z(2)]
  from uvm_copy_loop_law [OF assms(1,2) low assms(4,5)] obtain res k s' where
    "uvm_copy_loop (page_range 0 sz) r c s = Some (res, s')" "k \<le> length (page_range 0 sz)"
    "own R (A \<union> pages_of c (take k (page_range 0 sz))) s'" "same_data A s s'"
    "\<forall>va \<in> set (take k (page_range 0 sz)). copied_page r c (page_no va) s'"
    "\<forall>r' \<in> R. \<forall>v \<in> vpages. (r', v) \<notin> pages_of c (take k (page_range 0 sz)) \<longrightarrow> pte_at r' v s' = pte_at r' v s"
    "res = Ok () \<and> k = length (page_range 0 sz) \<or> res = Err () \<and> k < length (page_range 0 sz)"
    by blast
  then show ?thesis
    by (intro exI [of _ res] exI [of _ k] exI [of _ s']) (auto simp: Let_def uvm_copy_def)
qed

section \<open>Copying strings\<close>

definition str_at :: "usize \<Rightarrow> usize \<Rightarrow> 'z vm_scheme \<Rightarrow> nat \<Rightarrow> u8" where
  "str_at r va s i = the (user_byte r (va + of_nat i) s)"

lemma shift_bytes:
  "\<forall>l < Suc n. bytes s (pa + of_nat l) \<noteq> 0 \<Longrightarrow> \<forall>l < n. bytes s (pa + 1 + of_nat l) \<noteq> 0"
proof (intro allI impI)
  fix l
  assume "\<forall>l < Suc n. bytes s (pa + of_nat l) \<noteq> 0" "l < n"
  then have "bytes s (pa + of_nat (Suc l)) \<noteq> 0" by blast
  then show "bytes s (pa + 1 + of_nat l) \<noteq> 0" by (simp add: add.assoc)
qed

lemma chunk_found:
  assumes "j < n" "i + j < length dst" "\<forall>l < j. bytes s (pa + of_nat l) \<noteq> 0" "bytes s (pa + of_nat j) = 0"
  shows "copy_in_str_chunk n pa i dst s =
    Terminated (i + j) (take i dst @ map (\<lambda>l. bytes s (pa + of_nat l)) [0..<Suc j] @ drop (i + Suc j) dst)"
  using assms
proof (induction n arbitrary: pa i j dst)
  case (Suc n)
  show ?case
  proof (cases j)
    case 0
    with Suc.prems show ?thesis by (simp add: upd_conv_take_nth_drop Let_def nth_append)
  next
    case (Suc j')
    have nz: "bytes s pa \<noteq> 0" using Suc.prems(3) Suc by force
    have sh: "\<And>l. pa + 1 + of_nat l = pa + of_nat (Suc l)" by simp
    from Suc.IH [of j' "i + 1" "dst[i := bytes s pa]" "pa + 1"] Suc.prems Suc
      shift_bytes [OF Suc.prems(3) [unfolded Suc]]
    have "copy_in_str_chunk n (pa + 1) (i + 1) (dst[i := bytes s pa]) s = Terminated (i + 1 + j')
        (take (i + 1) (dst[i := bytes s pa]) @ map (\<lambda>l. bytes s (pa + 1 + of_nat l)) [0..<Suc j'] @
         drop (i + 1 + Suc j') (dst[i := bytes s pa]))"
      unfolding sh by simp
    moreover have "take (i + 1) (dst[i := bytes s pa]) = take i dst @ [bytes s pa]"
      using Suc.prems(2) by (simp add: take_Suc_conv_app_nth)
    moreover have "map (\<lambda>l. bytes s (pa + of_nat l)) [0..<Suc j] = bytes s pa # map (\<lambda>l. bytes s (pa + 1 + of_nat l)) [0..<Suc j']"
      unfolding sh Suc by (subst upt_conv_Cons, simp, subst map_Suc_upt [symmetric]) (simp del: upt_Suc)
    ultimately show ?thesis
      using Suc.prems(2) nz Suc by simp
  qed
qed simp

lemma chunk_more:
  assumes "i + n \<le> length dst" "\<forall>l < n. bytes s (pa + of_nat l) \<noteq> 0"
  shows "copy_in_str_chunk n pa i dst s =
    Unfinished (i + n) (take i dst @ map (\<lambda>l. bytes s (pa + of_nat l)) [0..<n] @ drop (i + n) dst)"
  using assms
proof (induction n arbitrary: pa i dst)
  case (Suc n)
  have nz: "bytes s pa \<noteq> 0" using Suc.prems(2) by force
  have sh: "\<And>l. pa + 1 + of_nat l = pa + of_nat (Suc l)" by simp
  from Suc.IH [of "i + 1" "dst[i := bytes s pa]" "pa + 1"] Suc.prems shift_bytes [OF Suc.prems(2)]
  have "copy_in_str_chunk n (pa + 1) (i + 1) (dst[i := bytes s pa]) s = Unfinished (i + 1 + n)
      (take (i + 1) (dst[i := bytes s pa]) @ map (\<lambda>l. bytes s (pa + 1 + of_nat l)) [0..<n] @
       drop (i + 1 + n) (dst[i := bytes s pa]))"
    unfolding sh by simp
  moreover have "take (i + 1) (dst[i := bytes s pa]) = take i dst @ [bytes s pa]"
    using Suc.prems(1) by (simp add: take_Suc_conv_app_nth)
  moreover have "map (\<lambda>l. bytes s (pa + of_nat l)) [0..<Suc n] = bytes s pa # map (\<lambda>l. bytes s (pa + 1 + of_nat l)) [0..<n]"
    unfolding sh by (subst upt_conv_Cons, simp, subst map_Suc_upt [symmetric]) (simp del: upt_Suc)
  ultimately show ?case
    using Suc.prems(1) nz by simp
qed simp

lemma chunk_out_of_bounds:
  assumes "i \<le> length dst" "length dst - i < n" "\<forall>l < length dst - i. bytes s (pa + of_nat l) \<noteq> 0"
  shows "copy_in_str_chunk n pa i dst s = Out_of_bounds"
  using assms
proof (induction n arbitrary: pa i dst)
  case (Suc n)
  show ?case
  proof (cases "i < length dst")
    case True
    have nz: "bytes s pa \<noteq> 0" using Suc.prems(3) True by force
    have "Suc (length dst - (i + 1)) = length dst - i" using True by simp
    with Suc.prems(3) have "\<forall>l < length dst - (i + 1). bytes s (pa + 1 + of_nat l) \<noteq> 0"
      by (intro shift_bytes) simp
    with Suc.IH [of "i + 1" "dst[i := bytes s pa]" "pa + 1"] Suc.prems(1,2) True nz show ?thesis by simp
  qed simp
qed simp

lemma str_page:
  assumes "walk_addr r (page_base va) s = Ok pa" "i < 4096 - unat va mod 4096"
  shows "user_byte r (va + of_nat i) s = Some (bytes s (pa + (va - page_base va) + of_nat i))"
  using user_byte_page [OF assms(2), of r s] assms(1) by simp

lemma user_byte_base: "user_byte r va s \<noteq> None \<Longrightarrow> \<exists>pa. walk_addr r (page_base va) s = Ok pa"
  by (auto simp: user_byte_def split: sum.splits)

lemma copy_in_str_loop_found:
  assumes "\<forall>j < k. user_byte r (va + of_nat j) s \<noteq> None \<and> str_at r va s j \<noteq> 0"
    "user_byte r (va + of_nat k) s = Some 0" "k + 1 < length dst"
  shows "copy_in_str_loop r 0 dst va s = Some (Some (Ok k, map (str_at r va s) [0..<Suc k] @ drop (Suc k) dst))"
proof -
  have "copy_in_str_loop r i d (va + of_nat i) s =
      Some (Some (Ok k, take i d @ map (str_at r va s) [i..<Suc k] @ drop (Suc k) d))"
    if "i \<le> k" "length d = length dst" for i d
    using that
  proof (induction "k - i" arbitrary: i d rule: less_induct)
    case less
    let ?x = "va + of_nat i"
    have xj: "\<And>j. ?x + of_nat j = va + of_nat (i + j)" by simp
    have "user_byte r ?x s \<noteq> None" using assms(1,2) less.prems(1) by (cases "i = k") auto
    then obtain pa where pa: "walk_addr r (page_base ?x) s = Ok pa" using user_byte_base by blast
    let ?p = "pa + (?x - page_base ?x)"
    define n where "n = min (4096 - unat ?x mod 4096) (length d - 1)"
    have nle: "n \<le> 4096 - unat ?x mod 4096" by (simp add: n_def)
    have b: "user_byte r (va + of_nat (i + j)) s = Some (bytes s (?p + of_nat j))" if "j < n" for j
      using str_page [OF pa, of j] that nle unfolding xj by simp
    then have sb: "str_at r va s (i + j) = bytes s (?p + of_nat j)" if "j < n" for j
      using that unfolding str_at_def by simp
    have n: "0 < n" using assms(3) less.prems(2) by (simp add: n_def)
    note unf = copy_in_str_loop.simps [of r i d ?x s]
    have step: "copy_in_str_loop r i d ?x s = (case copy_in_str_chunk n ?p i d s of
         Terminated i dst \<Rightarrow> Some (Some (Ok i, dst)) | Out_of_bounds \<Rightarrow> Some None
       | Unfinished i dst \<Rightarrow> copy_in_str_loop r i dst (page_base ?x + PAGESIZE) s)"
      using assms(3) less.prems pa unfolding unf by (simp add: Let_def unat_page_offset n_def)
    show ?case
    proof (cases "k - i < n")
      case True
      have "\<forall>l < k - i. bytes s (?p + of_nat l) \<noteq> 0"
      proof (intro allI impI)
        fix l assume l: "l < k - i"
        then have "i + l < k" by simp
        with assms(1) have "str_at r va s (i + l) \<noteq> 0" by blast
        with sb [of l] l True show "bytes s (?p + of_nat l) \<noteq> 0" by simp
      qed
      moreover have "bytes s (?p + of_nat (k - i)) = 0"
        using b [OF True] assms(2) less.prems(1) by simp
      ultimately have "copy_in_str_chunk n ?p i d s =
          Terminated k (take i d @ map (\<lambda>l. bytes s (?p + of_nat l)) [0..<Suc (k - i)] @ drop (Suc k) d)"
        using chunk_found [OF True, of i d s ?p] assms(3) less.prems by simp
      moreover have "map (\<lambda>l. bytes s (?p + of_nat l)) [0..<Suc (k - i)] = map (str_at r va s) [i..<Suc k]"
        using sb True less.prems(1) by (intro nth_equalityI) (auto simp del: upt_Suc)
      ultimately show ?thesis unfolding step by simp
    next
      case False
      have nz: "\<forall>l < n. bytes s (?p + of_nat l) \<noteq> 0"
      proof (intro allI impI)
        fix l assume l: "l < n"
        then have "i + l < k" using False by simp
        with assms(1) have "str_at r va s (i + l) \<noteq> 0" by blast
        with sb [OF l] show "bytes s (?p + of_nat l) \<noteq> 0" by simp
      qed
      have ik: "i + n \<le> k" "Suc k \<le> length d" using False less.prems assms(3) by simp_all
      have c: "n = 4096 - unat ?x mod 4096"
        using False assms(3) less.prems by (auto simp: n_def min_def split: if_splits)
      define D where "D = take i d @ map (\<lambda>l. bytes s (?p + of_nat l)) [0..<n] @ drop (i + n) d"
      have "copy_in_str_chunk n ?p i d s = Unfinished (i + n) D"
        unfolding D_def using nz ik by (intro chunk_more) auto
      moreover have "page_base ?x + PAGESIZE = va + of_nat (i + n)"
        unfolding page_end c xj [symmetric] ..
      moreover have "copy_in_str_loop r (i + n) D (va + of_nat (i + n)) s =
          Some (Some (Ok k, take (i + n) D @ map (str_at r va s) [i + n..<Suc k] @ drop (Suc k) D))"
        using n ik less.prems(2) by (intro less.hyps) (auto simp: D_def)
      moreover have "take (i + n) D = take i d @ map (str_at r va s) [i..<i + n]"
        using sb ik by (auto intro!: nth_equalityI simp: nth_append D_def)
      moreover have "drop (Suc k) D = drop (Suc k) d"
        using ik by (simp add: D_def)
      moreover have "map (str_at r va s) [i..<i + n] @ map (str_at r va s) [i + n..<Suc k] =
          map (str_at r va s) [i..<Suc k]"
        unfolding map_append [symmetric]
        using ik upt_add_eq_append [of i "i + n" "Suc k - (i + n)"] by (simp del: upt_Suc)
      ultimately show ?thesis
        unfolding step by (simp del: upt_Suc)
    qed
  qed
  from this [of 0 dst] show ?thesis by simp
qed


lemma next_page_start: "unat (page_base va + PAGESIZE) mod 4096 = 0"
proof -
  have "unat (page_base va + PAGESIZE) mod 4096 = (unat (page_base va) + 4096) mod 2 ^ 64 mod 4096"
    by (simp add: unat_word_ariths param_values)
  also have "\<dots> = (unat (page_base va) + 4096) mod 4096"
    by (rule mod_mod_cancel) simp
  also have "\<dots> = 0" by (simp add: unat_page_base)
  finally show ?thesis .
qed


section \<open>A concrete memory\<close>

text \<open>Two root tables, at \<open>0x80001000\<close> with the virtual page 0 mapped to the frame at \<open>0x80004000\<close>,
  and at \<open>0x80005000\<close> with nothing mapped.\<close>

definition demo_vm :: vm where
  "demo_vm = \<lparr>heap = [\<lparr>node_start = 0x80020000, node_size = 0x40000\<rparr>],
     tables = (\<lambda>t i.
       if i \<noteq> 0 then 0
       else if t = 0x80001000 then set_addr (as_pte_addr 0x80002000) PTE_VALID
       else if t = 0x80002000 then set_addr (as_pte_addr 0x80003000) PTE_VALID
       else if t = 0x80003000 then set_addr (as_pte_addr 0x80004000) rwxu
       else 0),
     bytes = (\<lambda>_. 0)\<rparr>"

abbreviation demo_roots :: "usize set" where
  "demo_roots \<equiv> {0x80001000, 0x80005000}"

abbreviation demo_pages :: "(usize \<times> vpn) set" where
  "demo_pages \<equiv> {(0x80001000, Vpn 0 0 0)}"

lemma demo_simps:
  "heap demo_vm = [\<lparr>node_start = 0x80020000, node_size = 0x40000\<rparr>]"
  "tables demo_vm 0x80001000 i = (if i = 0 then set_addr (as_pte_addr 0x80002000) PTE_VALID else 0)"
  "tables demo_vm 0x80002000 i = (if i = 0 then set_addr (as_pte_addr 0x80003000) PTE_VALID else 0)"
  "tables demo_vm 0x80003000 i = (if i = 0 then set_addr (as_pte_addr 0x80004000) rwxu else 0)"
  "tables demo_vm 0x80005000 i = 0"
  by (simp_all add: demo_vm_def)

lemma page_aligned_demo:
  "page_aligned 0x80001000" "page_aligned 0x80002000" "page_aligned 0x80003000" "page_aligned 0x80004000"
  "page_aligned 0x80005000"
  by (simp_all add: page_aligned_def)

lemma paths_cases:
  assumes "q \<in> paths"
  obtains "q = []" | i where "q = [i]" "i < 512" | i j where "q = [i, j]" "i < 512" "j < 512"
proof (cases q)
  case (Cons i p)
  then show ?thesis using assms that(2,3) by (cases p) (auto simp: paths_def)
qed (rule that(1))

lemma demo_tab_child: "tab demo_vm 0x80005000 q = (if q = [] then Some 0x80005000 else None)"
  by (cases q) (simp_all add: tab.simps demo_simps)

lemma demo_tab_root:
  assumes "q \<in> paths"
  shows "tab demo_vm 0x80001000 q = (if q = [] then Some 0x80001000 else if q = [0] then Some 0x80002000
     else if q = [0, 0] then Some 0x80003000 else None)"
  using assms by (cases rule: paths_cases)
    (simp_all add: tab.simps demo_simps as_page_table_set_addr page_aligned_demo)

lemma demo_pte_child: "v \<in> vpages \<Longrightarrow> pte_at 0x80005000 v demo_vm = 0"
  by (cases v) (simp add: pte_at_def demo_tab_child)

lemma demo_pte_root:
  assumes "v \<in> vpages"
  shows "pte_at 0x80001000 v demo_vm = (if v = Vpn 0 0 0 then set_addr (as_pte_addr 0x80004000) rwxu else 0)"
proof (cases v)
  case (Vpn a b c)
  with vpages_path [of a b c] assms demo_tab_root [of "[a, b]"] show ?thesis
    by (simp add: pte_at_def demo_simps)
qed

lemma demo_tabs: "tabs demo_roots demo_vm = {0x80001000, 0x80002000, 0x80003000, 0x80005000}"
proof
  show "tabs demo_roots demo_vm \<subseteq> {0x80001000, 0x80002000, 0x80003000, 0x80005000}"
    unfolding tabs_def by (auto simp: demo_tab_child demo_tab_root split: if_splits)
  have "\<exists>q \<in> paths. tab demo_vm 0x80001000 q = Some t" if "t \<in> {0x80001000, 0x80002000, 0x80003000}" for t
  proof -
    have "[0] \<in> paths" "[0, 0] \<in> paths" by (simp_all add: paths_def)
    then have "tab demo_vm 0x80001000 [] = Some 0x80001000" "tab demo_vm 0x80001000 [0] = Some 0x80002000"
      "tab demo_vm 0x80001000 [0, 0] = Some 0x80003000"
      by (simp_all add: demo_tab_root)
    with \<open>[0] \<in> paths\<close> \<open>[0, 0] \<in> paths\<close> that show ?thesis by (metis empty_iff insert_iff nil_path)
  qed
  moreover have "tab demo_vm 0x80005000 [] = Some 0x80005000" by (simp add: demo_tab_child)
  ultimately show "{0x80001000, 0x80002000, 0x80003000, 0x80005000} \<subseteq> tabs demo_roots demo_vm"
    unfolding tabs_def using nil_path by blast
qed

lemma held_demo:
  assumes "page_aligned p" "0 < unat p" "unat p + 4096 \<le> 0x80020000"
  shows "held_page p demo_vm"
proof -
  have "(8 :: nat) dvd unat p"
    using dvd_trans [of 8 4096 "unat p"] assms(1) by (simp add: page_aligned_def)
  with assms show ?thesis
    unfolding held_page_def block_fits_def block_size_page
    by (auto simp: page_aligned_def page_layout_def param_values page_block_def demo_simps region_bytes_def)
qed

lemma demo_pt_inv: "pt_inv demo_roots demo_vm"
proof -
  have wf: "wf_free (heap demo_vm)"
    by (simp add: demo_simps wf_free_def wf_region_def)
  have "held_page t demo_vm" if "t \<in> {0x80001000, 0x80002000, 0x80003000, 0x80005000}" for t
    using that by (auto intro!: held_demo simp: page_aligned_demo)
  then have "held_page t demo_vm" if "r \<in> demo_roots" "q \<in> paths" "tab demo_vm r q = Some t" for r q t
    using that demo_tabs unfolding tabs_def by blast
  moreover have "r = r' \<and> q = q'" if "r \<in> demo_roots" "q \<in> paths" "r' \<in> demo_roots" "q' \<in> paths"
      "tab demo_vm r q = Some t" "tab demo_vm r' q' = Some t" for r q r' q' t
    using that demo_tab_root [OF that(2)] demo_tab_root [OF that(4)] demo_tab_child [of q] demo_tab_child [of q']
    by (auto split: if_splits)
  ultimately show ?thesis
    using wf unfolding pt_inv_def by blast
qed

lemma demo_own: "own demo_roots demo_pages demo_vm"
proof -
  have v: "Vpn 0 0 0 \<in> vpages" by (simp add: vpages_def)
  have fr: "frame 0x80001000 (Vpn 0 0 0) demo_vm = 0x80004000"
    using rwxu_flags(1) by (simp add: frame_def demo_pte_root v as_phys_addr_set_addr page_aligned_demo)
  have "held_page 0x80004000 demo_vm"
    by (rule held_demo) (simp_all add: page_aligned_demo)
  with v fr rwxu_flags demo_pt_inv show ?thesis
    unfolding own_def by (simp add: demo_pte_root demo_tabs)
qed

lemma demo_user_owned: "user_owned demo_roots demo_pages demo_vm"
  using demo_own demo_pte_child demo_pte_root by (simp add: user_owned_def)

theorem uvm_alloc_grows_witness:
  "\<exists>res k s'. uvm_alloc 0x80005000 0 0x2000 demo_vm = Some (res, s') \<and>
    (let vas = take k (page_range (mask_align_up 0 PAGESIZE) 0x2000) in
     own demo_roots (demo_pages \<union> pages_of 0x80005000 vas) s' \<and> same_data demo_pages demo_vm s' \<and>
     (\<forall>va \<in> set vas. new_page 0x80005000 (page_no va) s') \<and>
     (\<forall>r' \<in> demo_roots. \<forall>v \<in> vpages. (r', v) \<notin> pages_of 0x80005000 vas \<longrightarrow> pte_at r' v s' = pte_at r' v demo_vm) \<and>
     (res = Ok 0x2000 \<and> vas = page_range (mask_align_up 0 PAGESIZE) 0x2000 \<or> (\<exists>e. res = Err e)))"
  by (rule uvm_alloc_grows) (simp_all add: demo_own demo_pte_child)

lemma page_no_0: "page_no 0 = Vpn 0 0 0"
  by (simp add: page_no_def get_index_eq)

lemma page_range_one: "page_range 0 0x1000 = [0]"
  by (simp add: page_range_def)

theorem uvm_dealloc_shrinks_witness:
  "\<exists>s'. uvm_dealloc 0x80001000 0x1000 0 demo_vm = Some (Ok (mask_align_up 0 PAGESIZE), s') \<and>
    (let vas = page_range (mask_align_up 0 PAGESIZE) (mask_align_up 0x1000 PAGESIZE) in
     own demo_roots (demo_pages - pages_of 0x80001000 vas) s' \<and>
     same_data (demo_pages - pages_of 0x80001000 vas) demo_vm s' \<and>
     (\<forall>va \<in> set vas. \<exists>e. walk_addr 0x80001000 va s' = Err e) \<and>
     (\<forall>r' \<in> demo_roots. \<forall>v \<in> vpages. (r', v) \<notin> pages_of 0x80001000 vas \<longrightarrow> pte_at r' v s' = pte_at r' v demo_vm) \<and>
     free_bytes (heap s') = free_bytes (heap demo_vm) \<union>
       (\<Union>va \<in> set vas. page_block (frame 0x80001000 (page_no va) demo_vm)))"
  by (rule uvm_dealloc_shrinks) (simp_all add: demo_own mask_align_up_def param_values page_range_one page_no_0)

theorem copy_out_copy_in_witness:
  "\<exists>res k s'. copy_out 0x80001000 16 [1, 2, 3] 3 demo_vm = (res, s') \<and>
    user_owned demo_roots demo_pages s' \<and> copied_out demo_roots 0x80001000 16 [1, 2, 3] k demo_vm s' \<and>
    (res = Ok () \<and> k = unat (3 :: usize) \<and> copy_in 0x80001000 16 3 s' = (Ok (), [1, 2, 3]) \<or>
     (\<exists>e. res = Err e) \<and> k < unat (3 :: usize) \<and> user_byte 0x80001000 (16 + of_nat k) demo_vm = None)"
  by (rule copy_out_copy_in) (simp_all add: demo_user_owned)

theorem uvm_copy_copies_witness:
  "\<exists>res k s'. uvm_copy 0x80001000 0x80005000 0x1000 demo_vm = Some (res, s') \<and> same_data demo_pages demo_vm s' \<and>
    (let vas = take k (page_range 0 0x1000) in
     own demo_roots (demo_pages \<union> pages_of 0x80005000 vas) s' \<and>
     (\<forall>va \<in> set vas. copied_page 0x80001000 0x80005000 (page_no va) s') \<and>
     (\<forall>r' \<in> demo_roots. \<forall>v \<in> vpages. (r', v) \<notin> pages_of 0x80005000 vas \<longrightarrow> pte_at r' v s' = pte_at r' v demo_vm) \<and>
     (res = Ok () \<and> vas = page_range 0 0x1000 \<or> res = Err ()))"
  by (rule uvm_copy_copies) (simp_all add: demo_own demo_pte_child page_range_one page_no_0 vpages_def)

text \<open>A table in which every virtual page is the frame at \<open>0x80004000\<close>.\<close>

definition demo_str_vm :: "(usize \<Rightarrow> u8) \<Rightarrow> vm" where
  "demo_str_vm b = \<lparr>heap = [],
     tables = (\<lambda>t i.
       if t = 0x80003000 then set_addr (as_pte_addr 0x80004000) rwxu
       else if t = 0x80002000 then set_addr (as_pte_addr 0x80003000) PTE_VALID
       else set_addr (as_pte_addr 0x80002000) PTE_VALID),
     bytes = b\<rparr>"

lemma user_byte_demo_str:
  "user_byte 0x80001000 va (demo_str_vm b) = Some (b (0x80004000 + (va - page_base va)))"
  using rwxu_flags by (simp add: user_byte_def walk_addr_def pt_walk_def demo_str_vm_def Let_def
      as_page_table_set_addr as_phys_addr_set_addr page_aligned_demo)



end
