(* ===== verification/Kvm.thy ===== *)
theory Kvm
  imports Page_Map
begin

text \<open>
  The kernel address space: \<open>kernel/src/kvm.rs\<close>.  \<open>KERNEL_PAGE_TABLE\<close> is a static table, at an
  address given by the linker like the end of the kernel text and the trampoline; all three
  are arguments.  \<open>kvm_init\<close> is the sequence of \<open>kvm_map\<close> calls of \<open>init\<close>, a failing one being a panic.
\<close>

definition UART0 :: usize where "UART0 = 0x10000000"
definition VIRTIO0 :: usize where "VIRTIO0 = 0x10001000"
definition ECAM0 :: usize where "ECAM0 = 0x30000000"
definition E1000_REGS_ADDR :: u32 where "E1000_REGS_ADDR = 0x40000000"
definition CLINT :: usize where "CLINT = 0x2000000"
definition CLINT_MAP_SIZE :: usize where "CLINT_MAP_SIZE = 0x10000"
definition PLIC :: usize where "PLIC = 0x0c000000"
definition PLIC_MAP_SIZE :: usize where "PLIC_MAP_SIZE = 0x400000"

lemmas device_addresses = UART0_def VIRTIO0_def ECAM0_def E1000_REGS_ADDR_def CLINT_def CLINT_MAP_SIZE_def
  PLIC_def PLIC_MAP_SIZE_def

definition kvm_map :: "usize \<Rightarrow> usize \<Rightarrow> usize \<Rightarrow> usize \<Rightarrow> usize \<Rightarrow> 'z vm_scheme \<Rightarrow> 'z vm_scheme option" where
  "kvm_map kpt va pa sz perm s = do {
     (r, s) \<leftarrow> map_pages kpt va pa sz perm s;
     case r of Err _ \<Rightarrow> None | Ok _ \<Rightarrow> Some s }"

definition kvm_segments :: "usize \<Rightarrow> usize \<Rightarrow> (usize \<times> usize \<times> usize \<times> usize) list" where
  "kvm_segments etext trampoline =
    [(UART0, UART0, PAGESIZE, PTE_READ OR PTE_WRITE),
     (VIRTIO0, VIRTIO0, PAGESIZE, PTE_READ OR PTE_WRITE),
     (ECAM0, ECAM0, 0x10000000, PTE_READ OR PTE_WRITE),
     (ucast E1000_REGS_ADDR, ucast E1000_REGS_ADDR, 0x20000, PTE_READ OR PTE_WRITE),
     (CLINT, CLINT, CLINT_MAP_SIZE, PTE_READ OR PTE_WRITE),
     (PLIC, PLIC, PLIC_MAP_SIZE, PTE_READ OR PTE_WRITE),
     (KERNBASE, KERNBASE, etext - KERNBASE, PTE_READ OR PTE_EXEC),
     (etext, etext, PHYSTOP - etext, PTE_READ OR PTE_WRITE),
     (TRAMPOLINE, trampoline, PAGESIZE, PTE_READ OR PTE_EXEC)]"

definition kvm_init :: "usize \<Rightarrow> usize \<Rightarrow> usize \<Rightarrow> 'z vm_scheme \<Rightarrow> 'z vm_scheme option" where
  "kvm_init kpt etext trampoline s =
     for_each (kvm_segments etext trampoline) (\<lambda>(va, pa, sz, perm). kvm_map kpt va pa sz perm) s"

text \<open>\<open>init_hart\<close> puts this value into \<open>satp\<close>.\<close>

definition kvm_init_hart :: "usize \<Rightarrow> usize" where
  "kvm_init_hart kpt = as_satp kpt"

section \<open>The kernel map\<close>

definition seg_ok :: "usize \<times> usize \<times> usize \<times> usize \<Rightarrow> bool" where
  "seg_ok g = (case g of (va, pa, sz, perm) \<Rightarrow>
     page_aligned va \<and> page_aligned pa \<and> page_aligned sz \<and> unat va + unat sz \<le> 2 ^ 39 \<and> flags_only perm)"

definition seg_mapped :: "usize \<Rightarrow> usize \<times> usize \<times> usize \<times> usize \<Rightarrow> 'z vm_scheme \<Rightarrow> bool" where
  "seg_mapped r g s = (case g of (va, pa, sz, perm) \<Rightarrow>
     \<forall>i < unat sz div 4096. pte_at r (page_no (next_page va i)) s = set_addr (as_pte_addr (next_page pa i)) perm)"

definition seg_pages :: "usize \<times> usize \<times> usize \<times> usize \<Rightarrow> vpn set" where
  "seg_pages g = (case g of (va, pa, sz, perm) \<Rightarrow> (\<lambda>i. page_no (next_page va i)) ` {..<unat sz div 4096})"

lemma kvm_map_law:
  assumes "pt_inv {r} s" "seg_ok (va, pa, sz, perm)" "kvm_map r va pa sz perm s = Some s'"
  shows "pt_inv {r} s' \<and> seg_mapped r (va, pa, sz, perm) s' \<and>
    (\<forall>v \<in> vpages. is_valid (pte_at r v s) \<longrightarrow> pte_at r v s' = pte_at r v s) \<and>
    (\<forall>v \<in> vpages. v \<notin> seg_pages (va, pa, sz, perm) \<longrightarrow> pte_at r v s' = pte_at r v s)"
proof -
  let ?n = "unat sz div 4096"
  have ok: "page_aligned va" "unat sz = ?n * 4096" "unat va + ?n * 4096 \<le> 2 ^ 39"
    using assms(2) by (auto simp: seg_ok_def page_aligned_def)
  have "unat (of_nat ?n * PAGESIZE :: usize) = unat sz"
    using unat_next_page [of 0 ?n] ok(2) unat_lt_64 [of sz] by (simp add: next_page_def)
  then have sz: "of_nat ?n * PAGESIZE = sz" by (rule unsigned_word_eqI)
  from assms(1) _ ok(1,3) obtain res k s1 where "map_pages r va pa (of_nat ?n * PAGESIZE) perm s = Some (res, s1)"
    "same_pages {r} r s s1" "k \<le> ?n"
    "\<forall>i < k. pte_at r (page_no (next_page va i)) s1 = set_addr (as_pte_addr (next_page pa i)) perm"
    "\<forall>v \<in> vpages. v \<notin> (\<lambda>i. page_no (next_page va i)) ` {..<k} \<longrightarrow> pte_at r v s1 = pte_at r v s"
    "\<forall>v \<in> vpages. is_valid (pte_at r v s) \<longrightarrow> pte_at r v s1 = pte_at r v s"
    "case res of Ok _ \<Rightarrow> k = ?n
     | Err e \<Rightarrow> k < ?n \<and> (e = ''map_pages: remap'' \<and> is_valid (pte_at r (page_no (next_page va k)) s) \<or>
           e = ''map_pages: not enough memory for new page table'')"
    by (rule map_pages_law) simp
  with assms(3) show ?thesis
    unfolding sz by (simp add: kvm_map_def seg_mapped_def seg_pages_def same_pages_def split: sum.splits)
qed

lemma seg_mapped_keep:
  assumes "seg_mapped r g s" "\<forall>v \<in> vpages. is_valid (pte_at r v s) \<longrightarrow> pte_at r v s' = pte_at r v s"
  shows "seg_mapped r g s'"
  using assms by (auto simp: seg_mapped_def)

lemma kvm_segments_law:
  assumes "pt_inv {r} s" "list_all seg_ok gs"
    "for_each gs (\<lambda>(va, pa, sz, perm). kvm_map r va pa sz perm) s = Some s'"
  shows "pt_inv {r} s' \<and> (\<forall>g \<in> set gs. seg_mapped r g s') \<and>
    (\<forall>v \<in> vpages. is_valid (pte_at r v s) \<longrightarrow> pte_at r v s' = pte_at r v s) \<and>
    (\<forall>v \<in> vpages. v \<notin> \<Union> (seg_pages ` set gs) \<longrightarrow> pte_at r v s' = pte_at r v s)"
  using assms
proof (induction gs arbitrary: s)
  case (Cons g gs)
  obtain va pa sz perm where g: "g = (va, pa, sz, perm)" by (cases g)
  from Cons.prems(3) obtain s1 where s1: "kvm_map r va pa sz perm s = Some s1"
    "for_each gs (\<lambda>(va, pa, sz, perm). kvm_map r va pa sz perm) s1 = Some s'"
    by (auto simp: g bind_eq_Some_conv)
  have ok: "seg_ok (va, pa, sz, perm)" "list_all seg_ok gs" using Cons.prems(2) g by simp_all
  note m = kvm_map_law [OF Cons.prems(1) ok(1) s1(1)]
  then have IH: "pt_inv {r} s' \<and> (\<forall>g \<in> set gs. seg_mapped r g s') \<and>
    (\<forall>v \<in> vpages. is_valid (pte_at r v s1) \<longrightarrow> pte_at r v s' = pte_at r v s1) \<and>
    (\<forall>v \<in> vpages. v \<notin> \<Union> (seg_pages ` set gs) \<longrightarrow> pte_at r v s' = pte_at r v s1)"
    using Cons.IH [OF _ ok(2) s1(2)] by blast
  have "seg_mapped r g s'"
    using m IH seg_mapped_keep [of r g s1 s'] g by blast
  with m IH show ?case by (auto simp: g)
qed simp

lemma kvm_init_law:
  assumes "pt_inv {kpt} s" "\<forall>v \<in> vpages. pte_at kpt v s = 0" "page_aligned etext" "page_aligned trampoline"
    "KERNBASE \<le> etext" "etext \<le> PHYSTOP" "kvm_init kpt etext trampoline s = Some s'"
  shows "pt_inv {kpt} s' \<and>
    (\<forall>g \<in> set (kvm_segments etext trampoline). seg_mapped kpt g s') \<and>
    (\<forall>v \<in> vpages. v \<notin> \<Union> (seg_pages ` set (kvm_segments etext trampoline)) \<longrightarrow> pte_at kpt v s' = 0) \<and>
    (\<forall>v \<in> vpages. \<not> is_user (pte_at kpt v s') \<and> \<not> (bit (pte_at kpt v s') 2 \<and> bit (pte_at kpt v s') 3))"
proof -
  let ?gs = "kvm_segments etext trampoline"
  have e: "unat KERNBASE \<le> unat etext" "unat etext \<le> unat PHYSTOP"
    using assms(5,6) by (simp_all add: word_le_nat_alt)
  have d: "unat (etext - KERNBASE) = unat etext - unat KERNBASE" "unat (PHYSTOP - etext) = unat PHYSTOP - unat etext"
    using e by (simp_all add: unat_minus_no_underflow)
  have ok: "list_all seg_ok ?gs"
    using assms(3,4) e d
    by (simp add: kvm_segments_def seg_ok_def device_addresses param_values page_aligned_def dvd_diff_nat)
  note law = kvm_segments_law [OF assms(1) ok assms(7) [unfolded kvm_init_def]]
  have "\<not> is_user (pte_at kpt v s') \<and> \<not> (bit (pte_at kpt v s') 2 \<and> bit (pte_at kpt v s') 3)"
    if v: "v \<in> vpages" for v
  proof (cases "v \<in> \<Union> (seg_pages ` set ?gs)")
    case True
    then obtain va pa sz perm where g: "(va, pa, sz, perm) \<in> set ?gs" "v \<in> seg_pages (va, pa, sz, perm)"
      by auto
    then obtain i where "pte_at kpt v s' = set_addr (as_pte_addr (next_page pa i)) perm"
      using law by (fastforce simp: seg_pages_def seg_mapped_def)
    moreover have "perm \<in> {PTE_READ OR PTE_WRITE, PTE_READ OR PTE_EXEC}"
      using g(1) by (auto simp: kvm_segments_def)
    ultimately show ?thesis by (auto simp: is_user_bit bit_set_addr bit_or_iff)
  next
    case False
    with law v assms(2) show ?thesis by (auto simp: is_user_bit)
  qed
  with law assms(2) show ?thesis by simp
qed


definition boot_vm :: vm where
  "boot_vm = \<lparr>heap = [\<lparr>node_start = 0x80020000, node_size = 0x3FFE0000\<rparr>], tables = (\<lambda>_ _. 0), bytes = (\<lambda>_. 0)\<rparr>"

lemma boot_tab: "tab boot_vm r q = (if q = [] then Some r else None)"
  by (cases q) (simp_all add: tab.simps boot_vm_def)

lemma boot_inv: "pt_inv {0x80005000} boot_vm"
proof -
  have "held_page 0x80005000 boot_vm"
    unfolding held_page_def block_fits_def block_size_page
    by (auto simp: page_layout_def param_values page_block_def boot_vm_def region_bytes_def)
  moreover have "wf_free (heap boot_vm)"
    by (simp add: boot_vm_def wf_free_def wf_region_def)
  ultimately show ?thesis
    by (auto simp: pt_inv_def boot_tab split: if_splits)
qed


end
