(* ===== verification/Block_Alloc.thy ===== *)
theory Block_Alloc
  imports Log
begin

text \<open>
  The block allocator: \<open>kernel/src/bmap.rs\<close>.  One bit per block of the disk tells whether the block
  is in use; the bitmap lies in the blocks from \<open>SB.bmapstart\<close> on and is changed through the log.

  The laws are stated over what the cache shows (\<open>view\<close>) inside a transaction with room for the
  writes (\<open>in_txn\<close>), so that they compose with the code that calls the allocator while it holds
  other buffers.
\<close>

section \<open>Operations\<close>

definition BPB :: nat where
  "BPB = BSIZE * 8"

definition bmap_block :: "u32 \<Rightarrow> 'z sb_state_scheme \<Rightarrow> u32" where
  "bmap_block bn s = bn div of_nat BPB + sb_bmapstart (SB s)"

definition bit_mask :: "nat \<Rightarrow> u8" where
  "bit_mask offset = push_bit (offset mod 8) 1"

definition bit_used :: "block \<Rightarrow> nat \<Rightarrow> bool" where
  "bit_used d offset \<longleftrightarrow> d (offset div 8) AND bit_mask offset \<noteq> 0"

definition mark_used :: "nat \<Rightarrow> block \<Rightarrow> block" where
  "mark_used offset d = d(offset div 8 := d (offset div 8) OR bit_mask offset)"

definition mark_free :: "nat \<Rightarrow> block \<Rightarrow> block" where
  "mark_free offset d = d(offset div 8 := d (offset div 8) AND NOT (bit_mask offset))"

definition bzero :: "u32 \<Rightarrow> u32 \<Rightarrow> 'z log_state_scheme \<Rightarrow> 'z log_state_scheme option" where
  "bzero dev blockno s = do {
     (buf, s) \<leftarrow> bread dev blockno s;
     let s = set_buf_data buf (\<lambda>_. 0) s;
     s \<leftarrow> log_write buf s;
     buf_drop buf s }"

text \<open>The inner loop of \<open>alloc\<close>, over the bits of one block of the bitmap.\<close>

fun scan_bits :: "block \<Rightarrow> nat \<Rightarrow> nat \<Rightarrow> nat list \<Rightarrow> nat option" where
  "scan_bits d base sz [] = None"
| "scan_bits d base sz (offset # offsets) =
     (if base + offset \<ge> sz then None
      else if bit_used d offset then scan_bits d base sz offsets
      else Some offset)"

fun balloc_loop :: "u32 \<Rightarrow> nat \<Rightarrow> nat list \<Rightarrow> 'z log_state_scheme \<Rightarrow> (u32 \<times> 'z log_state_scheme) option" where
  "balloc_loop dev sz [] s = None"
| "balloc_loop dev sz (base # bases) s = do {
     (buf, s) \<leftarrow> bread dev (bmap_block (of_nat base) s) s;
     case scan_bits (buf_data buf s) base sz [0..<BPB] of
       Some offset \<Rightarrow> do {
         let s = set_buf_data buf (mark_used offset (buf_data buf s)) s;
         let blockno = of_nat (base + offset);
         s \<leftarrow> log_write buf s;
         s \<leftarrow> buf_drop buf s;
         s \<leftarrow> bzero dev blockno s;
         Some (blockno, s) }
     | None \<Rightarrow> do { s \<leftarrow> buf_drop buf s; balloc_loop dev sz bases s } }"

definition balloc :: "u32 \<Rightarrow> 'z log_state_scheme \<Rightarrow> (u32 \<times> 'z log_state_scheme) option" where
  "balloc dev s =
     (let sz = unat (sb_size (SB s)) in balloc_loop dev sz (map (\<lambda>k. k * BPB) [0..<(sz + BPB - 1) div BPB]) s)"

definition bfree :: "u32 \<Rightarrow> u32 \<Rightarrow> 'z log_state_scheme \<Rightarrow> 'z log_state_scheme option" where
  "bfree dev bn s = do {
     (buf, s) \<leftarrow> bread dev (bmap_block bn s) s;
     let bi = unat bn mod BPB;
     if \<not> bit_used (buf_data buf s) bi then None
     else do {
       let s = set_buf_data buf (mark_free bi (buf_data buf s)) s;
       s \<leftarrow> log_write buf s;
       buf_drop buf s } }"

lemma unat_lt_32 [simp]: "unat (w :: u32) < 4294967296"
  using unsigned_less [of w] by simp

section \<open>Inside a transaction\<close>

text \<open>A transaction with room for \<open>k\<close> more blocks.\<close>

definition in_txn :: "nat \<Rightarrow> 'z log_state_scheme \<Rightarrow> bool" where
  "in_txn k s \<longleftrightarrow> log_ok s \<and> log_outstanding (LOG s) \<noteq> 0 \<and>
     unat (lh_n (log_hdr (LOG s))) + k < unat (log_size (LOG s)) \<and> card (in_use s) + k < NBUF"

text \<open>What a step inside a transaction leaves alone.\<close>

definition same_txn :: "'z log_state_scheme \<Rightarrow> 'z log_state_scheme \<Rightarrow> bool" where
  "same_txn s s' \<longleftrightarrow> disk s' = disk s \<and> writes s' = writes s \<and> held s' = held s \<and> SB s' = SB s \<and>
     log_state.more s' = log_state.more s \<and> (\<exists>h. LOG s' = (LOG s)\<lparr>log_hdr := h\<rparr>) \<and>
     (\<forall>g. guard_ok s g \<longrightarrow> guard_ok s' g)"

lemma same_txn_refl: "same_txn s s"
  unfolding same_txn_def by (auto intro!: exI [of _ "log_hdr (LOG s)"])

lemma same_txn_trans: "same_txn s s' \<Longrightarrow> same_txn s' s'' \<Longrightarrow> same_txn s s''"
  unfolding same_txn_def by auto

lemma same_txn_log: "same_txn s s' \<Longrightarrow> log_area (LOG s') = log_area (LOG s) \<and> SB s' = SB s \<and> held s' = held s"
  unfolding same_txn_def by (auto simp: log_area_def)

lemma in_txn_mono: "in_txn k s \<Longrightarrow> j \<le> k \<Longrightarrow> in_txn j s"
  by (simp add: in_txn_def)

lemma card_insert_bound: "card A \<le> n \<Longrightarrow> card (insert x A) \<le> Suc n"
  by (cases "finite A") (auto simp: card_insert_if)

lemma update_law:
  assumes "in_txn (Suc k) s" "b \<notin> log_area (LOG s)" "\<not> held s b"
  obtains s' where "log_update ROOTDEV b f s = Some s'" "in_txn k s'" "same_txn s s'"
    "view s' = (view s)(b := f (view s b))"
proof -
  have t: "log_ok s" "log_outstanding (LOG s) \<noteq> 0" "unat (lh_n (log_hdr (LOG s))) + Suc k < unat (log_size (LOG s))"
    "card (in_use s) + Suc k < NBUF"
    using assms(1) by (simp_all add: in_txn_def)
  have "card (insert b (in_use s)) \<le> Suc (card (in_use s))"
    by (rule card_insert_bound) simp
  then have may: "may_write s b"
    using t assms(2,3) by (simp add: may_write_def)
  obtain s' h' where u: "log_update ROOTDEV b f s = Some s'" "log_ok s'" "view s' = (view s)(b := f (view s b))"
    "disk s' = disk s" "writes s' = writes s" "held s' = held s"
    "\<And>g. guard_ok s g \<Longrightarrow> guard_ok s' g"
    "SB s' = SB s" "log_state.more s' = log_state.more s" "LOG s' = (LOG s)\<lparr>log_hdr := h'\<rparr>"
    "set (txn h') = insert b (set (txn (log_hdr (LOG s))))"
    "unat (lh_n h') = unat (lh_n (log_hdr (LOG s))) + of_bool (b \<notin> set (txn (log_hdr (LOG s))))"
    by (rule log_update_law [OF t(1) may, of f]) (rule that, assumption+)
  have "in_use s' = insert b (in_use s)"
    by (auto simp: in_use_def u)
  then have "card (in_use s') \<le> Suc (card (in_use s))"
    using card_insert_bound [of "in_use s" "card (in_use s)" b] by simp
  then have "in_txn k s'"
    using t u by (auto simp: in_txn_def)
  moreover have "same_txn s s'"
    unfolding same_txn_def using u by blast
  ultimately show thesis
    using that u(1,3) by blast
qed

lemma not_held_clean:
  assumes "log_ok s" "\<not> held s b"
  shows "b \<in> set (txn (log_hdr (LOG s))) \<or> view s b = disk s b"
proof (cases "b \<in> set (txn (log_hdr (LOG s)))")
  case False
  then have "refs s b = 0" using assms by (simp add: log_ok_def)
  then show ?thesis using unreferenced_clean [of s b] assms(1) by (simp add: log_ok_def)
qed simp

lemma read_law:
  assumes "in_txn k s" "\<not> held s b"
  obtains g s1 s2 where "bread ROOTDEV b s = Some (g, s1)" "buf_data g s1 = view s b" "SB s1 = SB s"
    "buf_drop g s1 = Some s2" "in_txn k s2" "same_txn s s2" "view s2 = view s"
proof -
  have t: "log_ok s" "card (insert b (in_use s)) \<le> NBUF"
    using assms(1) card_insert_bound [of "in_use s" "card (in_use s)" b] by (simp_all add: in_txn_def)
  obtain g s1 where g: "bread ROOTDEV b s = Some (g, s1)" "log_ok s1" "guard_ok s1 g" "g_blockno g = b"
    "view s1 = view s" "disk s1 = disk s" "writes s1 = writes s" "bcache.more s1 = bcache.more s"
    "held s1 = (held s)(b := True)" "\<And>g'. guard_ok s g' \<Longrightarrow> guard_ok s1 g'"
    by (rule log_ok_bread [OF t(1) assms(2) t(2)]) (rule that, assumption+)
  have L1: "LOG s1 = LOG s" by (rule more_LOG [OF g(8)])
  have inv1: "bcache_inv s1" using g(2) by (simp add: log_ok_def)
  have bd: "buf_data g s1 = view s b" using guard_okD(6) [OF inv1 g(3)] g by simp
  have "g_blockno g \<in> set (txn (log_hdr (LOG s1))) \<or> view s1 (g_blockno g) = disk s1 (g_blockno g)"
    using not_held_clean [OF t(1) assms(2)] by (simp add: g L1)
  then obtain s2 where s2: "buf_drop g s1 = Some s2" "log_ok s2" "view s2 = view s1" "disk s2 = disk s1"
    "writes s2 = writes s1" "bcache.more s2 = bcache.more s1" "held s2 = (held s1)(g_blockno g := False)"
    "\<And>g'. guard_ok s1 g' \<Longrightarrow> g_blockno g' \<noteq> g_blockno g \<Longrightarrow> guard_ok s2 g'"
    using log_ok_drop [OF g(2,3)] by blast
  have m: "bcache.more s2 = bcache.more s" using s2(6) g(8) by simp
  have held: "held s2 = held s" using assms(2) by (auto simp: s2(7) g(4,9) fun_eq_iff)
  have L2: "LOG s2 = LOG s" by (rule more_LOG [OF m])
  have "guard_ok s2 g'" if "guard_ok s g'" for g'
  proof -
    have "held s (g_blockno g')" using guard_okD(7) [OF _ that] t(1) by (simp add: log_ok_def)
    then have "g_blockno g' \<noteq> g_blockno g" using assms(2) g(4) by auto
    with s2(8) g(10) [OF that] show ?thesis by simp
  qed
  then have "same_txn s s2"
    unfolding same_txn_def using more_rest [OF m] held L2 s2 g
    by (auto intro!: exI [of _ "log_hdr (LOG s)"])
  moreover have "in_txn k s2"
    using assms(1) s2(2) held L2 by (simp add: in_txn_def in_use_def)
  ultimately show thesis
    using that [OF g(1) bd _ s2(1)] s2(3) g(5) more_rest [OF g(8)] by simp
qed

lemma log_update_after_bread:
  "bread dev b s = Some (g, s1) \<Longrightarrow>
     log_update dev b f s = log_write g (set_buf_data g (f (buf_data g s1)) s1) \<bind> buf_drop g"
  by (simp add: log_update_def)

lemma bzero_update: "bzero dev b s = log_update dev b (\<lambda>_ _. 0) s"
  by (simp add: bzero_def log_update_def)

section \<open>The bitmap\<close>

definition used :: "'z log_state_scheme \<Rightarrow> nat \<Rightarrow> bool" where
  "used s n \<longleftrightarrow> bit_used (view s (bmap_block (of_nat n) s)) (n mod BPB)"

definition nblocks :: "'z log_state_scheme \<Rightarrow> nat" where
  "nblocks s = unat (sb_size (SB s))"

lemma BPB_eq: "BPB = 32768"
  by (simp add: BPB_def BSIZE_def)

lemma scan_bits_upt:
  "case scan_bits d base sz [i..<m] of
     Some off \<Rightarrow> i \<le> off \<and> off < m \<and> base + off < sz \<and> \<not> bit_used d off \<and> (\<forall>k. i \<le> k \<longrightarrow> k < off \<longrightarrow> bit_used d k)
   | None \<Rightarrow> (\<forall>k. i \<le> k \<longrightarrow> k < m \<longrightarrow> base + k < sz \<longrightarrow> bit_used d k)"
proof (induction "m - i" arbitrary: i)
  case (Suc n)
  then have u: "[i..<m] = i # [Suc i..<m]" by (simp add: upt_conv_Cons)
  from Suc.hyps(1) [of "Suc i"] Suc.hyps(2)
  have IH: "case scan_bits d base sz [Suc i..<m] of
     Some off \<Rightarrow> Suc i \<le> off \<and> off < m \<and> base + off < sz \<and> \<not> bit_used d off \<and> (\<forall>k. Suc i \<le> k \<longrightarrow> k < off \<longrightarrow> bit_used d k)
   | None \<Rightarrow> (\<forall>k. Suc i \<le> k \<longrightarrow> k < m \<longrightarrow> base + k < sz \<longrightarrow> bit_used d k)"
    by simp
  have split: "(\<forall>k. i \<le> k \<longrightarrow> P k) \<longleftrightarrow> P i \<and> (\<forall>k. Suc i \<le> k \<longrightarrow> P k)" for P
    by (metis le_refl Suc_le_eq le_eq_less_or_eq Suc_leD)
  show ?case
    using IH Suc.hyps(2) unfolding u split by (auto split: option.splits)
qed simp

lemma scan_bits_Some:
  "scan_bits d base sz [0..<m] = Some off \<Longrightarrow>
     off < m \<and> base + off < sz \<and> \<not> bit_used d off \<and> (\<forall>k < off. bit_used d k)"
  using scan_bits_upt [where d = d and base = base and sz = sz and i = 0 and m = m] by simp

lemma scan_bits_None:
  "scan_bits d base sz [0..<m] = None \<Longrightarrow> k < m \<Longrightarrow> base + k < sz \<Longrightarrow> bit_used d k"
  using scan_bits_upt [where d = d and base = base and sz = sz and i = 0 and m = m] by simp

lemma bmap_block_div:
  assumes "n < 2 ^ 32"
  shows "bmap_block (of_nat n) s = of_nat (n div BPB) + sb_bmapstart (SB s)"
proof -
  have "unat ((of_nat n :: u32) div of_nat BPB) = unat (of_nat (n div BPB) :: u32)"
    using assms by (simp add: unat_div_distrib unat_of_nat BPB_eq order.strict_trans1 [OF div_le_dividend])
  then have "(of_nat n :: u32) div of_nat BPB = of_nat (n div BPB)" by (rule unsigned_word_eqI)
  then show ?thesis by (simp add: bmap_block_def)
qed

lemma bmap_block_base:
  assumes "j * BPB + off < 2 ^ 32" "off < BPB"
  shows "bmap_block (of_nat (j * BPB + off)) s = bmap_block (of_nat (j * BPB)) s"
  using assms bmap_block_div [of "j * BPB + off" s] bmap_block_div [of "j * BPB" s] by (simp add: BPB_eq)

lemma bmap_block_eq_iff:
  assumes "m < 2 ^ 32" "n < 2 ^ 32"
  shows "bmap_block (of_nat m) s = bmap_block (of_nat n) s \<longleftrightarrow> m div BPB = n div BPB"
proof -
  have "unat (of_nat (k div BPB) :: u32) = k div BPB" if "k < 2 ^ 32" for k
    using that by (simp add: unat_of_nat order.strict_trans1 [OF div_le_dividend])
  from this [OF assms(1)] this [OF assms(2)] show ?thesis
    unfolding bmap_block_div [OF assms(1)] bmap_block_div [OF assms(2)] by (metis add_right_cancel)
qed

section \<open>Allocation\<close>

text \<open>The bitmap blocks are neither held nor part of the log.\<close>

definition bitmap_ok :: "'z log_state_scheme \<Rightarrow> bool" where
  "bitmap_ok s \<longleftrightarrow> (\<forall>n < nblocks s. bmap_block (of_nat n) s \<notin> log_area (LOG s) \<and> \<not> held s (bmap_block (of_nat n) s))"

lemma same_txn_bitmap:
  assumes "same_txn s s'"
  shows "bmap_block bn s' = bmap_block bn s" "nblocks s' = nblocks s" "bitmap_ok s' = bitmap_ok s"
  using same_txn_log [OF assms] by (simp_all add: bmap_block_def nblocks_def bitmap_ok_def)

lemma bfree_update:
  assumes "bread dev (bmap_block bn s) s = Some (g, s1)" "bit_used (buf_data g s1) (unat bn mod BPB)"
  shows "bfree dev bn s = log_update dev (bmap_block bn s) (mark_free (unat bn mod BPB)) s"
  using assms by (simp add: bfree_def log_update_def Let_def)

lemma balloc_loop_law:
  assumes "in_txn (Suc (Suc k)) s" "bitmap_ok s" "n < nblocks s" "\<not> used s n" "\<forall>m < n. used s m"
    "of_nat n \<notin> log_area (LOG s)" "\<not> held s (of_nat n)" "j * BPB \<le> n"
  shows "\<exists>s'. balloc_loop ROOTDEV (nblocks s) (map (\<lambda>k. k * BPB) [j..<(nblocks s + BPB - 1) div BPB]) s = Some (of_nat n, s') \<and>
    in_txn k s' \<and> same_txn s s' \<and>
    view s' = (view s)(bmap_block (of_nat n) s := mark_used (n mod BPB) (view s (bmap_block (of_nat n) s)),
                       of_nat n := (\<lambda>_. 0))"
  using assms
proof (induction "n - j * BPB" arbitrary: s j rule: less_induct)
  case less
  let ?sz = "nblocks s" and ?bb = "bmap_block (of_nat (j * BPB)) s"
  have "j * BPB < ?sz" using less.prems(3,8) by linarith
  then have jm: "j < (?sz + BPB - 1) div BPB"
    by (simp add: BPB_eq less_eq_div_iff_mult_less_eq flip: Suc_le_eq)
  have sz: "?sz < 2 ^ 32" by (simp add: nblocks_def)
  have bb: "?bb \<notin> log_area (LOG s)" "\<not> held s ?bb"
    using less.prems(2) \<open>j * BPB < ?sz\<close> by (auto simp: bitmap_ok_def)
  have same: "bmap_block (of_nat (j * BPB + x)) s = ?bb" if "j * BPB + x < ?sz" "x < BPB" for x
    using that sz by (intro bmap_block_base) simp_all
  obtain g s1 s2 where r: "bread ROOTDEV ?bb s = Some (g, s1)" "buf_data g s1 = view s ?bb" "SB s1 = SB s"
    "buf_drop g s1 = Some s2" "in_txn (Suc (Suc k)) s2" "same_txn s s2" "view s2 = view s"
    by (rule read_law [OF less.prems(1) bb(2)]) (rule that, assumption+)
  show ?case
  proof (cases "scan_bits (view s ?bb) (j * BPB) ?sz [0..<BPB]")
    case (Some off)
    note sc = scan_bits_Some [OF Some]
    have "off mod BPB = off" using sc by simp
    then have "\<not> used s (j * BPB + off)" using sc same by (simp add: used_def)
    then have "n \<le> j * BPB + off" using less.prems(5) by (meson not_le)
    moreover have "\<not> n < j * BPB + off"
    proof
      assume lt: "n < j * BPB + off"
      then obtain x where x: "n = j * BPB + x" "x < off" "x < BPB"
        using less.prems(8) sc le_Suc_ex [OF less.prems(8)] by auto
      then have "used s n" using sc same [of x] less.prems(3) by (simp add: used_def)
      with less.prems(4) show False ..
    qed
    ultimately have n: "n = j * BPB + off" by simp
    have nb: "bmap_block (of_nat n) s = ?bb" "n mod BPB = off" using n same sc by simp_all
    obtain t1 where t1: "log_update ROOTDEV ?bb (mark_used off) s = Some t1" "in_txn (Suc k) t1" "same_txn s t1"
      "view t1 = (view s)(?bb := mark_used off (view s ?bb))"
      by (rule update_law [OF less.prems(1) bb]) (rule that, assumption+)
    have nn: "of_nat n \<notin> log_area (LOG t1)" "\<not> held t1 (of_nat n)"
      using same_txn_log [OF t1(3)] less.prems(6,7) by simp_all
    obtain t2 where t2: "log_update ROOTDEV (of_nat n) (\<lambda>_ _. 0) t1 = Some t2" "in_txn k t2" "same_txn t1 t2"
      "view t2 = (view t1)(of_nat n := (\<lambda>_. 0))"
      by (rule update_law [OF t1(2) nn]) (rule that, assumption+)
    have "balloc_loop ROOTDEV ?sz (map (\<lambda>k. k * BPB) [j..<(?sz + BPB - 1) div BPB]) s = Some (of_nat n, t2)"
      using t1(1) t2(1) Some r(1,2) log_update_after_bread [OF r(1), of "mark_used off"]
      unfolding upt_conv_Cons [OF jm] by (auto simp: n bzero_update Let_def split: Option.bind_splits)
    moreover have "same_txn s t2" using t1(3) t2(3) by (rule same_txn_trans)
    ultimately show ?thesis
      using t2(2,4) t1(4) unfolding nb by auto
  next
    case None
    note sc = scan_bits_None [OF None]
    have "\<not> n < Suc j * BPB"
    proof
      assume "n < Suc j * BPB"
      then obtain x where x: "n = j * BPB + x" "x < BPB"
        using less.prems(8) le_Suc_ex [OF less.prems(8)] by auto
      then have "used s n" using sc [of x] same [of x] less.prems(3) by (simp add: used_def)
      with less.prems(4) show False ..
    qed
    then have le: "Suc j * BPB \<le> n" by simp
    have u: "used s2 m = used s m" for m
      using same_txn_bitmap(1) [OF r(6)] r(7) by (simp add: used_def)
    note st = same_txn_bitmap [OF r(6)] same_txn_log [OF r(6)]
    have "n - Suc j * BPB < n - j * BPB" using le by (simp add: BPB_eq)
    from less.hyps [OF this r(5)] less.prems(2-7) le st u obtain s' where
      s': "balloc_loop ROOTDEV ?sz (map (\<lambda>k. k * BPB) [Suc j..<(?sz + BPB - 1) div BPB]) s2 = Some (of_nat n, s')"
      "in_txn k s'" "same_txn s2 s'"
      "view s' = (view s2)(bmap_block (of_nat n) s := mark_used (n mod BPB) (view s2 (bmap_block (of_nat n) s)),
                       of_nat n := (\<lambda>_. 0))"
      by auto
    have "balloc_loop ROOTDEV ?sz (map (\<lambda>k. k * BPB) [j..<(?sz + BPB - 1) div BPB]) s = Some (of_nat n, s')"
      using s'(1) None r(1,2,4) unfolding upt_conv_Cons [OF jm] by simp
    moreover have "same_txn s s'" using r(6) s'(3) by (rule same_txn_trans)
    ultimately show ?thesis
      using s'(2,4) r(7) by auto
  qed
qed

lemma bit_mask_bit [simp]: "bit (bit_mask i) n \<longleftrightarrow> n = i mod 8"
proof -
  have "i mod 8 < 8" by simp
  then show ?thesis by (auto simp: bit_mask_def bit_simps)
qed

lemma and_mask_iff: "(w :: u8) AND bit_mask i \<noteq> 0 \<longleftrightarrow> bit w (i mod 8)"
proof -
  have "(w AND bit_mask i) = 0 \<longleftrightarrow> (\<forall>n. \<not> bit (w AND bit_mask i) n)"
    by (auto intro: bit_eqI)
  then show ?thesis by (simp add: bit_and_iff)
qed

lemma bit_used_bit: "bit_used d i \<longleftrightarrow> bit (d (i div 8)) (i mod 8)"
  by (simp add: bit_used_def and_mask_iff)

lemma bit_used_marks:
  "bit_used (mark_used i d) j \<longleftrightarrow> j = i \<or> bit_used d j"
  "bit_used (mark_free i d) j \<longleftrightarrow> j \<noteq> i \<and> bit_used d j"
proof -
  have eq: "i = j \<longleftrightarrow> i div 8 = j div 8 \<and> i mod 8 = j mod 8"
    by (metis div_mult_mod_eq)
  have "j mod 8 < 8" by simp
  then show "bit_used (mark_used i d) j \<longleftrightarrow> j = i \<or> bit_used d j"
    "bit_used (mark_free i d) j \<longleftrightarrow> j \<noteq> i \<and> bit_used d j"
    using eq by (auto simp: bit_used_bit mark_used_def mark_free_def bit_or_iff bit_and_iff bit_not_iff)
qed

lemma mark_free_used: "\<not> bit_used d i \<Longrightarrow> mark_free i (mark_used i d) = d"
  by (rule ext) (auto simp: mark_free_def mark_used_def bit_used_bit intro!: bit_eqI
      simp: bit_or_iff bit_and_iff bit_not_iff)

lemma balloc_law:
  assumes "in_txn (Suc (Suc k)) s" "bitmap_ok s" "n < nblocks s" "\<not> used s n" "\<forall>m < n. used s m"
    "of_nat n \<notin> log_area (LOG s)" "\<not> held s (of_nat n)"
  obtains s' where "balloc ROOTDEV s = Some (of_nat n, s')" "in_txn k s'" "same_txn s s'"
    "view s' = (view s)(bmap_block (of_nat n) s := mark_used (n mod BPB) (view s (bmap_block (of_nat n) s)),
                       of_nat n := (\<lambda>_. 0))"
  using balloc_loop_law [OF assms, of 0] that by (auto simp: balloc_def nblocks_def Let_def)

lemma bfree_law:
  assumes "in_txn (Suc k) s" "bitmap_ok s" "unat bn < nblocks s" "used s (unat bn)"
  obtains s' where "bfree ROOTDEV bn s = Some s'" "in_txn k s'" "same_txn s s'"
    "view s' = (view s)(bmap_block bn s := mark_free (unat bn mod BPB) (view s (bmap_block bn s)))"
proof -
  let ?bb = "bmap_block bn s"
  have bb: "?bb \<notin> log_area (LOG s)" "\<not> held s ?bb"
    using assms(2,3) by (auto simp: bitmap_ok_def dest!: spec [of _ "unat bn"])
  obtain g s1 s2 where r: "bread ROOTDEV ?bb s = Some (g, s1)" "buf_data g s1 = view s ?bb" "SB s1 = SB s"
    "buf_drop g s1 = Some s2" "in_txn (Suc k) s2" "same_txn s s2" "view s2 = view s"
    by (rule read_law [OF assms(1) bb(2)]) (rule that, assumption+)
  have "bit_used (buf_data g s1) (unat bn mod BPB)"
    using assms(4) r(2) by (simp add: used_def)
  then have eq: "bfree ROOTDEV bn s = log_update ROOTDEV ?bb (mark_free (unat bn mod BPB)) s"
    using r(1) by (rule bfree_update [rotated])
  show thesis
    by (rule update_law [OF assms(1) bb, of "mark_free (unat bn mod BPB)"]) (rule that, simp_all add: eq)
qed

lemma mod_block_inj: "m div BPB = n div BPB \<Longrightarrow> m mod BPB = n mod BPB \<longleftrightarrow> m = n"
  by (metis div_mult_mod_eq)

text \<open>C16: Inside a transaction with room for two blocks, \<open>bmap::alloc\<close> returns the lowest free block
  of the disk, marks exactly that block as used, and clears it; freeing the block right after
  gives the bitmap back as it was.  All other blocks keep their contents, and nothing
  reaches the disk.\<close>

theorem balloc_bfree:
  assumes "in_txn (Suc (Suc (Suc k))) s" "bitmap_ok s" "n < nblocks s" "\<not> used s n" "\<forall>m < n. used s m"
    "of_nat n \<notin> log_area (LOG s)" "\<not> held s (of_nat n)"
    "\<forall>m < nblocks s. bmap_block (of_nat m) s \<noteq> of_nat n"
  shows "\<exists>s1 s2. balloc ROOTDEV s = Some (of_nat n, s1) \<and> same_txn s s1 \<and>
    (\<forall>m < nblocks s. used s1 m \<longleftrightarrow> m = n \<or> used s m) \<and> view s1 (of_nat n) = (\<lambda>_. 0) \<and>
    (\<forall>b. b \<noteq> of_nat n \<longrightarrow> b \<noteq> bmap_block (of_nat n) s \<longrightarrow> view s1 b = view s b) \<and>
    bfree ROOTDEV (of_nat n) s1 = Some s2 \<and> same_txn s s2 \<and> view s2 = (view s)(of_nat n := (\<lambda>_. 0))"
proof -
  let ?bb = "bmap_block (of_nat n) s"
  obtain s1 where s1: "balloc ROOTDEV s = Some (of_nat n, s1)" "in_txn (Suc k) s1" "same_txn s s1"
    "view s1 = (view s)(?bb := mark_used (n mod BPB) (view s ?bb), of_nat n := (\<lambda>_. 0))"
    by (rule balloc_law [OF assms(1-7)]) (rule that, assumption+)
  note st = same_txn_bitmap [OF s1(3)]
  have sz: "nblocks s < 2 ^ 32" by (simp add: nblocks_def)
  have un: "unat (of_nat n :: u32) = n" using assms(3) sz by (simp add: unat_of_nat)
  have bbn: "?bb \<noteq> of_nat n" using assms(3,8) by blast
  have used1: "used s1 m \<longleftrightarrow> m = n \<or> used s m" if m: "m < nblocks s" for m
  proof -
    have "bmap_block (of_nat m) s = ?bb \<longleftrightarrow> m div BPB = n div BPB"
      using m assms(3) sz by (intro bmap_block_eq_iff) simp_all
    moreover have "bmap_block (of_nat m) s \<noteq> of_nat n" using m assms(8) by blast
    ultimately show ?thesis
      using mod_block_inj [of m n] by (auto simp: used_def st s1(4) bit_used_marks)
  qed
  have "bitmap_ok s1" "unat (of_nat n :: u32) < nblocks s1" "used s1 (unat (of_nat n :: u32))"
    using assms(2,3) st used1 un by simp_all
  then obtain s2 where s2: "bfree ROOTDEV (of_nat n) s1 = Some s2" "same_txn s1 s2"
    "view s2 = (view s1)(?bb := mark_free (n mod BPB) (view s1 ?bb))"
    by (rule bfree_law [OF s1(2)]) (rule that, simp_all only: un st)
  have "view s2 = (view s)(of_nat n := (\<lambda>_. 0))"
    using bbn assms(4) by (auto simp: s2(3) s1(4) fun_upd_twist mark_free_used used_def)
  moreover have "same_txn s s2" using s1(3) s2(2) by (rule same_txn_trans)
  ultimately show ?thesis
    using s1 s2(1) used1 by auto
qed

section \<open>A concrete disk\<close>

text \<open>A transaction that has just begun on a freshly booted kernel with the disk \<open>D\<close>.\<close>

definition demo_fs :: "(u32 \<Rightarrow> block) \<Rightarrow> log_state" where
  "demo_fs D = (reboot demo_sb D)\<lparr>LOG := (log_at demo_sb)\<lparr>log_outstanding := 1\<rparr>\<rparr>"

lemma demo_fs_simps:
  "view (demo_fs D) = D" "disk (demo_fs D) = D" "SB (demo_fs D) = demo_sb" "held (demo_fs D) = (\<lambda>_. False)"
  "LOG (demo_fs D) = (log_at demo_sb)\<lparr>log_outstanding := 1\<rparr>" "refs (demo_fs D) = (\<lambda>_. 0)" "bcache_inv (demo_fs D)"
proof -
  have "held (reboot demo_sb D) = (\<lambda>_. False)" "bcache_inv (reboot demo_sb D)"
    using reboot_simps(1) [of demo_sb D] by (auto simp: idle_def)
  then show "view (demo_fs D) = D" "disk (demo_fs D) = D" "SB (demo_fs D) = demo_sb" "held (demo_fs D) = (\<lambda>_. False)"
    "LOG (demo_fs D) = (log_at demo_sb)\<lparr>log_outstanding := 1\<rparr>" "refs (demo_fs D) = (\<lambda>_. 0)" "bcache_inv (demo_fs D)"
    using reboot_simps [of demo_sb D] bcache_cong [of "demo_fs D" "reboot demo_sb D"]
    by (simp_all add: demo_fs_def) (simp_all add: reboot_def)
qed

lemma demo_fs_txn:
  assumes "lh_n (header_of (D 2)) = 0" "k \<le> 28"
  shows "in_txn k (demo_fs D)"
proof -
  have "log_ok (demo_fs D)"
    using assms(1) by (simp add: log_ok_def demo_fs_simps log_geom_def log_at_def demo_sb_def LOGSIZE_eq header_ok_def
        txn_def log_new_def)
  then show ?thesis
    using assms(2) by (simp add: in_txn_def in_use_def demo_fs_simps log_at_def demo_sb_def txn_def log_new_def NBUF_eq)
qed

text \<open>The first forty blocks are in use.\<close>

definition demo_bitmap :: "u32 \<Rightarrow> block" where
  "demo_bitmap b = (if b = 36 then (\<lambda>i. if i < 5 then 255 else 0) else (\<lambda>_. 0))"

lemma demo_bmap_block: "m < 2000 \<Longrightarrow> bmap_block (of_nat m) (demo_fs D) = 36"
  by (simp add: bmap_block_div demo_fs_simps demo_sb_def BPB_eq)

lemma demo_used: "m < 2000 \<Longrightarrow> used (demo_fs demo_bitmap) m \<longleftrightarrow> m < 40"
proof -
  assume m: "m < 2000"
  have "m mod 8 \<in> {0, 1, 2, 3, 4, 5, 6, 7}" by auto
  then have "bit (255 :: u8) (m mod 8)" by auto
  moreover have "m div 8 < 5 \<longleftrightarrow> m < 40" by auto
  ultimately show ?thesis
    using m by (simp add: used_def demo_bmap_block demo_fs_simps demo_bitmap_def bit_used_bit BPB_eq)
qed

theorem balloc_bfree_witness:
  "\<exists>s1 s2. balloc ROOTDEV (demo_fs demo_bitmap) = Some (of_nat 40, s1) \<and> same_txn (demo_fs demo_bitmap) s1 \<and>
    (\<forall>m < nblocks (demo_fs demo_bitmap). used s1 m \<longleftrightarrow> m = 40 \<or> used (demo_fs demo_bitmap) m) \<and>
    view s1 (of_nat 40) = (\<lambda>_. 0) \<and>
    (\<forall>b. b \<noteq> of_nat 40 \<longrightarrow> b \<noteq> bmap_block (of_nat 40) (demo_fs demo_bitmap) \<longrightarrow> view s1 b = view (demo_fs demo_bitmap) b) \<and>
    bfree ROOTDEV (of_nat 40) s1 = Some s2 \<and> same_txn (demo_fs demo_bitmap) s2 \<and>
    view s2 = (view (demo_fs demo_bitmap))(of_nat 40 := (\<lambda>_. 0))"
proof (rule balloc_bfree)
  have n: "nblocks (demo_fs demo_bitmap) = 2000"
    by (simp add: nblocks_def demo_fs_simps demo_sb_def)
  have la: "log_area (LOG (demo_fs demo_bitmap)) = {b. 2 \<le> unat b \<and> unat b < 32}"
    by (auto simp: demo_fs_simps log_area_def log_at_def demo_sb_def log_new_def)
  show "in_txn (Suc (Suc (Suc 0))) (demo_fs demo_bitmap)"
    by (rule demo_fs_txn) (simp_all add: demo_bitmap_def header_of_def le_u32_def)
  show "bitmap_ok (demo_fs demo_bitmap)"
    by (simp add: bitmap_ok_def n la demo_bmap_block) (simp add: demo_fs_simps)
  show "40 < nblocks (demo_fs demo_bitmap)" "\<not> used (demo_fs demo_bitmap) 40"
    "\<forall>m < 40. used (demo_fs demo_bitmap) m" "of_nat 40 \<notin> log_area (LOG (demo_fs demo_bitmap))"
    "\<not> held (demo_fs demo_bitmap) (of_nat 40)"
    "\<forall>m < nblocks (demo_fs demo_bitmap). bmap_block (of_nat m) (demo_fs demo_bitmap) \<noteq> of_nat 40"
    by (simp_all add: n demo_used la demo_bmap_block) (simp add: demo_fs_simps)
qed

end
