(* ===== verification/Path.thy ===== *)
theory Path
  imports Xv6_Prelude
begin

text \<open>
  Path names: \<open>InodeTable::skip_elem\<close> of \<open>kernel/src/fs.rs\<close>.  A path is a byte buffer with a
  terminating zero; \<open>skip_elem\<close> copies the next element into a buffer of \<open>DIRSIZ\<close> bytes and returns
  the position after it, 0 when there is none.  Indexing the path out of bounds panics (\<open>None\<close>).
\<close>

definition DIRSIZ :: nat where
  "DIRSIZ = 30"

definition slash :: u8 where
  "slash = 47"

text \<open>\<open>while p(path[cur]) { cur += 1 }\<close>.\<close>

function skip_while :: "(u8 \<Rightarrow> bool) \<Rightarrow> u8 list \<Rightarrow> nat \<Rightarrow> nat option" where
  "skip_while p path cur =
     (if cur < length path then if p (path ! cur) then skip_while p path (cur + 1) else Some cur else None)"
  by auto
termination by (relation "measure (\<lambda>(p, path, cur). length path - cur)") auto

declare skip_while.simps [simp del]

definition copy_elem :: "u8 list \<Rightarrow> nat \<Rightarrow> nat \<Rightarrow> u8 list \<Rightarrow> u8 list" where
  "copy_elem path s len name = (take len (drop s path) @ drop len name)[len := 0]"

definition skip_elem :: "u8 list \<Rightarrow> nat \<Rightarrow> u8 list \<Rightarrow> (nat \<times> u8 list) option" where
  "skip_elem path cur name = do {
     cur \<leftarrow> skip_while (\<lambda>c. c = slash) path cur;
     if path ! cur = 0 then Some (0, name)
     else do {
       let s = cur;
       cur \<leftarrow> skip_while (\<lambda>c. c \<noteq> slash \<and> c \<noteq> 0) path cur;
       let len = cur - s;
       let len = (if len \<ge> length name then length name - 1 else len);
       let name = copy_elem path s len name;
       cur \<leftarrow> skip_while (\<lambda>c. c = slash) path cur;
       Some (cur, name) } }"

section \<open>What it parses\<close>

text \<open>The elements of a path, as a specification: split the bytes before the first zero at the
  slashes and drop the empty pieces.\<close>

function elements :: "u8 list \<Rightarrow> u8 list list" where
  "elements [] = []"
| "elements (c # cs) =
     (if c = slash then elements cs
      else takeWhile (\<lambda>c. c \<noteq> slash) (c # cs) # elements (dropWhile (\<lambda>c. c \<noteq> slash) cs))"
  by pat_completeness auto
termination by (relation "measure length") (auto simp: length_dropWhile_le less_Suc_eq_le)

definition cstr :: "u8 list \<Rightarrow> u8 list" where
  "cstr bs = takeWhile (\<lambda>c. c \<noteq> 0) bs"

lemma skip_while_Some:
  "skip_while p path cur = Some k \<longleftrightarrow>
     cur \<le> k \<and> k < length path \<and> \<not> p (path ! k) \<and> (\<forall>i. cur \<le> i \<longrightarrow> i < k \<longrightarrow> p (path ! i))"
proof (induction p path cur rule: skip_while.induct)
  case (1 p path cur)
  show ?case
  proof (cases "cur < length path \<and> p (path ! cur)")
    case True
    then have "skip_while p path cur = Some k \<longleftrightarrow> Suc cur \<le> k \<and> k < length path \<and> \<not> p (path ! k) \<and>
        (\<forall>i. Suc cur \<le> i \<longrightarrow> i < k \<longrightarrow> p (path ! i))"
      using 1 by (simp add: skip_while.simps [of p path cur])
    also have "\<dots> \<longleftrightarrow> cur \<le> k \<and> k < length path \<and> \<not> p (path ! k) \<and> (\<forall>i. cur \<le> i \<longrightarrow> i < k \<longrightarrow> p (path ! i))"
      using True by (metis Suc_le_eq le_eq_less_or_eq less_imp_le_nat)
    finally show ?thesis .
  next
    case False
    then show ?thesis
      by (subst skip_while.simps) (auto intro: le_neq_implies_less)
  qed
qed

lemma skip_while_total:
  assumes "cur \<le> k" "k < length path" "\<not> p (path ! k)"
  obtains j where "skip_while p path cur = Some j" "j \<le> k"
  using assms
proof (induction p path cur arbitrary: thesis rule: skip_while.induct)
  case (1 p path cur)
  then show ?case
    by (subst (asm) (2) skip_while.simps) (metis Suc_eq_plus1 Suc_leI le_neq_implies_less order.strict_trans1)
qed

lemma skip_while_drop:
  assumes "skip_while p path cur = Some k"
  shows "drop k path = dropWhile p (drop cur path)"
    and "take (k - cur) (drop cur path) = takeWhile p (drop cur path)"
proof -
  from assms have k: "cur \<le> k" "k < length path" "\<not> p (path ! k)"
      "\<And>i. cur \<le> i \<Longrightarrow> i < k \<Longrightarrow> p (path ! i)"
    by (auto simp: skip_while_Some)
  let ?a = "take (k - cur) (drop cur path)"
  have split: "drop cur path = ?a @ drop k path"
    using k(1,2) by (metis append_take_drop_id drop_drop le_add_diff_inverse2)
  have all: "\<And>x. x \<in> set ?a \<Longrightarrow> p x"
    using k by (auto simp: in_set_conv_nth)
  have hd: "drop k path = path ! k # drop (Suc k) path"
    using k(2) by (rule Cons_nth_drop_Suc [symmetric])
  have "dropWhile p (?a @ drop k path) = drop k path"
    by (subst dropWhile_append2) (use all hd k(3) in auto)
  then show "drop k path = dropWhile p (drop cur path)"
    using split by simp
  have "takeWhile p (?a @ drop k path) = ?a"
    by (subst takeWhile_append2) (use all hd k(3) in auto)
  then show "?a = takeWhile p (drop cur path)"
    using split by simp
qed

lemma skip_elem_pos:
  assumes "skip_elem path cur name = Some (pos, name')" "pos \<noteq> 0"
  shows "cur < pos" "pos < length path" "length name' = length name"
proof -
  from assms obtain i j where i: "skip_while (\<lambda>c. c = slash) path cur = Some i" "path ! i \<noteq> 0"
    and j: "skip_while (\<lambda>c. c \<noteq> slash \<and> c \<noteq> 0) path i = Some j"
    and pos: "skip_while (\<lambda>c. c = slash) path j = Some pos"
    and name': "name' = copy_elem path i (if j - i \<ge> length name then length name - 1 else j - i) name"
    by (auto simp: skip_elem_def Let_def split: Option.bind_splits if_splits)
  from i j have "i < j"
    by (auto simp: skip_while_Some intro: le_neq_implies_less)
  with i j pos show "cur < pos" "pos < length path"
    by (auto simp: skip_while_Some)
  from j name' show "length name' = length name"
    by (auto simp: copy_elem_def skip_while_Some)
qed

text \<open>The names the loop of \<open>namex\<close> looks up, in order.\<close>

function path_names :: "u8 list \<Rightarrow> nat \<Rightarrow> u8 list \<Rightarrow> u8 list list option" where
  "path_names path pos name =
     (case skip_elem path pos name of
        None \<Rightarrow> None
      | Some (pos', name') \<Rightarrow>
          if pos' = 0 then Some [] else map_option ((#) (cstr name')) (path_names path pos' name'))"
  by auto
termination
  by (relation "measure (\<lambda>(path, pos, name). length path - pos)")
    (auto intro!: diff_less_mono2 intro: skip_elem_pos(1) less_trans [OF skip_elem_pos(1) skip_elem_pos(2)])

declare path_names.simps [simp del]

lemma skip_elem_total:
  assumes "cur \<le> k" "k < length path" "path ! k = 0"
  obtains pos name' where "skip_elem path cur name = Some (pos, name')" "pos \<le> k"
proof -
  obtain i where i: "skip_while (\<lambda>c. c = slash) path cur = Some i" "i \<le> k"
    using assms skip_while_total [of cur k path "\<lambda>c. c = slash"] by (auto simp: slash_def)
  obtain j where j: "skip_while (\<lambda>c. c \<noteq> slash \<and> c \<noteq> 0) path i = Some j" "j \<le> k"
    using assms i skip_while_total [of i k path "\<lambda>c. c \<noteq> slash \<and> c \<noteq> 0"] by auto
  obtain p where p: "skip_while (\<lambda>c. c = slash) path j = Some p" "p \<le> k"
    using assms j skip_while_total [of j k path "\<lambda>c. c = slash"] by (auto simp: slash_def)
  from i j p that show thesis
    by (cases "path ! i = 0") (auto simp: skip_elem_def Let_def)
qed

lemma cstr_copy_elem:
  assumes "0 \<notin> set (take len (drop s path))" "len < length name" "s + len \<le> length path"
  shows "cstr (copy_elem path s len name) = take len (drop s path)"
proof -
  have "copy_elem path s len name = take len (drop s path) @ 0 # drop (Suc len) name"
    using assms(2,3) by (simp add: copy_elem_def list_update_append Cons_nth_drop_Suc [symmetric])
  then show ?thesis
    using assms(1) by (auto simp: cstr_def takeWhile_append)
qed

lemma cstr_dropWhile_slash:
  "cstr (dropWhile (\<lambda>c. c = slash) xs) = dropWhile (\<lambda>c. c = slash) (cstr xs)"
  by (induction xs) (auto simp: cstr_def slash_def)

lemma elements_dropWhile_slash [simp]:
  "elements (dropWhile (\<lambda>c. c = slash) xs) = elements xs"
  by (induction xs) auto

lemma takeWhile_slash_cstr:
  "takeWhile (\<lambda>c. c \<noteq> slash) (cstr xs) = takeWhile (\<lambda>c. c \<noteq> slash \<and> c \<noteq> 0) xs"
  by (induction xs) (auto simp: cstr_def slash_def)

lemma dropWhile_slash_cstr:
  "dropWhile (\<lambda>c. c \<noteq> slash) (cstr xs) = cstr (dropWhile (\<lambda>c. c \<noteq> slash \<and> c \<noteq> 0) xs)"
  by (induction xs) (auto simp: cstr_def slash_def)

lemma elements_step:
  assumes "xs \<noteq> []" "hd xs \<noteq> slash"
  shows "elements xs = takeWhile (\<lambda>c. c \<noteq> slash) xs # elements (dropWhile (\<lambda>c. c \<noteq> slash) xs)"
  using assms by (cases xs) auto

text \<open>One call: either there is no element left, or the buffer holds the next one (its first
  \<open>DIRSIZ - 1\<close> bytes) and the rest of the path has the remaining elements.\<close>

lemma skip_elem_elements:
  assumes "skip_elem path cur name = Some (pos, name')" "name \<noteq> []"
  shows "if pos = 0 then elements (cstr (drop cur path)) = []
         else \<exists>e. elements (cstr (drop cur path)) = e # elements (cstr (drop pos path)) \<and>
                cstr name' = take (length name - 1) e"
proof -
  from assms obtain i where i: "skip_while (\<lambda>c. c = slash) path cur = Some i"
    by (auto simp: skip_elem_def split: Option.bind_splits)
  have di: "elements (cstr (drop cur path)) = elements (cstr (drop i path))"
    by (simp add: skip_while_drop(1) [OF i] cstr_dropWhile_slash)
  from i have ilt: "i < length path" and ins: "path ! i \<noteq> slash"
    by (auto simp: skip_while_Some)
  then have hd: "drop i path = path ! i # drop (Suc i) path"
    by (simp add: Cons_nth_drop_Suc)
  show ?thesis
  proof (cases "path ! i = 0")
    case True
    with assms i have "pos = 0"
      by (auto simp: skip_elem_def)
    with True di hd show ?thesis
      by (simp add: cstr_def)
  next
    case False
    with assms i obtain j where j: "skip_while (\<lambda>c. c \<noteq> slash \<and> c \<noteq> 0) path i = Some j"
      and pos: "skip_while (\<lambda>c. c = slash) path j = Some pos"
      and name': "name' = copy_elem path i (if j - i \<ge> length name then length name - 1 else j - i) name"
      by (auto simp: skip_elem_def Let_def split: Option.bind_splits)
    let ?e = "takeWhile (\<lambda>c. c \<noteq> slash \<and> c \<noteq> 0) (drop i path)"
    have e: "take (j - i) (drop i path) = ?e"
      by (rule skip_while_drop(2) [OF j])
    have "elements (cstr (drop i path)) = ?e # elements (cstr (drop j path))"
      using False hd ins elements_step [of "cstr (drop i path)"]
      by (simp add: takeWhile_slash_cstr dropWhile_slash_cstr skip_while_drop(1) [OF j])
        (simp add: cstr_def)
    also have "elements (cstr (drop j path)) = elements (cstr (drop pos path))"
      by (simp add: skip_while_drop(1) [OF pos] cstr_dropWhile_slash)
    finally have els: "elements (cstr (drop i path)) = ?e # elements (cstr (drop pos path))" .
    define len where "len = min (j - i) (length name - 1)"
    have "name' = copy_elem path i len name"
      using name' assms(2) by (auto simp: len_def min_def)
    moreover have tl: "take len (drop i path) = take (length name - 1) ?e"
      by (simp add: len_def e [symmetric] min.commute)
    moreover have "0 \<notin> set (take len (drop i path))"
      unfolding tl by (auto dest!: in_set_takeD set_takeWhileD)
    moreover have "len < length name" "i + len \<le> length path"
      using assms(2) j by (auto simp: len_def skip_while_Some min_def neq_Nil_conv)
    ultimately have "cstr name' = take (length name - 1) ?e"
      by (simp add: cstr_copy_elem)
    moreover have "pos \<noteq> 0"
      using j pos False ins by (auto simp: skip_while_Some intro: gr0I)
    ultimately show ?thesis
      using di els by auto
  qed
qed

lemma path_names_from:
  assumes "cur \<le> k" "k < length path" "path ! k = 0" "name \<noteq> []"
  shows "path_names path cur name = Some (map (take (length name - 1)) (elements (cstr (drop cur path))))"
  using assms
proof (induction path cur name rule: path_names.induct)
  case (1 path cur name)
  obtain pos name' where se: "skip_elem path cur name = Some (pos, name')" "pos \<le> k"
    using skip_elem_total "1.prems"(1-3) by metis
  note els = skip_elem_elements [OF se(1) "1.prems"(4)]
  show ?case
  proof (cases "pos = 0")
    case True
    then show ?thesis
      using els se(1) by (simp add: path_names.simps [of path cur name])
  next
    case False
    note pos = skip_elem_pos [OF se(1) False]
    have "name' \<noteq> []"
      using pos(3) "1.prems"(4) by auto
    then have "path_names path pos name' = Some (map (take (length name - 1)) (elements (cstr (drop pos path))))"
      using "1.IH" [OF se(1) refl False] se(2) "1.prems"(2,3) pos(3) by simp
    then show ?thesis
      using False els se(1) by (auto simp: path_names.simps [of path cur name])
  qed
qed

text \<open>C17: the names looked up along a zero-terminated path are exactly its elements, the non-empty
  pieces between slashes, each cut to \<open>DIRSIZ - 1 = 29\<close> bytes; parsing neither panics nor loops,
  whatever the buffer held before.
\<close>

theorem path_names_elements:
  assumes "0 \<in> set path" "length name = DIRSIZ"
  shows "path_names path 0 name = Some (map (take (DIRSIZ - 1)) (elements (cstr path)))"
proof -
  obtain k where "k < length path" "path ! k = 0"
    using assms(1) by (metis in_set_conv_nth)
  moreover have "name \<noteq> []"
    using assms(2) by (auto simp: DIRSIZ_def)
  ultimately show ?thesis
    using path_names_from [of 0 k path name] assms(2) by simp
qed

text \<open>\<open>"//bin/sh"\<close> followed by its terminating zero.\<close>

theorem path_names_elements_witness:
  "path_names [47, 47, 98, 105, 110, 47, 115, 104, 0] 0 (replicate DIRSIZ 7) =
     Some [[98, 105, 110], [115, 104]]"
  by (subst path_names_elements) (simp_all add: slash_def cstr_def DIRSIZ_def)

end
