(* ===== verification/Inode.thy ===== *)
theory Inode
  imports Block_Alloc Path
begin

text \<open>
  Inodes: the lower half of \<open>kernel/src/fs.rs\<close>.  An inode is named in memory by its index in
  \<open>INODE_TABLE\<close>; the table's \<open>meta\<close> half (reference counts) and its \<open>data\<close> half (the cached
  \<open>DiskInode\<close>s, each under a sleep lock) extend the state of the log.

  \<open>readi\<close> and \<open>writei\<close> move bytes between the disk and either kernel or user memory; the model takes
  that memory as a state \<open>m\<close> with a step that consumes (\<open>sink\<close>) or produces (\<open>source\<close>) the next bytes
  and that panics (\<open>None\<close>) where \<open>either_copy_out\<close> and \<open>either_copy_in\<close> do.
\<close>

section \<open>On-disk structures\<close>

definition NINODE :: nat where
  "NINODE = 50"

definition NDIRECT :: nat where
  "NDIRECT = 11"

definition NINDIRECT :: nat where
  "NINDIRECT = BSIZE div 4"

definition NDINDIRECT :: nat where
  "NDINDIRECT = NINDIRECT"

definition MAXFILE :: nat where
  "MAXFILE = NDIRECT + NINDIRECT + NINDIRECT * NDINDIRECT"

definition ROOTINO :: u32 where
  "ROOTINO = 1"

datatype inode_type = Empty | Directory | File | Device

definition itype_code :: "inode_type \<Rightarrow> u16" where
  "itype_code t = (case t of Empty \<Rightarrow> 0 | Directory \<Rightarrow> 1 | File \<Rightarrow> 2 | Device \<Rightarrow> 3)"

text \<open>A code that no constructor has is not a value of the enum: reading it has no defined
  behaviour.\<close>

definition itype_of :: "u16 \<Rightarrow> inode_type option" where
  "itype_of c = (if c = 0 then Some Empty else if c = 1 then Some Directory
     else if c = 2 then Some File else if c = 3 then Some Device else None)"

record disk_inode =
  di_typ :: inode_type
  di_major :: u16
  di_minor :: u16
  di_nlink :: u16
  di_size :: u32
  di_addrs :: "u32 list"

definition disk_inode_new :: disk_inode where
  "disk_inode_new = \<lparr>di_typ = Empty, di_major = 0, di_minor = 0, di_nlink = 0, di_size = 0,
     di_addrs = replicate (NDIRECT + 2) 0\<rparr>"

text \<open>Writing consecutive bytes into a block, and reading them.\<close>

definition put_bytes :: "nat \<Rightarrow> u8 list \<Rightarrow> block \<Rightarrow> block" where
  "put_bytes off bs d = (\<lambda>i. if off \<le> i \<and> i < off + length bs then bs ! (i - off) else d i)"

definition get_bytes :: "nat \<Rightarrow> nat \<Rightarrow> block \<Rightarrow> u8 list" where
  "get_bytes off n d = map (\<lambda>i. d (off + i)) [0..<n]"

text \<open>The \<open>repr(C)\<close> layout: 64 bytes.\<close>

definition DINODE_SIZE :: nat where
  "DINODE_SIZE = 64"

definition disk_inode_of :: "nat \<Rightarrow> block \<Rightarrow> disk_inode option" where
  "disk_inode_of off d = map_option (\<lambda>t.
     \<lparr>di_typ = t, di_major = le_u16 d (off + 2), di_minor = le_u16 d (off + 4),
      di_nlink = le_u16 d (off + 6), di_size = le_u32 d (off + 8),
      di_addrs = map (\<lambda>i. le_u32 d (off + 12 + 4 * i)) [0..<NDIRECT + 2]\<rparr>) (itype_of (le_u16 d off))"

definition disk_inode_bytes :: "disk_inode \<Rightarrow> u8 list" where
  "disk_inode_bytes di = u16_bytes (itype_code (di_typ di)) @ u16_bytes (di_major di) @ u16_bytes (di_minor di) @
     u16_bytes (di_nlink di) @ u32_bytes (di_size di) @ concat (map u32_bytes (di_addrs di))"

definition IPB :: nat where
  "IPB = BSIZE div DINODE_SIZE"

definition inode_offset :: "u32 \<Rightarrow> nat" where
  "inode_offset inum = DINODE_SIZE * (unat inum mod IPB)"

definition inode_block :: "u32 \<Rightarrow> 'z sb_state_scheme \<Rightarrow> u32" where
  "inode_block inum s = inum div of_nat IPB + sb_inodestart (SB s)"

record dirent =
  de_inum :: u16
  de_name :: "u8 list"

definition dirent_empty :: dirent where
  "dirent_empty = \<lparr>de_inum = 0, de_name = replicate DIRSIZ 0\<rparr>"

definition DIRENT_SIZE :: nat where
  "DIRENT_SIZE = 2 + DIRSIZ"

definition dirent_bytes :: "dirent \<Rightarrow> u8 list" where
  "dirent_bytes de = u16_bytes (de_inum de) @ de_name de"

definition dirent_of :: "u8 list \<Rightarrow> dirent" where
  "dirent_of bs = \<lparr>de_inum = le_u16 (\<lambda>i. bs ! i) 0, de_name = drop 2 bs\<rparr>"

record file_stat =
  st_dev :: u32
  st_inum :: u32
  st_typ :: inode_type
  st_nlink :: u16
  st_size :: u64

definition file_stat_uninit :: file_stat where
  "file_stat_uninit = \<lparr>st_dev = 0, st_inum = 0, st_typ = Empty, st_nlink = 0, st_size = 0\<rparr>"

section \<open>The inode table\<close>

record inode =
  i_dev :: u32
  i_inum :: u32
  i_index :: nat

record inode_meta =
  im_dev :: u32
  im_inum :: u32
  im_refcnt :: usize

record inode_data =
  id_locked :: bool
  id_valid :: "(u32 \<times> u32) option"
  id_dinode :: disk_inode

record fs_state = log_state +
  itable_meta :: "inode_meta list"
  itable_data :: "inode_data list"

definition inode_meta_new :: inode_meta where
  "inode_meta_new = \<lparr>im_dev = 0, im_inum = 0, im_refcnt = 0\<rparr>"

definition inode_data_new :: inode_data where
  "inode_data_new = \<lparr>id_locked = False, id_valid = None, id_dinode = disk_inode_new\<rparr>"

definition upd_meta :: "nat \<Rightarrow> (inode_meta \<Rightarrow> inode_meta) \<Rightarrow> 'z fs_state_scheme \<Rightarrow> 'z fs_state_scheme" where
  "upd_meta i f s = s\<lparr>itable_meta := (itable_meta s)[i := f (itable_meta s ! i)]\<rparr>"

definition upd_data :: "nat \<Rightarrow> (inode_data \<Rightarrow> inode_data) \<Rightarrow> 'z fs_state_scheme \<Rightarrow> 'z fs_state_scheme" where
  "upd_data i f s = s\<lparr>itable_data := (itable_data s)[i := f (itable_data s ! i)]\<rparr>"

definition dinode :: "nat \<Rightarrow> 'z fs_state_scheme \<Rightarrow> disk_inode" where
  "dinode i s = id_dinode (itable_data s ! i)"

definition upd_dinode :: "nat \<Rightarrow> (disk_inode \<Rightarrow> disk_inode) \<Rightarrow> 'z fs_state_scheme \<Rightarrow> 'z fs_state_scheme" where
  "upd_dinode i f s = upd_data i (\<lambda>d. d\<lparr>id_dinode := f (id_dinode d)\<rparr>) s"

definition set_addr_entry :: "nat \<Rightarrow> nat \<Rightarrow> u32 \<Rightarrow> 'z fs_state_scheme \<Rightarrow> 'z fs_state_scheme" where
  "set_addr_entry i j bn s = upd_dinode i (\<lambda>d. d\<lparr>di_addrs := (di_addrs d)[j := bn]\<rparr>) s"

definition idata_lock :: "nat \<Rightarrow> 'z fs_state_scheme \<Rightarrow> 'z fs_state_scheme option" where
  "idata_lock i s = (if id_locked (itable_data s ! i) then None else Some (upd_data i (id_locked_update (\<lambda>_. True)) s))"

definition idata_unlock :: "nat \<Rightarrow> 'z fs_state_scheme \<Rightarrow> 'z fs_state_scheme" where
  "idata_unlock i s = upd_data i (id_locked_update (\<lambda>_. False)) s"

text \<open>The device and number of a locked inode: \<open>self.valid.unwrap()\<close>.\<close>

definition ivalid :: "nat \<Rightarrow> 'z fs_state_scheme \<Rightarrow> (u32 \<times> u32) option" where
  "ivalid i s = id_valid (itable_data s ! i)"

definition iget :: "u32 \<Rightarrow> u32 \<Rightarrow> 'z fs_state_scheme \<Rightarrow> (inode \<times> 'z fs_state_scheme) option" where
  "iget dev inum s =
     (case find_index (\<lambda>ip. im_dev ip = dev \<and> im_inum ip = inum) (itable_meta s) of
        Some i \<Rightarrow> Some (\<lparr>i_dev = dev, i_inum = inum, i_index = i\<rparr>, upd_meta i (im_refcnt_update (\<lambda>r. r + 1)) s)
      | None \<Rightarrow> do {
          index \<leftarrow> find_index (\<lambda>ip. im_refcnt ip = 0) (itable_meta s);
          let s = upd_meta index (\<lambda>_. \<lparr>im_dev = dev, im_inum = inum, im_refcnt = 1\<rparr>) s;
          s \<leftarrow> idata_lock index s;
          let s = upd_data index (id_valid_update (\<lambda>_. None)) s;
          Some (\<lparr>i_dev = dev, i_inum = inum, i_index = index\<rparr>, idata_unlock index s) })"

definition ilock :: "inode \<Rightarrow> 'z fs_state_scheme \<Rightarrow> 'z fs_state_scheme option" where
  "ilock ip s = do {
     let i = i_index ip;
     s \<leftarrow> idata_lock i s;
     if ivalid i s \<noteq> None then Some s
     else do {
       (buf, s) \<leftarrow> bread (i_dev ip) (inode_block (i_inum ip) s) s;
       di \<leftarrow> disk_inode_of (inode_offset (i_inum ip)) (buf_data buf s);
       let s = upd_dinode i (\<lambda>_. di) s;
       s \<leftarrow> buf_drop buf s;
       if di_typ di = Empty then None
       else Some (upd_data i (id_valid_update (\<lambda>_. Some (i_dev ip, i_inum ip))) s) } }"

definition idup :: "inode \<Rightarrow> 'z fs_state_scheme \<Rightarrow> inode \<times> 'z fs_state_scheme" where
  "idup ip s = (let i = i_index ip; s = upd_meta i (im_refcnt_update (\<lambda>r. r + 1)) s in
     (\<lparr>i_dev = im_dev (itable_meta s ! i), i_inum = im_inum (itable_meta s ! i), i_index = i\<rparr>, s))"

definition fs_init :: "u32 \<Rightarrow> 'z log_state_scheme \<Rightarrow> 'z log_state_scheme option" where
  "fs_init dev s = do { s \<leftarrow> read_super_block dev s; log_init dev (SB s) s }"

section \<open>The content of an inode\<close>

text \<open>The entry of a block of block numbers, allocating the block it names if there is none.  The
  caller gets the entry as it was read.\<close>

definition indirect_entry :: "u32 \<Rightarrow> u32 \<Rightarrow> nat \<Rightarrow> 'z log_state_scheme \<Rightarrow> (u32 \<times> 'z log_state_scheme) option" where
  "indirect_entry dev bn i s = do {
     (buf, s) \<leftarrow> bread dev bn s;
     let entry = le_u32 (buf_data buf s) (4 * i);
     s \<leftarrow> (if entry = 0 then do {
              (freed, s) \<leftarrow> balloc dev s;
              let s = set_buf_data buf (put_bytes (4 * i) (u32_bytes freed) (buf_data buf s)) s;
              log_write buf s }
            else Some s);
     s \<leftarrow> buf_drop buf s;
     Some (entry, s) }"

text \<open>The block an entry of \<open>addrs\<close> names, allocating it if there is none.\<close>

definition addr_entry :: "nat \<Rightarrow> u32 \<Rightarrow> nat \<Rightarrow> 'z fs_state_scheme \<Rightarrow> (u32 \<times> 'z fs_state_scheme) option" where
  "addr_entry i dev j s =
     (if di_addrs (dinode i s) ! j \<noteq> 0 then Some (di_addrs (dinode i s) ! j, s)
      else do {
        (bn, s) \<leftarrow> balloc dev s;
        Some (bn, set_addr_entry i j bn s) })"

definition ibmap :: "nat \<Rightarrow> usize \<Rightarrow> 'z fs_state_scheme \<Rightarrow> (u32 \<times> 'z fs_state_scheme) option" where
  "ibmap i offset s = do {
     (dev, _) \<leftarrow> ivalid i s;
     if offset < of_nat NDIRECT then addr_entry i dev (unat offset) s
     else do {
       let offset = offset - of_nat NDIRECT;
       if offset < of_nat NINDIRECT then do {
         (indirect_bn, s) \<leftarrow> addr_entry i dev NDIRECT s;
         indirect_entry dev indirect_bn (unat offset) s }
       else do {
         let offset = offset - of_nat NINDIRECT;
         if offset < of_nat (NDINDIRECT * NINDIRECT) then do {
           (d_indirect_bn, s) \<leftarrow> addr_entry i dev (NDIRECT + 1) s;
           (indirect_bn, s) \<leftarrow> indirect_entry dev d_indirect_bn (unat (offset div of_nat NDINDIRECT)) s;
           indirect_entry dev indirect_bn (unat (offset mod of_nat NDINDIRECT)) s }
         else None } } }"

definition iupdate :: "nat \<Rightarrow> 'z fs_state_scheme \<Rightarrow> 'z fs_state_scheme option" where
  "iupdate i s = do {
     (dev, inum) \<leftarrow> ivalid i s;
     (buf, s) \<leftarrow> bread dev (inode_block inum s) s;
     let s = set_buf_data buf (put_bytes (inode_offset inum) (disk_inode_bytes (dinode i s)) (buf_data buf s)) s;
     s \<leftarrow> log_write buf s;
     buf_drop buf s }"

text \<open>How many bytes the next iteration of \<open>readi\<close> and \<open>writei\<close> moves.\<close>

definition chunk :: "usize \<Rightarrow> usize \<Rightarrow> usize" where
  "chunk offset n = min (of_nat BSIZE - offset mod of_nat BSIZE) n"

lemma chunk_progress:
  assumes "n \<noteq> 0"
  shows "0 < unat (chunk offset n)" "unat (chunk offset n) \<le> unat n" "chunk offset n \<le> n"
proof -
  have "offset mod of_nat BSIZE < of_nat BSIZE"
    by (simp add: BSIZE_def word_mod_less_divisor word_gt_0)
  then have "of_nat BSIZE - offset mod of_nat BSIZE \<noteq> (0 :: usize)"
    by auto
  with assms show "0 < unat (chunk offset n)" "unat (chunk offset n) \<le> unat n" "chunk offset n \<le> n"
    by (auto simp: chunk_def min_def unat_gt_0 word_le_nat_alt)
qed

lemma chunk_less: "n \<noteq> 0 \<Longrightarrow> unat (n - chunk offset n) < unat n"
  using chunk_progress [of n offset] by (simp add: unat_sub)

function readi_loop ::
  "('m \<Rightarrow> u8 list \<Rightarrow> 'm option) \<Rightarrow> nat \<Rightarrow> u32 \<Rightarrow> usize \<Rightarrow> usize \<Rightarrow> 'm \<Rightarrow> 'z fs_state_scheme \<Rightarrow> ('m \<times> 'z fs_state_scheme) option" where
  "readi_loop sink i dev offset n m s =
     (if n = 0 then Some (m, s)
      else do {
        let read_n = chunk offset n;
        (bn, s) \<leftarrow> ibmap i (offset div of_nat BSIZE) s;
        (buf, s) \<leftarrow> bread dev bn s;
        m \<leftarrow> sink m (get_bytes (unat (offset mod of_nat BSIZE)) (unat read_n) (buf_data buf s));
        s \<leftarrow> buf_drop buf s;
        readi_loop sink i dev (offset + read_n) (n - read_n) m s })"
  by pat_completeness auto
termination
  by (relation "measure (\<lambda>(sink, i, dev, offset, n, m, s). unat n)")
    (auto simp: chunk_less)

definition readi ::
  "('m \<Rightarrow> u8 list \<Rightarrow> 'm option) \<Rightarrow> nat \<Rightarrow> usize \<Rightarrow> usize \<Rightarrow> 'm \<Rightarrow> 'z fs_state_scheme \<Rightarrow> ((unit + usize) \<times> 'm \<times> 'z fs_state_scheme) option" where
  "readi sink i offset n m s = do {
     (dev, _) \<leftarrow> ivalid i s;
     if unat offset + unat n \<ge> 2 ^ 64 then Some (Err (), m, s)
     else do {
       let n = (if offset + n > ucast (di_size (dinode i s)) then ucast (di_size (dinode i s)) - offset else n);
       (m, s) \<leftarrow> readi_loop sink i dev offset n m s;
       Some (Ok n, m, s) } }"

function writei_loop ::
  "('m \<Rightarrow> nat \<Rightarrow> (u8 list \<times> 'm) option) \<Rightarrow> nat \<Rightarrow> u32 \<Rightarrow> usize \<Rightarrow> usize \<Rightarrow> 'm \<Rightarrow> 'z fs_state_scheme \<Rightarrow> (usize \<times> 'm \<times> 'z fs_state_scheme) option" where
  "writei_loop source i dev offset n m s =
     (if n = 0 then Some (offset, m, s)
      else do {
        let write_n = chunk offset n;
        (bn, s) \<leftarrow> ibmap i (offset div of_nat BSIZE) s;
        (buf, s) \<leftarrow> bread dev bn s;
        (bs, m) \<leftarrow> source m (unat write_n);
        let s = set_buf_data buf (put_bytes (unat (offset mod of_nat BSIZE)) bs (buf_data buf s)) s;
        s \<leftarrow> log_write buf s;
        s \<leftarrow> buf_drop buf s;
        writei_loop source i dev (offset + write_n) (n - write_n) m s })"
  by pat_completeness auto
termination
  by (relation "measure (\<lambda>(source, i, dev, offset, n, m, s). unat n)")
    (auto simp: chunk_less)

declare readi_loop.simps [simp del] writei_loop.simps [simp del]

definition writei ::
  "('m \<Rightarrow> nat \<Rightarrow> (u8 list \<times> 'm) option) \<Rightarrow> nat \<Rightarrow> usize \<Rightarrow> usize \<Rightarrow> 'm \<Rightarrow> 'z fs_state_scheme \<Rightarrow> ((unit + unit) \<times> 'm \<times> 'z fs_state_scheme) option" where
  "writei source i offset n m s = do {
     (dev, _) \<leftarrow> ivalid i s;
     if offset > ucast (di_size (dinode i s)) \<or> unat offset + unat n \<ge> 2 ^ 64 \<or>
        offset + n > of_nat (MAXFILE * BSIZE)
     then Some (Err (), m, s)
     else do {
       (offset, m, s) \<leftarrow> writei_loop source i dev offset n m s;
       s \<leftarrow> (if offset > ucast (di_size (dinode i s)) then
               if unat offset < 2 ^ 32 then Some (upd_dinode i (di_size_update (\<lambda>_. ucast offset)) s) else None
             else Some s);
       s \<leftarrow> iupdate i s;
       Some (Ok (), m, s) } }"

text \<open>Kernel memory as a list of bytes: what was read so far, and what is still to be written.\<close>

definition kernel_sink :: "u8 list \<Rightarrow> u8 list \<Rightarrow> u8 list option" where
  "kernel_sink m bs = Some (m @ bs)"

definition kernel_source :: "u8 list \<Rightarrow> nat \<Rightarrow> (u8 list \<times> u8 list) option" where
  "kernel_source m n = Some (take n m, drop n m)"

definition stati :: "nat \<Rightarrow> 'z fs_state_scheme \<Rightarrow> file_stat option" where
  "stati i s = do {
     (dev, inum) \<leftarrow> ivalid i s;
     Some \<lparr>st_dev = dev, st_inum = inum, st_typ = di_typ (dinode i s), st_nlink = di_nlink (dinode i s),
           st_size = ucast (di_size (dinode i s))\<rparr> }"

definition get_type :: "nat \<Rightarrow> 'z fs_state_scheme \<Rightarrow> inode_type" where
  "get_type i s = di_typ (dinode i s)"

definition get_major :: "nat \<Rightarrow> 'z fs_state_scheme \<Rightarrow> u16" where
  "get_major i s = di_major (dinode i s)"

definition itrunc :: "nat \<Rightarrow> 'z fs_state_scheme \<Rightarrow> 'z fs_state_scheme option" where
  "itrunc i s = do {
     (dev, _) \<leftarrow> ivalid i s;
     s \<leftarrow> for_each [0..<NDIRECT] (\<lambda>j s.
            if di_addrs (dinode i s) ! j > 0 then do {
              s \<leftarrow> bfree dev (di_addrs (dinode i s) ! j) s;
              Some (set_addr_entry i j 0 s) }
            else Some s) s;
     s \<leftarrow> (if di_addrs (dinode i s) ! NDIRECT > 0 then do {
              (buf, s) \<leftarrow> bread dev (di_addrs (dinode i s) ! NDIRECT) s;
              s \<leftarrow> for_each [0..<NINDIRECT] (\<lambda>j s.
                     let bn = le_u32 (buf_data buf s) (4 * j) in
                     if bn \<noteq> 0 then bfree dev bn s else Some s) s;
              s \<leftarrow> buf_drop buf s;
              s \<leftarrow> bfree dev (di_addrs (dinode i s) ! NDIRECT) s;
              Some (set_addr_entry i NDIRECT 0 s) }
            else Some s);
     iupdate i (upd_dinode i (di_size_update (\<lambda>_. 0)) s) }"

definition iput :: "nat \<Rightarrow> 'z fs_state_scheme \<Rightarrow> 'z fs_state_scheme option" where
  "iput i s = do {
     s \<leftarrow> (if im_refcnt (itable_meta s ! i) = 1 then do {
              s \<leftarrow> idata_lock i s;
              s \<leftarrow> (if ivalid i s \<noteq> None \<and> di_nlink (dinode i s) = 0 then do {
                       s \<leftarrow> itrunc i s;
                       s \<leftarrow> iupdate i (upd_dinode i (di_typ_update (\<lambda>_. Empty)) s);
                       Some (upd_data i (id_valid_update (\<lambda>_. None)) s) }
                     else Some s);
              Some (idata_unlock i s) }
            else Some s);
     Some (upd_meta i (im_refcnt_update (\<lambda>r. r - 1)) s) }"

end
