(* ===== verification/Fs.thy ===== *)
theory Fs
  imports Inode
begin

text \<open>
  Directories and path names: the upper half of \<open>kernel/src/fs.rs\<close>.  The current directory of the
  calling process, which \<open>namex\<close> reads from the process table, is an argument.
\<close>

section \<open>Directory entries\<close>

definition range_step :: "nat \<Rightarrow> nat \<Rightarrow> nat \<Rightarrow> nat list" where
  "range_step a b step = map (\<lambda>k. a + k * step) [0..<(b - a + step - 1) div step]"

text \<open>Reading an entry into \<open>de\<close>: a short read leaves the rest of it as it was.\<close>

definition read_dirent ::
  "nat \<Rightarrow> nat \<Rightarrow> u8 list \<Rightarrow> 'z fs_state_scheme \<Rightarrow> ((unit + usize) \<times> u8 list \<times> 'z fs_state_scheme) option" where
  "read_dirent i off de s = do {
     (r, bs, s) \<leftarrow> readi kernel_sink i (of_nat off) (of_nat DIRENT_SIZE) [] s;
     Some (r, bs @ drop (length bs) de, s) }"

fun same_name :: "u8 list \<Rightarrow> u8 list \<Rightarrow> bool" where
  "same_name (a # as) (b # bs) = (if a \<noteq> b then False else if a = 0 then True else same_name as bs)"
| "same_name _ _ = False"

fun dirlookup_loop ::
  "nat \<Rightarrow> u32 \<Rightarrow> u8 list \<Rightarrow> nat list \<Rightarrow> u8 list \<Rightarrow> 'z fs_state_scheme \<Rightarrow> ((inode \<times> nat) option \<times> 'z fs_state_scheme) option" where
  "dirlookup_loop i dev name [] de s = Some (None, s)"
| "dirlookup_loop i dev name (off # offs) de s = do {
     (r, de, s) \<leftarrow> read_dirent i off de s;
     case r of
       Err _ \<Rightarrow> None
     | Ok _ \<Rightarrow>
         if de_inum (dirent_of de) = 0 then dirlookup_loop i dev name offs de s
         else if same_name (de_name (dirent_of de)) name then do {
           (ip, s) \<leftarrow> iget dev (ucast (de_inum (dirent_of de))) s;
           Some (Some (ip, off), s) }
         else dirlookup_loop i dev name offs de s }"

definition dirlookup ::
  "nat \<Rightarrow> u8 list \<Rightarrow> 'z fs_state_scheme \<Rightarrow> ((inode \<times> nat) option \<times> 'z fs_state_scheme) option" where
  "dirlookup i name s = do {
     (dev, _) \<leftarrow> ivalid i s;
     if di_typ (dinode i s) \<noteq> Directory then None
     else dirlookup_loop i dev name (range_step 0 (unat (di_size (dinode i s))) DIRENT_SIZE)
            (dirent_bytes dirent_empty) s }"

fun find_available_loop ::
  "nat \<Rightarrow> nat list \<Rightarrow> u8 list \<Rightarrow> 'z fs_state_scheme \<Rightarrow> (nat option result \<times> u8 list \<times> 'z fs_state_scheme) option" where
  "find_available_loop i [] de s = Some (Ok None, de, s)"
| "find_available_loop i (off # offs) de s = do {
     (r, de, s) \<leftarrow> read_dirent i off de s;
     case r of
       Err _ \<Rightarrow> Some (Err ''failed to read entry in directory inode'', de, s)
     | Ok _ \<Rightarrow>
         if de_inum (dirent_of de) = 0 then Some (Ok (Some off), de, s)
         else find_available_loop i offs de s }"

definition find_available_dirent_offset ::
  "nat \<Rightarrow> u8 list \<Rightarrow> 'z fs_state_scheme \<Rightarrow> (nat result \<times> u8 list \<times> 'z fs_state_scheme) option" where
  "find_available_dirent_offset i de s = do {
     (r, de, s) \<leftarrow> find_available_loop i (range_step 0 (unat (di_size (dinode i s))) DIRENT_SIZE) de s;
     Some (case r of Err e \<Rightarrow> Err e | Ok (Some off) \<Rightarrow> Ok off | Ok None \<Rightarrow> Ok (unat (di_size (dinode i s))), de, s) }"

fun is_dir_empty_loop :: "nat \<Rightarrow> nat list \<Rightarrow> u8 list \<Rightarrow> 'z fs_state_scheme \<Rightarrow> (bool \<times> 'z fs_state_scheme) option" where
  "is_dir_empty_loop i [] de s = Some (True, s)"
| "is_dir_empty_loop i (off # offs) de s = do {
     (r, de, s) \<leftarrow> read_dirent i off de s;
     case r of
       Err _ \<Rightarrow> None
     | Ok _ \<Rightarrow> if de_inum (dirent_of de) \<noteq> 0 then Some (False, s) else is_dir_empty_loop i offs de s }"

definition is_dir_empty :: "nat \<Rightarrow> 'z fs_state_scheme \<Rightarrow> (bool \<times> 'z fs_state_scheme) option" where
  "is_dir_empty i s =
     is_dir_empty_loop i (range_step (2 * DIRENT_SIZE) (unat (di_size (dinode i s))) DIRENT_SIZE)
       (dirent_bytes dirent_empty) s"

text \<open>The name is copied up to and including its first zero.\<close>

fun copy_name :: "u8 list \<Rightarrow> u8 list \<Rightarrow> u8 list" where
  "copy_name (n # ns) (d # ds) = n # (if n = 0 then ds else copy_name ns ds)"
| "copy_name _ ds = ds"

definition dirlink :: "nat \<Rightarrow> u8 list \<Rightarrow> u32 \<Rightarrow> 'z fs_state_scheme \<Rightarrow> (unit result \<times> 'z fs_state_scheme) option" where
  "dirlink i name inum s =
     (if di_typ (dinode i s) \<noteq> Directory then None
      else do {
        (found, s) \<leftarrow> dirlookup i name s;
        case found of
          Some (ip, _) \<Rightarrow> do { s \<leftarrow> iput (i_index ip) s; Some (Err ''dirent already present'', s) }
        | None \<Rightarrow> do {
            (r, de, s) \<leftarrow> find_available_dirent_offset i (dirent_bytes dirent_empty) s;
            case r of
              Err e \<Rightarrow> Some (Err e, s)
            | Ok offset \<Rightarrow>
                if unat inum \<ge> 2 ^ 16 then None
                else do {
                  let de = \<lparr>de_inum = ucast inum, de_name = copy_name name (de_name (dirent_of de))\<rparr>;
                  (w, _, s) \<leftarrow> writei kernel_source i (of_nat offset) (of_nat DIRENT_SIZE) (dirent_bytes de) s;
                  Some (case w of Err _ \<Rightarrow> Err ''failed to write dirent'' | Ok _ \<Rightarrow> Ok (), s) } } })"

section \<open>Allocation of inodes\<close>

fun ialloc_loop :: "u32 \<Rightarrow> inode_type \<Rightarrow> nat list \<Rightarrow> 'z fs_state_scheme \<Rightarrow> (inode \<times> 'z fs_state_scheme) option" where
  "ialloc_loop dev typ [] s = None"
| "ialloc_loop dev typ (n # ns) s = do {
     let inum = of_nat n;
     (buf, s) \<leftarrow> bread dev (inode_block inum s) s;
     t \<leftarrow> itype_of (le_u16 (buf_data buf s) (inode_offset inum));
     if t = Empty then do {
       let s = set_buf_data buf (put_bytes (inode_offset inum) (disk_inode_bytes (disk_inode_new\<lparr>di_typ := typ\<rparr>)) (buf_data buf s)) s;
       s \<leftarrow> log_write buf s;
       s \<leftarrow> buf_drop buf s;
       iget dev inum s }
     else do { s \<leftarrow> buf_drop buf s; ialloc_loop dev typ ns s } }"

definition ialloc :: "u32 \<Rightarrow> inode_type \<Rightarrow> 'z fs_state_scheme \<Rightarrow> (inode \<times> 'z fs_state_scheme) option" where
  "ialloc dev typ s = ialloc_loop dev typ [1..<unat (sb_ninodes (SB s))] s"

section \<open>Path names\<close>

function namex_loop ::
  "u8 list \<Rightarrow> bool \<Rightarrow> nat \<Rightarrow> u8 list \<Rightarrow> inode \<Rightarrow> 'z fs_state_scheme \<Rightarrow> (inode option \<times> u8 list \<times> 'z fs_state_scheme) option" where
  "namex_loop path parent pos name ip s =
     (case skip_elem path pos name of
        None \<Rightarrow> None
      | Some (pos', name') \<Rightarrow>
          if pos' = 0 then Some (Some ip, name', s)
          else do {
            let i = i_index ip;
            s \<leftarrow> ilock ip s;
            if di_typ (dinode i s) \<noteq> Directory then do {
              s \<leftarrow> iput i (idata_unlock i s);
              Some (None, name', s) }
            else if parent \<and> path ! pos' = 0 then Some (Some ip, name', idata_unlock i s)
            else do {
              (found, s) \<leftarrow> dirlookup i name' s;
              let s = idata_unlock i s;
              s \<leftarrow> iput i s;
              case found of
                None \<Rightarrow> Some (None, name', s)
              | Some (next, _) \<Rightarrow> namex_loop path parent pos' name' next s } })"
  by pat_completeness auto
termination
  by (relation "measure (\<lambda>(path, parent, pos, name, ip, s). length path - pos)")
    (auto intro!: diff_less_mono2 intro: skip_elem_pos(1) less_trans [OF skip_elem_pos(1) skip_elem_pos(2)])

declare namex_loop.simps [simp del]

definition namex ::
  "inode option \<Rightarrow> u8 list \<Rightarrow> u8 list \<Rightarrow> bool \<Rightarrow> 'z fs_state_scheme \<Rightarrow> (inode option \<times> u8 list \<times> 'z fs_state_scheme) option" where
  "namex cwd path name parent s =
     (case path of
        [] \<Rightarrow> None
      | c # _ \<Rightarrow> do {
          (ip, s) \<leftarrow> (if c = slash then iget ROOTDEV ROOTINO s else map_option (\<lambda>d. idup d s) cwd);
          namex_loop path parent 0 name ip s })"

definition namei :: "inode option \<Rightarrow> u8 list \<Rightarrow> 'z fs_state_scheme \<Rightarrow> (inode option \<times> 'z fs_state_scheme) option" where
  "namei cwd path s = do {
     (r, _, s) \<leftarrow> namex cwd path (replicate DIRSIZ 0) False s;
     Some (r, s) }"

definition nameiparent ::
  "inode option \<Rightarrow> u8 list \<Rightarrow> u8 list \<Rightarrow> 'z fs_state_scheme \<Rightarrow> (inode option \<times> u8 list \<times> 'z fs_state_scheme) option" where
  "nameiparent cwd path name s = namex cwd path name True s"

definition dot_name :: "u8 list" where
  "dot_name = (replicate DIRSIZ 0)[0 := 46]"

definition dotdot_name :: "u8 list" where
  "dotdot_name = dot_name[1 := 46]"

text \<open>\<open>.expect(...)\<close> on a \<open>Result\<close>: an error panics.\<close>

definition expect_ok :: "('e + 'a) \<times> 's \<Rightarrow> 's option" where
  "expect_ok r = (case fst r of Err _ \<Rightarrow> None | Ok _ \<Rightarrow> Some (snd r))"

definition create ::
  "inode option \<Rightarrow> u8 list \<Rightarrow> inode_type \<Rightarrow> u16 \<Rightarrow> u16 \<Rightarrow> 'z fs_state_scheme \<Rightarrow> (inode \<times> 'z fs_state_scheme) option" where
  "create cwd path typ major minor s = do {
     (parent_dir, basename, s) \<leftarrow> nameiparent cwd path (replicate DIRSIZ 0) s;
     parent_dir \<leftarrow> parent_dir;
     let p = i_index parent_dir;
     s \<leftarrow> ilock parent_dir s;
     (ip, s) \<leftarrow> ialloc (i_dev parent_dir) typ s;
     let i = i_index ip;
     s \<leftarrow> ilock ip s;
     let s = upd_dinode i (\<lambda>d. d\<lparr>di_major := major, di_minor := minor, di_nlink := 1\<rparr>) s;
     s \<leftarrow> iupdate i s;
     s \<leftarrow> (if typ = Directory then do {
              s \<leftarrow> dirlink i dot_name (i_inum ip) s \<bind> expect_ok;
              dirlink i dotdot_name (i_inum parent_dir) s \<bind> expect_ok }
            else Some s);
     let s = idata_unlock i s;
     s \<leftarrow> dirlink p basename (i_inum ip) s \<bind> expect_ok;
     s \<leftarrow> (if typ = Directory then iupdate p (upd_dinode p (di_nlink_update (\<lambda>l. l + 1)) s) else Some s);
     s \<leftarrow> iput p (idata_unlock p s);
     Some (ip, s) }"

definition quoted :: "string \<Rightarrow> string" where
  "quoted t = CHR 0x27 # t @ [CHR 0x27]"

text \<open>Unlinking; every early return drops the inodes it holds.\<close>

definition unlink ::
  "inode option \<Rightarrow> u8 list \<Rightarrow> 'z fs_state_scheme \<Rightarrow> (unit result \<times> 'z fs_state_scheme) option" where
  "unlink cwd path s = do {
     (dir, name, s) \<leftarrow> nameiparent cwd path (replicate DIRSIZ 0) s;
     case dir of
       None \<Rightarrow> Some (Err ''cannot find the parent'', s)
     | Some dir \<Rightarrow> do {
         let d = i_index dir;
         if name = dot_name then do { s \<leftarrow> iput d s; Some (Err (''cannot unlink '' @ quoted ''.''), s) }
         else if name = dotdot_name then do { s \<leftarrow> iput d s; Some (Err (''cannot unlink '' @ quoted ''..''), s) }
         else do {
           s \<leftarrow> ilock dir s;
           (found, s) \<leftarrow> dirlookup d name s;
           case found of
             None \<Rightarrow> do { s \<leftarrow> iput d (idata_unlock d s); Some (Err ''cannot find the file in the parent'', s) }
           | Some (ip, offset) \<Rightarrow> do {
               let i = i_index ip;
               s \<leftarrow> ilock ip s;
               if di_nlink (dinode i s) < 1 then None
               else do {
                 (nonempty, s) \<leftarrow> (if di_typ (dinode i s) = Directory
                    then map_option (apfst Not) (is_dir_empty i s) else Some (False, s));
                 if nonempty then do {
                   s \<leftarrow> iput i (idata_unlock i s);
                   s \<leftarrow> iput d (idata_unlock d s);
                   Some (Err ''the directory not empty'', s) }
                 else do {
                   (w, _, s) \<leftarrow> writei kernel_source d (of_nat offset) (of_nat DIRENT_SIZE) (dirent_bytes dirent_empty) s;
                   s \<leftarrow> expect_ok (w, s);
                   s \<leftarrow> (if di_typ (dinode i s) = Directory
                          then iupdate d (upd_dinode d (di_nlink_update (\<lambda>l. l - 1)) s) else Some s);
                   s \<leftarrow> iput d (idata_unlock d s);
                   s \<leftarrow> iupdate i (upd_dinode i (di_nlink_update (\<lambda>l. l - 1)) s);
                   s \<leftarrow> iput i (idata_unlock i s);
                   Some (Ok (), s) } } } } } }"

end
