(* ===== verification/Fs_Frame.thy ===== *)
theory Fs_Frame
  imports Fs
begin

text \<open>
  What the operations of the file system leave alone: the components that extend its state, and the
  number of operations the log has admitted.  \<open>log_rest\<close> and \<open>fs_rest\<close> are that part of the state.
\<close>

named_theorems rest_laws

definition log_rest :: "'z log_state_scheme \<Rightarrow> 'z \<times> u64 \<times> bool" where
  "log_rest s = (log_state.more s, log_outstanding (LOG s), log_committing (LOG s))"

definition fs_rest :: "'z fs_state_scheme \<Rightarrow> 'z \<times> u64 \<times> bool" where
  "fs_rest s = (fs_state.more s, log_outstanding (LOG s), log_committing (LOG s))"

lemma bcache_rest: "bcache.more s' = bcache.more s \<Longrightarrow> log_rest s' = log_rest s"
  using more_LOG [of s' s] more_rest [of s' s] by (simp add: log_rest_def)

lemma log_fs_rest: "log_rest s' = log_rest s \<Longrightarrow> fs_rest s' = fs_rest (s :: 'z fs_state_scheme)"
  by (cases s; cases s') (simp add: log_rest_def fs_rest_def)

section \<open>Buffers and the log\<close>

lemma set_buf_data_rest [simp]: "log_rest (set_buf_data g d s) = log_rest s"
  by (rule bcache_rest) (simp add: set_buf_data_def upd_buf_def)

lemma upd_hdr_rest [simp]: "log_rest (s\<lparr>LOG := (LOG s)\<lparr>log_hdr := h\<rparr>\<rparr>) = log_rest s"
  by (simp add: log_rest_def)

lemma bpin_rest [simp]: "log_rest (bpin g s) = log_rest s"
  by (rule bcache_rest) (simp add: bpin_def upd_refcnt_def Let_def)

lemma bunpin_rest [simp]: "log_rest (bunpin g s) = log_rest s"
  by (rule bcache_rest) (simp add: bunpin_def upd_refcnt_def Let_def)

lemma bwrite_rest [simp]: "log_rest (bwrite g s) = log_rest s"
  by (rule bcache_rest) (simp add: bwrite_def)

lemma bread_rest [rest_laws]: "bread dev b s = Some (g, s') \<Longrightarrow> log_rest s' = log_rest s"
  by (rule bcache_rest) (rule bread_more)

lemma buf_drop_rest [rest_laws]: "buf_drop g s = Some s' \<Longrightarrow> log_rest s' = log_rest s"
  by (rule bcache_rest) (rule buf_drop_more)

lemma log_write_rest [rest_laws]: "log_write g s = Some s' \<Longrightarrow> log_rest s' = log_rest s"
  by (auto simp: log_write_def Let_def split: if_splits)

lemma bzero_rest [rest_laws]: "bzero dev b s = Some s' \<Longrightarrow> log_rest s' = log_rest s"
  by (auto simp: bzero_def Let_def split: Option.bind_splits dest!: rest_laws)

lemma balloc_loop_rest: "balloc_loop dev sz bases s = Some (b, s') \<Longrightarrow> log_rest s' = log_rest s"
  by (induction dev sz bases s rule: balloc_loop.induct)
    (auto simp: Let_def split: Option.bind_splits option.splits dest!: rest_laws)

lemma balloc_rest [rest_laws]: "balloc dev s = Some (b, s') \<Longrightarrow> log_rest s' = log_rest s"
  by (auto simp: balloc_def Let_def dest: balloc_loop_rest)

lemma bfree_rest [rest_laws]: "bfree dev b s = Some s' \<Longrightarrow> log_rest s' = log_rest s"
  by (auto simp: bfree_def Let_def split: Option.bind_splits if_splits dest!: rest_laws)

lemma indirect_entry_rest [rest_laws]: "indirect_entry dev bn i s = Some (e, s') \<Longrightarrow> log_rest s' = log_rest s"
  by (auto simp: indirect_entry_def Let_def split: Option.bind_splits if_splits dest!: rest_laws)

lemma log_each_rest:
  assumes "\<And>i s s'. body i s = Some s' \<Longrightarrow> log_rest s' = log_rest s"
  shows "for_each is body s = Some s' \<Longrightarrow> log_rest s' = log_rest s"
  by (induction "is" arbitrary: s) (auto split: Option.bind_splits dest: assms)

lemma commit_rest [rest_laws]: "commit s = Some s' \<Longrightarrow> log_rest s' = log_rest s"
proof -
  have head: "log_rest s' = log_rest s" if "write_head s = Some s'" for s s' :: "'z log_state_scheme"
    using that by (auto simp: write_head_def Let_def split: Option.bind_splits dest!: rest_laws)
  have put: "log_rest s' = log_rest s" if "for_each is write_log_block s = Some s'" for "is" and s s' :: "'z log_state_scheme"
    by (rule log_each_rest [OF _ that]) (auto simp: write_log_block_def Let_def split: Option.bind_splits dest!: rest_laws)
  have inst: "log_rest s' = log_rest s" if "for_each is (install_block False) s = Some s'" for "is" and s s' :: "'z log_state_scheme"
    by (rule log_each_rest [OF _ that]) (auto simp: install_block_def Let_def split: Option.bind_splits dest!: rest_laws)
  assume "commit s = Some s'"
  then show ?thesis
    by (auto simp: commit_def write_log_def install_trans_def Let_def split: Option.bind_splits if_splits dest!: head put inst)
qed

text \<open>The operations of the log change the count.\<close>

lemma begin_op_rest:
  "begin_op s = Some s' \<Longrightarrow> log_state.more s' = log_state.more s \<and> \<not> log_committing (LOG s) \<and>
     \<not> log_committing (LOG s') \<and> log_outstanding (LOG s') = log_outstanding (LOG s) + 1"
  by (auto simp: begin_op_def split: if_splits)

lemma end_op_rest:
  "end_op s = Some s' \<Longrightarrow> log_state.more s' = log_state.more s \<and> \<not> log_committing (LOG s) \<and>
     \<not> log_committing (LOG s') \<and> log_outstanding (LOG s') = log_outstanding (LOG s) - 1"
  by (auto simp: end_op_def Let_def log_rest_def split: Option.bind_splits if_splits dest!: rest_laws)

section \<open>Inodes\<close>

named_theorems fs_laws

lemmas fs_rest_of_log [fs_laws] =
  bread_rest [THEN log_fs_rest] buf_drop_rest [THEN log_fs_rest] log_write_rest [THEN log_fs_rest]
  balloc_rest [THEN log_fs_rest] bfree_rest [THEN log_fs_rest] indirect_entry_rest [THEN log_fs_rest]

lemma fs_rest_set_buf_data [simp]: "fs_rest (set_buf_data g d s) = fs_rest s"
  by (rule log_fs_rest) simp

lemma fs_rest_updates [simp]:
  "fs_rest (upd_meta i m s) = fs_rest s" "fs_rest (upd_data i d s) = fs_rest s"
  "fs_rest (upd_dinode i f s) = fs_rest s" "fs_rest (set_addr_entry i j b s) = fs_rest s"
  "fs_rest (idata_unlock i s) = fs_rest s" "fs_rest (snd (idup ip s)) = fs_rest s"
  by (simp_all add: fs_rest_def upd_meta_def upd_data_def upd_dinode_def set_addr_entry_def idata_unlock_def
      idup_def Let_def)

lemma idata_lock_rest [fs_laws]: "idata_lock i s = Some s' \<Longrightarrow> fs_rest s' = fs_rest s"
  by (auto simp: idata_lock_def split: if_splits)

lemma iget_rest [fs_laws]: "iget dev inum s = Some (ip, s') \<Longrightarrow> fs_rest s' = fs_rest s"
  by (auto simp: iget_def Let_def split: Option.bind_splits option.splits if_splits dest!: fs_laws)

lemma ilock_rest [fs_laws]: "ilock ip s = Some s' \<Longrightarrow> fs_rest s' = fs_rest s"
  by (auto simp: ilock_def Let_def split: Option.bind_splits if_splits dest!: fs_laws)

lemma addr_entry_rest [fs_laws]: "addr_entry i dev j s = Some (b, s') \<Longrightarrow> fs_rest s' = fs_rest s"
  by (auto simp: addr_entry_def split: Option.bind_splits if_splits dest!: fs_laws)

lemma ibmap_rest [fs_laws]: "ibmap i off s = Some (b, s') \<Longrightarrow> fs_rest s' = fs_rest s"
  by (auto simp: ibmap_def Let_def split: Option.bind_splits if_splits dest!: fs_laws)

lemma iupdate_rest [fs_laws]: "iupdate i s = Some s' \<Longrightarrow> fs_rest s' = fs_rest s"
  by (auto simp: iupdate_def Let_def split: Option.bind_splits dest!: fs_laws)

lemma readi_loop_rest: "readi_loop sink i dev off n m s = Some (m', s') \<Longrightarrow> fs_rest s' = fs_rest s"
proof (induction sink i dev off n m s rule: readi_loop.induct)
  case (1 sink i dev off n m s)
  from 1 show ?case
    by (subst (asm) (2) readi_loop.simps)
      (auto simp: Let_def split: Option.bind_splits if_splits, (auto dest!: fs_laws)[1])
qed

lemma readi_rest [fs_laws]: "readi sink i off n m s = Some (r, m', s') \<Longrightarrow> fs_rest s' = fs_rest s"
  by (auto simp: readi_def Let_def split: Option.bind_splits if_splits dest: readi_loop_rest)

lemma writei_loop_rest: "writei_loop source i dev off n m s = Some (off', m', s') \<Longrightarrow> fs_rest s' = fs_rest s"
proof (induction source i dev off n m s rule: writei_loop.induct)
  case (1 source i dev off n m s)
  from 1 show ?case
    by (subst (asm) (2) writei_loop.simps)
      (auto simp: Let_def split: Option.bind_splits if_splits, (auto dest!: fs_laws)[1])
qed

lemma writei_rest [fs_laws]: "writei source i off n m s = Some (r, m', s') \<Longrightarrow> fs_rest s' = fs_rest s"
  by (auto simp: writei_def split: Option.bind_splits if_splits dest!: writei_loop_rest fs_laws)

lemma for_each_rest:
  assumes "\<And>i s s'. body i s = Some s' \<Longrightarrow> fs_rest s' = fs_rest s"
  shows "for_each is body s = Some s' \<Longrightarrow> fs_rest s' = fs_rest s"
  by (induction "is" arbitrary: s) (auto split: Option.bind_splits dest: assms)

lemma itrunc_rest [fs_laws]: "itrunc i s = Some s' \<Longrightarrow> fs_rest s' = fs_rest s"
  by (auto simp: itrunc_def Let_def split: Option.bind_splits if_splits dest!: fs_laws for_each_rest [rotated])

lemma iput_rest [fs_laws]: "iput i s = Some s' \<Longrightarrow> fs_rest s' = fs_rest s"
  by (auto simp: iput_def split: Option.bind_splits if_splits dest!: fs_laws)

section \<open>Directories\<close>

lemma read_dirent_rest [fs_laws]: "read_dirent i off de s = Some (r, de', s') \<Longrightarrow> fs_rest s' = fs_rest s"
  by (auto simp: read_dirent_def split: Option.bind_splits dest!: fs_laws)

lemma dirlookup_loop_rest: "dirlookup_loop i dev name offs de s = Some (r, s') \<Longrightarrow> fs_rest s' = fs_rest s"
  by (induction i dev name offs de s rule: dirlookup_loop.induct)
    (auto split: Option.bind_splits sum.splits if_splits dest!: fs_laws)

lemma dirlookup_rest [fs_laws]: "dirlookup i name s = Some (r, s') \<Longrightarrow> fs_rest s' = fs_rest s"
  by (auto simp: dirlookup_def split: Option.bind_splits if_splits dest: dirlookup_loop_rest)

lemma find_available_loop_rest: "find_available_loop i offs de s = Some (r, de', s') \<Longrightarrow> fs_rest s' = fs_rest s"
  by (induction i offs de s rule: find_available_loop.induct)
    (auto split: Option.bind_splits sum.splits if_splits dest!: fs_laws)

lemma find_available_rest [fs_laws]:
  "find_available_dirent_offset i de s = Some (r, de', s') \<Longrightarrow> fs_rest s' = fs_rest s"
  by (auto simp: find_available_dirent_offset_def split: Option.bind_splits dest: find_available_loop_rest)

lemma is_dir_empty_loop_rest: "is_dir_empty_loop i offs de s = Some (r, s') \<Longrightarrow> fs_rest s' = fs_rest s"
  by (induction i offs de s rule: is_dir_empty_loop.induct)
    (auto split: Option.bind_splits sum.splits if_splits dest!: fs_laws)

lemma is_dir_empty_rest [fs_laws]: "is_dir_empty i s = Some (r, s') \<Longrightarrow> fs_rest s' = fs_rest s"
  by (auto simp: is_dir_empty_def dest: is_dir_empty_loop_rest)

lemma dirlink_rest [fs_laws]: "dirlink i name inum s = Some (r, s') \<Longrightarrow> fs_rest s' = fs_rest s"
  by (auto simp: dirlink_def Let_def split: Option.bind_splits option.splits sum.splits if_splits dest!: fs_laws)

lemma ialloc_loop_rest: "ialloc_loop dev t ns s = Some (ip, s') \<Longrightarrow> fs_rest s' = fs_rest s"
  by (induction dev t ns s rule: ialloc_loop.induct)
    (auto simp: Let_def split: Option.bind_splits if_splits dest!: fs_laws)

lemma ialloc_rest [fs_laws]: "ialloc dev t s = Some (ip, s') \<Longrightarrow> fs_rest s' = fs_rest s"
  by (auto simp: ialloc_def dest: ialloc_loop_rest)

lemma idup_rest [fs_laws]: "idup ip s = (ip', s') \<Longrightarrow> fs_rest s' = fs_rest s"
  using fs_rest_updates(6) [of ip s] by simp

lemma namex_loop_rest: "namex_loop path parent pos name ip s = Some (r, name', s') \<Longrightarrow> fs_rest s' = fs_rest s"
proof (induction path parent pos name ip s rule: namex_loop.induct)
  case (1 path parent pos name ip s)
  from 1 show ?case
    by (subst (asm) (2) namex_loop.simps)
      (auto simp: Let_def split: Option.bind_splits option.splits prod.splits if_splits, (auto dest!: fs_laws)+)
qed

lemma namex_rest [fs_laws]: "namex cwd path name parent s = Some (r, name', s') \<Longrightarrow> fs_rest s' = fs_rest s"
  by (auto simp: namex_def split: Option.bind_splits list.splits if_splits dest!: namex_loop_rest fs_laws)

lemma namei_rest [fs_laws]: "namei cwd path s = Some (r, s') \<Longrightarrow> fs_rest s' = fs_rest s"
  by (auto simp: namei_def split: Option.bind_splits dest!: fs_laws)

lemma nameiparent_rest [fs_laws]: "nameiparent cwd path name s = Some (r, name', s') \<Longrightarrow> fs_rest s' = fs_rest s"
  by (auto simp: nameiparent_def dest!: fs_laws)

lemma expect_ok_Some [simp]: "expect_ok x = Some s \<longleftrightarrow> (\<exists>r. x = (Ok r, s))"
  by (cases x) (auto simp: expect_ok_def split: sum.splits)

lemma create_rest [fs_laws]: "create cwd path t major minor s = Some (ip, s') \<Longrightarrow> fs_rest s' = fs_rest s"
  by (auto simp: create_def Let_def split: Option.bind_splits if_splits dest!: fs_laws)

lemma unlink_rest [fs_laws]: "unlink cwd path s = Some (r, s') \<Longrightarrow> fs_rest s' = fs_rest s"
  by (auto simp: unlink_def Let_def split: Option.bind_splits option.splits if_splits dest!: fs_laws)

end
