(* ===== verification/Ring.thy ===== *)
theory Ring
  imports Xv6_Prelude
begin

text \<open>
  Byte queues in fixed arrays.  The UART, the console and the pipes keep a read and a write
  counter that only ever grow (and wrap at \<open>2 ^ 64\<close>); a counter modulo the size of the array is the
  position.  The UART stores at the counter before it is incremented (\<open>bias = 0\<close>), the console and
  the pipes after (\<open>bias = 1\<close>).

  \<open>byte_queue\<close> is the contract of such a queue: it holds at most \<open>capacity\<close> bytes, \<open>put\<close> refuses
  exactly when it is full, \<open>get\<close> exactly when it is empty, and bytes leave in the order they came.
\<close>

section \<open>Counters\<close>

definition ring_content :: "usize \<Rightarrow> u8 list \<Rightarrow> usize \<Rightarrow> usize \<Rightarrow> u8 list" where
  "ring_content bias buf r w =
     map (\<lambda>k. buf ! (unat (r + of_nat k + bias) mod length buf)) [0..<unat (w - r)]"

definition ring_size :: "usize \<Rightarrow> usize \<Rightarrow> nat" where
  "ring_size r w = unat (w - r)"

lemma length_ring_content [simp]: "length (ring_content bias buf r w) = ring_size r w"
  by (simp add: ring_content_def ring_size_def)

lemma ring_content_empty [simp]: "ring_content bias buf r r = []"
  by (simp add: ring_content_def)

lemma ring_size_simps [simp]: "ring_size r r = 0" "ring_size r w = 0 \<longleftrightarrow> w = r"
  by (auto simp: ring_size_def unat_eq_0)

lemma ring_size_Suc_write:
  assumes "ring_size r w < 2 ^ 64 - 1"
  shows "ring_size r (w + 1) = Suc (ring_size r w)"
proof -
  have "w + 1 - r = (w - r) + 1" by simp
  moreover have "unat (w - r) + unat (1 :: usize) < 2 ^ 64"
    using assms by (simp add: ring_size_def)
  ultimately show ?thesis
    using unat_plus_no_overflow [of "w - r" 1] by (simp only: ring_size_def) simp
qed

lemma ring_size_Suc_read:
  assumes "r \<noteq> w"
  shows "ring_size r w = Suc (ring_size (r + 1) w)"
proof -
  have "unat (w - r) = Suc (unat (w - r - 1))"
    using assms unat_minus_one [of "w - r"] by (simp add: unat_gt_0)
  moreover have "w - r - 1 = w - (r + 1)" by simp
  ultimately show ?thesis
    unfolding ring_size_def by metis
qed

text \<open>Positions of distinct counters in a window of at most one array length are distinct.\<close>

lemma ring_position_inj:
  assumes "length buf dvd 2 ^ 64" "j < k" "k < length buf" "length buf \<le> 2 ^ 64"
  shows "unat ((a :: usize) + of_nat j) mod length buf \<noteq> unat (a + of_nat k) mod length buf"
proof
  assume eq: "unat (a + of_nat j) mod length buf = unat (a + of_nat k) mod length buf"
  have "unat (a + of_nat m) mod length buf = (unat a + m) mod length buf" for m
  proof -
    have "unat (a + of_nat m) = (unat a + m) mod 2 ^ 64"
      by (simp add: unat_word_ariths unat_of_nat mod_add_right_eq)
    then show ?thesis
      using assms(1) by (simp add: mod_mod_cancel)
  qed
  with eq have "(unat a + k) mod length buf = (unat a + j) mod length buf"
    by simp
  then have "length buf dvd (unat a + k) - (unat a + j)"
    using assms(2) by (subst (asm) mod_eq_dvd_iff_nat) simp_all
  then have "length buf dvd k - j" by simp
  with assms(2,3) show False
    by (auto dest: dvd_imp_le)
qed

lemma ring_push:
  assumes "length buf dvd 2 ^ 64" "ring_size r w < length buf" "length buf \<le> 2 ^ 32"
  shows "ring_content bias (buf[unat (w + bias) mod length buf := c]) r (w + 1) = ring_content bias buf r w @ [c]"
proof -
  define n where "n = ring_size r w"
  have n: "n < length buf" "unat (w - r) = n" using assms(2) by (simp_all add: n_def ring_size_def)
  have Suc: "unat (w + 1 - r) = Suc n"
    using ring_size_Suc_write [of r w] assms(2,3) by (simp add: n_def ring_size_def)
  have w: "w = r + of_nat n"
    by (simp add: n(2) [symmetric])
  have pos: "unat (w + bias) mod length buf \<noteq> unat (r + of_nat k + bias) mod length buf" if "k < n" for k
    using ring_position_inj [OF assms(1) that n(1), of "r + bias"] assms(3) by (simp add: w algebra_simps)
  have "buf[unat (w + bias) mod length buf := c] ! (unat (r + of_nat n + bias) mod length buf) = c"
    unfolding w by (rule nth_list_update_eq) (rule mod_less_divisor, use n(1) in linarith)
  then show ?thesis
    using pos by (auto simp: ring_content_def Suc n(2))
qed

lemma ring_pop:
  assumes "r \<noteq> w"
  shows "ring_content bias buf r w = buf ! (unat (r + bias) mod length buf) # ring_content bias buf (r + 1) w"
proof -
  have S: "unat (w - r) = Suc (unat (w - (r + 1)))"
    using ring_size_Suc_read [OF assms] by (simp add: ring_size_def)
  have "[0..<Suc (unat (w - (r + 1)))] = 0 # map Suc [0..<unat (w - (r + 1))]"
    by (simp add: upt_conv_Cons map_Suc_upt del: upt_Suc)
  then show ?thesis
    unfolding ring_content_def S by (simp add: algebra_simps del: upt_Suc)
qed

lemma ring_content_append:
  assumes "ring_size r w + ring_size w e < 2 ^ 64"
  shows "ring_size r e = ring_size r w + ring_size w e"
    and "ring_content bias buf r e = ring_content bias buf r w @ ring_content bias buf w e"
proof -
  have e: "e - r = (w - r) + (e - w)" by simp
  show sz: "ring_size r e = ring_size r w + ring_size w e"
    using assms unfolding ring_size_def e by (intro unat_plus_no_overflow) simp
  have up: "[0..<ring_size r w + ring_size w e] = [0..<ring_size r w] @ map (\<lambda>i. i + ring_size r w) [0..<ring_size w e]"
    using upt_add_eq_append [of 0 "ring_size r w" "ring_size w e"] map_add_upt [of "ring_size r w" "ring_size w e"]
    by (simp add: add.commute)
  have w: "r + of_nat (i + ring_size r w) = w + of_nat i" for i
    by (simp add: ring_size_def)
  show "ring_content bias buf r e = ring_content bias buf r w @ ring_content bias buf w e"
    unfolding ring_content_def sz [unfolded ring_size_def]
    by (simp add: up [unfolded ring_size_def] w [unfolded ring_size_def] del: of_nat_add)
qed

lemma ring_full:
  assumes "n < 2 ^ 64"
  shows "w = r + of_nat n \<longleftrightarrow> ring_size r w = n"
proof
  assume "w = r + of_nat n"
  then show "ring_size r w = n"
    using assms by (simp add: ring_size_def unat_of_nat)
next
  assume "ring_size r w = n"
  then have "w - r = of_nat n"
    by (auto simp: ring_size_def)
  then show "w = r + of_nat n" by (simp add: algebra_simps)
qed

section \<open>The contract of a byte queue\<close>

datatype queue_cmd = Put u8 | Get

text \<open>A client's run: the bytes that were accepted and the bytes that came out.\<close>

fun run_queue ::
  "(u8 \<Rightarrow> 's \<Rightarrow> 's option) \<Rightarrow> ('s \<Rightarrow> (u8 \<times> 's) option) \<Rightarrow> queue_cmd list \<Rightarrow> 's \<Rightarrow> u8 list \<times> u8 list \<times> 's" where
  "run_queue put get [] s = ([], [], s)"
| "run_queue put get (Put c # cs) s =
     (case put c s of
        None \<Rightarrow> run_queue put get cs s
      | Some s' \<Rightarrow> let (acc, out, t) = run_queue put get cs s' in (c # acc, out, t))"
| "run_queue put get (Get # cs) s =
     (case get s of
        None \<Rightarrow> run_queue put get cs s
      | Some (c, s') \<Rightarrow> let (acc, out, t) = run_queue put get cs s' in (acc, c # out, t))"

locale byte_queue =
  fixes inv :: "'s \<Rightarrow> bool" and content :: "'s \<Rightarrow> u8 list" and capacity :: nat
    and put :: "u8 \<Rightarrow> 's \<Rightarrow> 's option" and get :: "'s \<Rightarrow> (u8 \<times> 's) option"
  assumes bounded: "inv s \<Longrightarrow> length (content s) \<le> capacity"
    and put_full: "inv s \<Longrightarrow> put c s = None \<longleftrightarrow> length (content s) = capacity"
    and put_inv: "inv s \<Longrightarrow> put c s = Some s' \<Longrightarrow> inv s' \<and> content s' = content s @ [c]"
    and get_empty: "inv s \<Longrightarrow> get s = None \<longleftrightarrow> content s = []"
    and get_inv: "inv s \<Longrightarrow> get s = Some (x, s') \<Longrightarrow> inv s' \<and> content s = x # content s'"
begin

lemma run_fifo:
  assumes "inv s" "run_queue put get cs s = (acc, out, t)"
  shows "inv t \<and> content s @ acc = out @ content t"
  using assms
proof (induction cs arbitrary: s acc out)
  case (Cons cmd cs)
  show ?case
  proof (cases cmd)
    case (Put c)
    show ?thesis
    proof (cases "put c s")
      case None
      then show ?thesis using Cons Put by simp
    next
      case (Some s')
      obtain acc' where "run_queue put get cs s' = (acc', out, t)" "acc = c # acc'"
        using Cons.prems(2) Put Some by (auto split: prod.splits)
      with Cons.IH [of s' acc' out] put_inv [OF Cons.prems(1) Some] show ?thesis
        by simp
    qed
  next
    case Get
    show ?thesis
    proof (cases "get s")
      case None
      then show ?thesis using Cons Get by simp
    next
      case (Some p)
      obtain x s' where p: "p = (x, s')" by force
      obtain out' where "run_queue put get cs s' = (acc, out', t)" "out = x # out'"
        using Cons.prems(2) Get Some p by (auto split: prod.splits)
      with Cons.IH [of s' acc out'] get_inv [OF Cons.prems(1), of x s'] Some p show ?thesis
        by simp
    qed
  qed
qed simp

end

end
