(* ===== verification/Uart.thy ===== *)
theory Uart
  imports Ring
begin

text \<open>
  The serial port: \<open>kernel/src/uart.rs\<close>.  The device is a parameter of the state: \<open>lsr\<close> and \<open>rhr\<close>
  give the values that successive reads of the line status and receive registers return, \<open>polls\<close> and
  \<open>reads\<close> count those reads, \<open>thr\<close> collects the bytes written to the transmit register.  Channels
  passed to \<open>wakeup\<close> are collected in \<open>wakeups\<close>.
\<close>

section \<open>Registers\<close>

definition RHR :: usize where
  "RHR = 0"

definition THR :: usize where
  "THR = 0"

definition IER :: usize where
  "IER = 1"

definition FCR :: usize where
  "FCR = 2"

definition LCR :: usize where
  "LCR = 3"

definition LSR :: usize where
  "LSR = 5"

text \<open>The register writes of \<open>init\<close>, in order.\<close>

definition uart_init :: "(usize \<times> u8) list" where
  "uart_init = [(IER, 0x00), (LCR, 0x80), (0, 0x03), (1, 0x00), (LCR, 0x03), (FCR, 0x07), (IER, 0x03)]"

definition UART_TX_BUF_SIZE :: nat where
  "UART_TX_BUF_SIZE = 32"

record uart =
  tx_w :: usize
  tx_r :: usize
  tx_buf :: "u8 list"
  panicked :: bool
  lsr :: "nat \<Rightarrow> u8"
  polls :: nat
  rhr :: "nat \<Rightarrow> u8"
  reads :: nat
  thr :: "u8 list"
  wakeups :: "usize list"

definition read_lsr :: "'z uart_scheme \<Rightarrow> u8 \<times> 'z uart_scheme" where
  "read_lsr s = (lsr s (polls s), s\<lparr>polls := Suc (polls s)\<rparr>)"

definition read_rhr :: "'z uart_scheme \<Rightarrow> u8 \<times> 'z uart_scheme" where
  "read_rhr s = (rhr s (reads s), s\<lparr>reads := Suc (reads s)\<rparr>)"

definition write_thr :: "u8 \<Rightarrow> 'z uart_scheme \<Rightarrow> 'z uart_scheme" where
  "write_thr c s = s\<lparr>thr := thr s @ [c]\<rparr>"

text \<open>The busy wait of \<open>putc_sync\<close>: \<open>None\<close> if the device never becomes ready.\<close>

partial_function (option) wait_thr :: "'z uart_scheme \<Rightarrow> 'z uart_scheme option" where
  "wait_thr s = (let (v, s) = read_lsr s in if v AND push_bit 5 1 = 0 then wait_thr s else Some s)"

declare wait_thr.simps [code]

definition putc_sync :: "u8 \<Rightarrow> 'z uart_scheme \<Rightarrow> 'z uart_scheme option" where
  "putc_sync c s = (if panicked s then None else map_option (write_thr c) (wait_thr s))"

section \<open>The transmit buffer\<close>

text \<open>Taking the next byte out of the buffer, and putting one in.\<close>

definition tx_take :: "'z uart_scheme \<Rightarrow> (u8 \<times> 'z uart_scheme) option" where
  "tx_take s =
     (if tx_w s = tx_r s then None
      else Some (tx_buf s ! (unat (tx_r s) mod UART_TX_BUF_SIZE), s\<lparr>tx_r := tx_r s + 1\<rparr>))"

definition tx_store :: "u8 \<Rightarrow> 'z uart_scheme \<Rightarrow> 'z uart_scheme option" where
  "tx_store c s =
     (if tx_w s = tx_r s + of_nat UART_TX_BUF_SIZE then None
      else Some (s\<lparr>tx_buf := (tx_buf s)[unat (tx_w s) mod UART_TX_BUF_SIZE := c], tx_w := tx_w s + 1\<rparr>))"

lemma read_lsr_fields [simp]:
  "tx_w (snd (read_lsr s)) = tx_w s" "tx_r (snd (read_lsr s)) = tx_r s" "tx_buf (snd (read_lsr s)) = tx_buf s"
  "thr (snd (read_lsr s)) = thr s" "wakeups (snd (read_lsr s)) = wakeups s" "panicked (snd (read_lsr s)) = panicked s"
  by (simp_all add: read_lsr_def)

function tx_start :: "'z uart_scheme \<Rightarrow> 'z uart_scheme" where
  "tx_start s =
     (if tx_w s = tx_r s then s
      else let (v, s) = read_lsr s in
        if v AND push_bit 5 1 = 0 then s
        else case tx_take s of
            None \<Rightarrow> s
          | Some (c, s) \<Rightarrow> tx_start (write_thr c (s\<lparr>wakeups := wakeups s @ [tx_r s]\<rparr>)))"
  by auto
termination
  by (relation "measure (\<lambda>s. ring_size (tx_r s) (tx_w s))")
    (auto simp: tx_take_def read_lsr_def write_thr_def ring_size_Suc_read split: if_splits)

declare tx_start.simps [simp del]

text \<open>\<open>putc\<close>, up to the point where it sleeps (\<open>Inl\<close> the channel) or returns (\<open>Inr\<close>).  A thread that
  is woken up starts over.\<close>

definition tx_putc :: "u8 \<Rightarrow> 'z uart_scheme \<Rightarrow> (usize + 'z uart_scheme) option" where
  "tx_putc c s =
     (if panicked s then None
      else case tx_store c s of
        None \<Rightarrow> Some (Inl (tx_r s))
      | Some s \<Rightarrow> Some (Inr (tx_start s)))"

section \<open>Bytes leave in order\<close>

definition tx_inv :: "'z uart_scheme \<Rightarrow> bool" where
  "tx_inv s \<longleftrightarrow> length (tx_buf s) = UART_TX_BUF_SIZE \<and> ring_size (tx_r s) (tx_w s) \<le> UART_TX_BUF_SIZE"

definition tx_content :: "'z uart_scheme \<Rightarrow> u8 list" where
  "tx_content s = ring_content 0 (tx_buf s) (tx_r s) (tx_w s)"

interpretation uart: byte_queue tx_inv tx_content UART_TX_BUF_SIZE tx_store tx_take
proof
  fix s s' :: "'a uart_scheme" and c x
  let ?B = UART_TX_BUF_SIZE
  have B: "?B dvd 2 ^ 64" "?B < 2 ^ 32" by (simp_all add: UART_TX_BUF_SIZE_def)
  assume inv: "tx_inv s"
  then have len: "length (tx_buf s) = ?B" and sz: "ring_size (tx_r s) (tx_w s) \<le> ?B"
    by (simp_all add: tx_inv_def)
  have full: "tx_w s = tx_r s + of_nat ?B \<longleftrightarrow> ring_size (tx_r s) (tx_w s) = ?B"
    by (rule ring_full) (use B in simp)
  show "length (tx_content s) \<le> ?B" using sz by (simp add: tx_content_def)
  show "tx_store c s = None \<longleftrightarrow> length (tx_content s) = ?B"
    by (simp add: tx_store_def tx_content_def full)
  show "tx_take s = None \<longleftrightarrow> tx_content s = []"
    by (auto simp: tx_take_def tx_content_def length_0_conv [symmetric] simp del: length_0_conv)
  { assume "tx_store c s = Some s'"
    then have s': "s' = s\<lparr>tx_buf := (tx_buf s)[unat (tx_w s) mod ?B := c], tx_w := tx_w s + 1\<rparr>"
      and lt: "ring_size (tx_r s) (tx_w s) < ?B"
      using full sz by (auto simp: tx_store_def split: if_splits)
    have "tx_content s' = tx_content s @ [c]"
      using ring_push [of "tx_buf s" "tx_r s" "tx_w s" 0 c] len lt B by (simp add: tx_content_def s')
    moreover have "ring_size (tx_r s) (tx_w s + 1) \<le> ?B"
      using ring_size_Suc_write [of "tx_r s" "tx_w s"] lt B by simp
    ultimately show "tx_inv s' \<and> tx_content s' = tx_content s @ [c]"
      using len by (simp add: tx_inv_def s') }
  { assume "tx_take s = Some (x, s')"
    then have s': "s' = s\<lparr>tx_r := tx_r s + 1\<rparr>" "x = tx_buf s ! (unat (tx_r s) mod ?B)" "tx_r s \<noteq> tx_w s"
      by (auto simp: tx_take_def split: if_splits)
    then show "tx_inv s' \<and> tx_content s = x # tx_content s'"
      using inv ring_pop [OF s'(3), of 0 "tx_buf s"] ring_size_Suc_read [OF s'(3)]
      by (simp add: tx_content_def tx_inv_def len) }
qed

lemma tx_inv_read_lsr [simp]:
  "tx_inv (snd (read_lsr s)) = tx_inv s" "tx_content (snd (read_lsr s)) = tx_content s"
  by (simp_all add: tx_inv_def tx_content_def)

text \<open>What \<open>start\<close> does, whatever the device answers.\<close>

lemma tx_start_law:
  assumes "tx_inv s"
  shows "\<exists>k out. tx_inv (tx_start s) \<and> thr (tx_start s) = thr s @ out \<and> tx_content s = out @ tx_content (tx_start s) \<and>
    tx_r (tx_start s) = tx_r s + of_nat k \<and> k = length out \<and> tx_w (tx_start s) = tx_w s \<and>
    panicked (tx_start s) = panicked s \<and>
    wakeups (tx_start s) = wakeups s @ map (\<lambda>i. tx_r s + of_nat (Suc i)) [0..<k]"
  using assms
proof (induction s rule: tx_start.induct)
  case (1 s)
  obtain v s1 where l: "read_lsr s = (v, s1)" by force
  note f = read_lsr_fields [of s, unfolded l snd_conv] tx_inv_read_lsr [of s, unfolded l snd_conv]
  show ?case
  proof (cases "tx_w s = tx_r s \<or> v AND push_bit 5 1 = 0")
    case True
    then have "tx_start s = s \<or> tx_start s = s1"
      by (subst (1 2) tx_start.simps) (auto simp: l)
    then show ?thesis
      using f "1.prems" by (intro exI [of _ 0] exI [of _ "[]"]) auto
  next
    case False
    then obtain c s2 where t: "tx_take s1 = Some (c, s2)"
      using f by (simp add: tx_take_def)
    note g = uart.get_inv [OF _ t, unfolded f, OF "1.prems"]
    let ?s3 = "write_thr c (s2\<lparr>wakeups := wakeups s2 @ [tx_r s2]\<rparr>)"
    have s2: "tx_r s2 = tx_r s + 1" "tx_w s2 = tx_w s" "thr s2 = thr s" "wakeups s2 = wakeups s" "panicked s2 = panicked s"
      using t f by (auto simp: tx_take_def split: if_splits)
    have st: "tx_start s = tx_start ?s3"
      using False by (subst tx_start.simps) (simp add: l t)
    have inv3: "tx_inv ?s3" "tx_content ?s3 = tx_content s2"
      using g by (simp_all add: tx_inv_def tx_content_def write_thr_def)
    have ih: "\<exists>k out. tx_inv (tx_start ?s3) \<and> thr (tx_start ?s3) = thr ?s3 @ out \<and> tx_content ?s3 = out @ tx_content (tx_start ?s3) \<and>
      tx_r (tx_start ?s3) = tx_r ?s3 + of_nat k \<and> k = length out \<and> tx_w (tx_start ?s3) = tx_w ?s3 \<and>
      panicked (tx_start ?s3) = panicked ?s3 \<and>
      wakeups (tx_start ?s3) = wakeups ?s3 @ map (\<lambda>i. tx_r ?s3 + of_nat (Suc i)) [0..<k]"
      by (rule "1.IH" [OF _ l [symmetric] refl _ t refl inv3(1)]) (use False in auto)
    then obtain k out where k: "tx_inv (tx_start ?s3)" "thr (tx_start ?s3) = thr ?s3 @ out"
      "tx_content ?s3 = out @ tx_content (tx_start ?s3)"
      "tx_r (tx_start ?s3) = tx_r ?s3 + of_nat k" "k = length out" "tx_w (tx_start ?s3) = tx_w ?s3"
      "panicked (tx_start ?s3) = panicked ?s3"
      "wakeups (tx_start ?s3) = wakeups ?s3 @ map (\<lambda>i. tx_r ?s3 + of_nat (Suc i)) [0..<k]"
      by blast
    have "map (\<lambda>i. tx_r s + of_nat (Suc i)) [0..<Suc k] =
        (tx_r s + 1) # map (\<lambda>i. tx_r s + 1 + of_nat (Suc i)) [0..<k]"
      by (simp only: upt_rec [of 0 "Suc k"]) (simp add: map_Suc_upt [symmetric] algebra_simps comp_def del: upt_Suc)
    then show ?thesis
      unfolding st using k g s2 inv3
      by (intro exI [of _ "Suc k"] exI [of _ "c # out"]) (simp add: write_thr_def algebra_simps del: upt_Suc)
  qed
qed

section \<open>Runs\<close>

text \<open>Calls of \<open>putc\<close> and transmit interrupts in any order; the result are the bytes \<open>putc\<close>
  accepted.\<close>

datatype uart_event = Tx_Putc u8 | Tx_Intr

fun run_uart :: "uart_event list \<Rightarrow> 'z uart_scheme \<Rightarrow> u8 list \<times> 'z uart_scheme" where
  "run_uart [] s = ([], s)"
| "run_uart (Tx_Intr # es) s = run_uart es (tx_start s)"
| "run_uart (Tx_Putc c # es) s =
     (case tx_putc c s of
        Some (Inr s') \<Rightarrow> apfst ((#) c) (run_uart es s')
      | _ \<Rightarrow> run_uart es s)"

definition uart_step :: "u8 list \<Rightarrow> u8 list \<Rightarrow> 'z uart_scheme \<Rightarrow> 'z uart_scheme \<Rightarrow> bool" where
  "uart_step acc out s t \<longleftrightarrow> tx_inv t \<and> thr t = thr s @ out \<and> tx_content s @ acc = out @ tx_content t \<and>
     tx_r t = tx_r s + of_nat (length out) \<and>
     wakeups t = wakeups s @ map (\<lambda>i. tx_r s + of_nat (Suc i)) [0..<length out]"

lemma uart_step_trans:
  assumes "uart_step a out s t" "uart_step a' out' t u"
  shows "uart_step (a @ a') (out @ out') s u"
proof -
  have "[0..<length out + length out'] = [0..<length out] @ map (\<lambda>i. length out + i) [0..<length out']"
    using upt_add_eq_append [of 0 "length out" "length out'"] map_add_upt [of "length out" "length out'"]
    by (simp add: add.commute)
  then have "wakeups u = wakeups s @ map (\<lambda>i. tx_r s + of_nat (Suc i)) [0..<length (out @ out')]"
    using assms by (simp add: uart_step_def algebra_simps)
  moreover have "tx_content s @ a @ a' = (out @ out') @ tx_content u"
    using assms unfolding uart_step_def by (metis append.assoc)
  ultimately show ?thesis
    using assms by (simp add: uart_step_def algebra_simps)
qed

lemma uart_step_start: "tx_inv s \<Longrightarrow> \<exists>out. uart_step [] out s (tx_start s)"
  using tx_start_law [of s] unfolding uart_step_def by auto

lemma uart_step_putc:
  assumes "tx_inv s" "tx_putc c s = Some (Inr s')"
  shows "\<exists>out. uart_step [c] out s s'"
proof -
  obtain s1 where s1: "tx_store c s = Some s1" "s' = tx_start s1"
    using assms(2) by (auto simp: tx_putc_def split: if_splits option.splits)
  note p = uart.put_inv [OF assms(1) s1(1)]
  have "uart_step [c] [] s s1"
    using s1(1) p by (auto simp: uart_step_def tx_store_def split: if_splits)
  with uart_step_start [of s1] p uart_step_trans [of "[c]" "[]" s s1 "[]"] show ?thesis
    unfolding s1(2) by fastforce
qed

lemma run_uart_step:
  "tx_inv s \<Longrightarrow> run_uart es s = (acc, t) \<Longrightarrow> \<exists>out. uart_step acc out s t"
proof (induction es s arbitrary: acc rule: run_uart.induct)
  case (1 s)
  then show ?case by (auto simp: uart_step_def intro!: exI [of _ "[]"])
next
  case (2 es s)
  then obtain out where "uart_step [] out s (tx_start s)" using uart_step_start by blast
  moreover from this 2 obtain out' where "uart_step acc out' (tx_start s) t"
    by (auto simp: uart_step_def)
  ultimately show ?case using uart_step_trans by (metis append_Nil)
next
  case (3 c es s)
  show ?case
  proof (cases "\<exists>s'. tx_putc c s = Some (Inr s')")
    case True
    then obtain s' where s': "tx_putc c s = Some (Inr s')" by blast
    then obtain acc' where acc: "run_uart es s' = (acc', t)" "acc = c # acc'"
      using "3.prems"(2) by (cases "run_uart es s'") auto
    obtain out where o: "uart_step [c] out s s'" using uart_step_putc [OF "3.prems"(1) s'] by blast
    then obtain out' where "uart_step acc' out' s' t"
      using "3.IH"(3) [OF s' refl _ acc(1)] by (auto simp: uart_step_def)
    with o acc(2) show ?thesis using uart_step_trans by fastforce
  next
    case False
    then show ?thesis
      using 3 by (auto split: option.splits sum.splits)
  qed
qed


definition demo_uart :: uart where
  "demo_uart = \<lparr>tx_w = 0, tx_r = 0, tx_buf = replicate UART_TX_BUF_SIZE 0, panicked = False, lsr = (\<lambda>n. if n = 1 then 32 else 0),
     polls = 0, rhr = (\<lambda>_. 0), reads = 0, thr = [], wakeups = []\<rparr>"


text \<open>C19: a thread that finds the buffer full sleeps on the value of the read counter, but \<open>start\<close>
  wakes up the values the counter takes afterwards: until it has counted through all of its
  \<open>2 ^ 64\<close> values no run of the driver wakes the thread up, however much space there is.\<close>

theorem uart_lost_wakeup:
  assumes "tx_inv s" "tx_putc c s = Some (Inl chan)" "run_uart es s = (acc, t)"
    and "length acc + UART_TX_BUF_SIZE < 2 ^ 64"
  shows "chan \<notin> set (drop (length (wakeups s)) (wakeups t))"
proof -
  have chan: "chan = tx_r s"
    using assms(2) by (auto simp: tx_putc_def split: if_splits option.splits)
  obtain out where o: "uart_step acc out s t" using run_uart_step [OF assms(1,3)] by blast
  then have "length out \<le> length (tx_content s) + length acc"
    unfolding uart_step_def by (metis le_add1 length_append)
  then have len: "length out < 2 ^ 64"
    using uart.bounded [OF assms(1)] assms(4) by linarith
  have "tx_r s \<noteq> tx_r s + of_nat (Suc i)" if "i < length out" for i
  proof
    assume "tx_r s = tx_r s + of_nat (Suc i)"
    then have "(of_nat (Suc i) :: usize) = 0" by (metis add_cancel_left_right)
    then have "unat (of_nat (Suc i) :: usize) = 0" by (simp only: unat_0)
    moreover have "unat (of_nat (Suc i) :: usize) = Suc i"
      unfolding unat_of_nat using that len by (intro mod_less) simp
    ultimately show False by simp
  qed
  then show ?thesis
    using o by (auto simp: uart_step_def chan)
qed

definition full_uart :: uart where
  "full_uart = demo_uart\<lparr>tx_w := 32, lsr := (\<lambda>_. 32)\<rparr>"

lemma full_uart_sleeps: "tx_inv full_uart" "tx_putc 7 full_uart = Some (Inl 0)" "wakeups full_uart = []"
  by (simp_all add: full_uart_def demo_uart_def tx_inv_def tx_putc_def tx_store_def UART_TX_BUF_SIZE_def ring_size_def)

theorem uart_lost_wakeup_witness:
  "tx_putc 7 full_uart = Some (Inl 0) \<and> 0 \<notin> set (wakeups (snd (run_uart [Tx_Intr] full_uart)))"
  using uart_lost_wakeup [OF full_uart_sleeps(1,2), of "[Tx_Intr]"] full_uart_sleeps(2,3)
  by (simp add: UART_TX_BUF_SIZE_def)

end
