(* ===== verification/Console.thy ===== *)
theory Console
  imports Uart
begin

text \<open>
  The console: \<open>kernel/src/console.rs\<close>, on top of the serial port.  Typed characters are collected
  between \<open>w\<close> and \<open>e\<close>, where a backspace can still remove them; a newline, \<open>^D\<close> or a full buffer moves
  \<open>w\<close> up to \<open>e\<close> and so hands the line to the readers.  Where user memory is copied from or to is a
  parameter, as in \<open>readi\<close>: a failed copy panics.
\<close>

definition INPUT_BUF :: nat where
  "INPUT_BUF = 128"

definition CTRL_D :: u8 where
  "CTRL_D = 0x04"

definition CTRL_BS :: u8 where
  "CTRL_BS = 0x08"

definition CTRL_LF :: u8 where
  "CTRL_LF = 0x0A"

definition CTRL_CR :: u8 where
  "CTRL_CR = 0x0D"

record console = uart +
  cons_buf :: "u8 list"
  cons_r :: usize
  cons_w :: usize
  cons_e :: usize
  cons_wakeups :: nat

text \<open>\<open>Console::new\<close>, with the number of wakeups of the readers.\<close>

definition console_new :: "uart \<Rightarrow> console" where
  "console_new u = uart.extend u \<lparr>cons_buf = replicate INPUT_BUF 0, cons_r = 0, cons_w = 0, cons_e = 0, cons_wakeups = 0\<rparr>"

definition putc :: "u8 \<Rightarrow> 'z uart_scheme \<Rightarrow> 'z uart_scheme option" where
  "putc c s = putc_sync c s"

definition console_intr :: "u8 \<Rightarrow> 'z console_scheme \<Rightarrow> 'z console_scheme option" where
  "console_intr c s =
     (if c = CTRL_BS \<or> c = 0x7f then
        if cons_e s \<noteq> cons_w s then putc CTRL_BS (s\<lparr>cons_e := cons_e s - 1\<rparr>) else Some s
      else if c \<noteq> 0 \<and> cons_e s - cons_r s < of_nat INPUT_BUF then do {
        let c = (if c = CTRL_CR then CTRL_LF else c);
        s \<leftarrow> putc c s;
        let s = s\<lparr>cons_e := cons_e s + 1\<rparr>;
        let s = s\<lparr>cons_buf := (cons_buf s)[unat (cons_e s) mod INPUT_BUF := c]\<rparr>;
        if c = CTRL_LF \<or> c = CTRL_D \<or> cons_e s = cons_r s + of_nat INPUT_BUF
        then Some (s\<lparr>cons_w := cons_e s, cons_wakeups := Suc (cons_wakeups s)\<rparr>)
        else Some s }
      else Some s)"

text \<open>The receive loop of \<open>uart::intr\<close>, which ends once the device has no more input, and the
  interrupt handler.\<close>

partial_function (option) uart_rx_loop :: "'z console_scheme \<Rightarrow> 'z console_scheme option" where
  "uart_rx_loop s =
     (let (v, s) = read_lsr s in
      if v AND 1 = 0 then Some s
      else let (c, s) = read_rhr s in do { s \<leftarrow> console_intr c s; uart_rx_loop s })"

declare uart_rx_loop.simps [code]

definition uart_intr :: "'z console_scheme \<Rightarrow> 'z console_scheme option" where
  "uart_intr s = map_option tx_start (uart_rx_loop s)"

text \<open>\<open>read\<close>, up to the point where it sleeps for input: the outcome has the count read so far and
  whether the call is done.  The bytes go to \<open>put\<close>, each with the offset from the caller's \<open>dst\<close> the
  code passes.\<close>

datatype read_outcome = Read_Sleeps nat | Read_Done nat

function console_read_loop ::
  "('m \<Rightarrow> nat \<Rightarrow> u8 \<Rightarrow> 'm option) \<Rightarrow> nat \<Rightarrow> nat \<Rightarrow> 'm \<Rightarrow> 'z console_scheme \<Rightarrow> (read_outcome \<times> 'm \<times> 'z console_scheme) option" where
  "console_read_loop put target n m s =
     (if n = 0 then Some (Read_Done (target - n), m, s)
      else if cons_r s = cons_w s then Some (Read_Sleeps (target - n), m, s)
      else let s = s\<lparr>cons_r := cons_r s + 1\<rparr>; c = cons_buf s ! (unat (cons_r s) mod INPUT_BUF) in
        if c = CTRL_D then
          Some (Read_Done (target - n), m, if n < target then s\<lparr>cons_r := cons_r s - 0\<rparr> else s)
        else case put m 0 c of
          None \<Rightarrow> None
        | Some m \<Rightarrow>
            if c = CTRL_LF then Some (Read_Done (target - (n - 1)), m, s)
            else console_read_loop put target (n - 1) m s)"
  by pat_completeness auto
termination by (relation "measure (\<lambda>(put, target, n, m, s). n)") auto

declare console_read_loop.simps [simp del]

definition console_read ::
  "('m \<Rightarrow> nat \<Rightarrow> u8 \<Rightarrow> 'm option) \<Rightarrow> nat \<Rightarrow> 'm \<Rightarrow> 'z console_scheme \<Rightarrow> (read_outcome \<times> 'm \<times> 'z console_scheme) option" where
  "console_read put n m s = console_read_loop put n n m s"

text \<open>\<open>write\<close>, with the byte at offset \<open>i\<close> from \<open>src\<close> given by \<open>get\<close>: the outcome is the number of
  bytes accepted before a full transmit buffer puts the writer to sleep.\<close>

fun console_write_from ::
  "(nat \<Rightarrow> u8 option) \<Rightarrow> nat list \<Rightarrow> 'z uart_scheme \<Rightarrow> ((nat \<times> usize) option \<times> 'z uart_scheme) option" where
  "console_write_from get [] s = Some (None, s)"
| "console_write_from get (i # is) s = do {
     c \<leftarrow> get i;
     r \<leftarrow> tx_putc c s;
     case r of
       Inl chan \<Rightarrow> Some (Some (i, chan), s)
     | Inr s \<Rightarrow> console_write_from get is s }"

definition console_write :: "(nat \<Rightarrow> u8 option) \<Rightarrow> nat \<Rightarrow> 'z uart_scheme \<Rightarrow> ((nat \<times> usize) option \<times> 'z uart_scheme) option" where
  "console_write get n s = console_write_from get [0..<n] s"

section \<open>The line discipline\<close>

text \<open>The console as the user sees it: the input handed to the readers, and the line being typed.\<close>

definition console_abs :: "'z console_scheme \<Rightarrow> u8 list \<times> u8 list" where
  "console_abs s = (ring_content 1 (cons_buf s) (cons_r s) (cons_w s), ring_content 1 (cons_buf s) (cons_w s) (cons_e s))"

definition console_inv :: "'z console_scheme \<Rightarrow> bool" where
  "console_inv s \<longleftrightarrow> length (cons_buf s) = INPUT_BUF \<and>
     ring_size (cons_r s) (cons_w s) + ring_size (cons_w s) (cons_e s) \<le> INPUT_BUF"

definition line_intr :: "u8 \<Rightarrow> u8 list \<times> u8 list \<Rightarrow> u8 list \<times> u8 list" where
  "line_intr c q = (case q of (ready, line) \<Rightarrow>
     if c = CTRL_BS \<or> c = 0x7f then (ready, butlast line)
     else if c = 0 \<or> length ready + length line \<ge> INPUT_BUF then (ready, line)
     else let c = (if c = CTRL_CR then CTRL_LF else c) in
       if c = CTRL_LF \<or> c = CTRL_D \<or> Suc (length ready + length line) = INPUT_BUF
       then (ready @ line @ [c], []) else (ready, line @ [c]))"

text \<open>The transmitter is ready again and again.\<close>

definition device_live :: "'z uart_scheme \<Rightarrow> bool" where
  "device_live s \<longleftrightarrow> \<not> panicked s \<and> (\<forall>k. \<exists>n \<ge> k. lsr s n AND push_bit 5 1 \<noteq> 0)"

lemma wait_thr_returns:
  assumes "polls s \<le> n" "lsr s n AND push_bit 5 1 \<noteq> 0"
  shows "\<exists>p. wait_thr s = Some (s\<lparr>polls := p\<rparr>)"
  using assms
proof (induction "n - polls s" arbitrary: s)
  case 0
  then have "wait_thr s = Some (s\<lparr>polls := Suc (polls s)\<rparr>)"
    by (subst wait_thr.simps) (simp add: read_lsr_def)
  then show ?case by blast
next
  case (Suc k)
  let ?s = "s\<lparr>polls := Suc (polls s)\<rparr>"
  have unf: "wait_thr s = (if lsr s (polls s) AND push_bit 5 1 = 0 then wait_thr ?s else Some ?s)"
    by (subst wait_thr.simps) (simp add: read_lsr_def)
  obtain p where "wait_thr ?s = Some (?s\<lparr>polls := p\<rparr>)"
    using Suc.hyps(1) [of ?s] Suc.hyps(2) Suc.prems diff_Suc_eq_diff_pred [of n "polls s"] by fastforce
  then have "wait_thr ?s = Some (s\<lparr>polls := p\<rparr>)" by simp
  with unf show ?case by auto
qed

lemma putc_returns:
  assumes "device_live s"
  obtains p where "putc c s = Some (s\<lparr>polls := p, thr := thr s @ [c]\<rparr>)"
proof -
  from assms obtain n where "n \<ge> polls s" "lsr s n AND push_bit 5 1 \<noteq> 0"
    by (auto simp: device_live_def)
  then obtain p where "wait_thr s = Some (s\<lparr>polls := p\<rparr>)" using wait_thr_returns by blast
  with assms that show thesis
    by (simp add: putc_def putc_sync_def device_live_def write_thr_def)
qed

lemma console_inv_content:
  assumes "console_inv s"
  shows "ring_size (cons_r s) (cons_e s) = ring_size (cons_r s) (cons_w s) + ring_size (cons_w s) (cons_e s)"
    and "ring_content 1 (cons_buf s) (cons_r s) (cons_e s) = fst (console_abs s) @ snd (console_abs s)"
  using assms ring_content_append [of "cons_r s" "cons_w s" "cons_e s"]
  by (simp_all add: console_inv_def console_abs_def INPUT_BUF_def)

lemma console_backspace:
  assumes "console_inv s" "cons_e s \<noteq> cons_w s"
  shows "console_inv (s\<lparr>cons_e := cons_e s - 1\<rparr>)"
    and "console_abs (s\<lparr>cons_e := cons_e s - 1\<rparr>) = (fst (console_abs s), butlast (snd (console_abs s)))"
proof -
  let ?e = "cons_e s - 1"
  have one: "ring_size ?e (cons_e s) = 1" by (simp add: ring_size_def)
  have lt: "ring_size (cons_w s) ?e < 2 ^ 64 - 1"
  proof -
    have "cons_e s - cons_w s \<noteq> 0" using assms(2) by simp
    then have "unat (cons_e s - cons_w s - 1) = unat (cons_e s - cons_w s) - 1" "unat (cons_e s - cons_w s) \<noteq> 0"
      by (simp_all add: unat_minus_one unat_eq_0)
    moreover have "?e - cons_w s = cons_e s - cons_w s - 1" by simp
    moreover have "unat (cons_e s - cons_w s) < 2 ^ 64" by simp
    ultimately show ?thesis unfolding ring_size_def by presburger
  qed
  then have le: "ring_size (cons_w s) ?e + ring_size ?e (cons_e s) < 2 ^ 64"
    using one by simp
  note ap = ring_content_append [OF le]
  show "console_inv (s\<lparr>cons_e := ?e\<rparr>)"
    using assms(1) ap(1) by (simp add: console_inv_def)
  obtain x where "ring_content 1 (cons_buf s) ?e (cons_e s) = [x]"
    using one length_ring_content [of 1 "cons_buf s" ?e "cons_e s"] by (metis One_nat_def length_0_conv length_Suc_conv)
  then show "console_abs (s\<lparr>cons_e := ?e\<rparr>) = (fst (console_abs s), butlast (snd (console_abs s)))"
    using ap(2) [of 1 "cons_buf s"] by (simp add: console_abs_def)
qed

lemma console_type:
  fixes s :: "'z console_scheme" and c :: u8
  assumes "console_inv s" "ring_size (cons_r s) (cons_e s) < INPUT_BUF"
  defines "s' \<equiv> s\<lparr>cons_e := cons_e s + 1, cons_buf := (cons_buf s)[unat (cons_e s + 1) mod INPUT_BUF := c]\<rparr>"
  shows "console_inv s'" and "console_abs s' = (fst (console_abs s), snd (console_abs s) @ [c])"
    and "ring_size (cons_r s') (cons_e s') = Suc (ring_size (cons_r s) (cons_e s))"
proof -
  have len: "length (cons_buf s) = INPUT_BUF" using assms(1) by (simp add: console_inv_def)
  note sz = console_inv_content [OF assms(1)]
  show Suc: "ring_size (cons_r s') (cons_e s') = Suc (ring_size (cons_r s) (cons_e s))"
    using ring_size_Suc_write assms(2) by (simp add: s'_def INPUT_BUF_def)
  have we: "ring_size (cons_w s) (cons_e s + 1) = Suc (ring_size (cons_w s) (cons_e s))"
    using ring_size_Suc_write [of "cons_w s" "cons_e s"] assms(2) sz(1) by (simp add: INPUT_BUF_def)
  show inv': "console_inv s'"
    using we sz(1) assms(2) len by (simp add: console_inv_def s'_def)
  have "ring_content 1 (cons_buf s') (cons_r s') (cons_e s') = ring_content 1 (cons_buf s) (cons_r s) (cons_e s) @ [c]"
    using ring_push [of "cons_buf s" "cons_r s" "cons_e s" 1 c] assms(2) len by (simp add: s'_def INPUT_BUF_def)
  then have "fst (console_abs s') @ snd (console_abs s') = fst (console_abs s) @ (snd (console_abs s) @ [c])"
    using console_inv_content(2) [OF inv'] sz(2) by simp
  moreover have "length (fst (console_abs s')) = length (fst (console_abs s))"
    by (simp add: console_abs_def s'_def)
  ultimately show "console_abs s' = (fst (console_abs s), snd (console_abs s) @ [c])"
    by (simp add: prod_eq_iff)
qed

lemma console_commit:
  assumes "console_inv s"
  shows "console_inv (s\<lparr>cons_w := cons_e s, cons_wakeups := k\<rparr>)"
    and "console_abs (s\<lparr>cons_w := cons_e s, cons_wakeups := k\<rparr>) = (fst (console_abs s) @ snd (console_abs s), [])"
  using assms console_inv_content [OF assms] by (simp_all add: console_inv_def console_abs_def)

lemma console_uart_frame [simp]:
  "console_inv (s\<lparr>polls := p, thr := o'\<rparr>) = console_inv s"
  "console_abs (s\<lparr>polls := p, thr := o'\<rparr>) = console_abs s"
  by (simp_all add: console_inv_def console_abs_def)

text \<open>C20: handling a typed character implements the line discipline: backspace removes the last
  character of the line being typed and nothing else; a newline, \<open>^D\<close> or the character that fills the
  buffer hands the line over; zero and characters that do not fit are dropped.  With a serial port
  that keeps becoming ready the handler always returns.\<close>

theorem console_line_discipline:
  assumes "console_inv s" "device_live s"
  shows "\<exists>s'. console_intr c s = Some s' \<and> console_inv s' \<and> device_live s' \<and> console_abs s' = line_intr c (console_abs s)"
proof (cases "c = CTRL_BS \<or> c = 0x7f")
  case True
  show ?thesis
  proof (cases "cons_e s = cons_w s")
    case True
    then show ?thesis
      using \<open>c = CTRL_BS \<or> c = 0x7f\<close> assms by (auto simp: console_intr_def line_intr_def console_abs_def)
  next
    case False
    let ?s = "s\<lparr>cons_e := cons_e s - 1\<rparr>"
    have "device_live ?s" using assms(2) by (simp add: device_live_def)
    then obtain p where p: "putc CTRL_BS ?s = Some (?s\<lparr>polls := p, thr := thr ?s @ [CTRL_BS]\<rparr>)"
      by (rule putc_returns)
    then show ?thesis
      using True False console_backspace [OF assms(1) False] \<open>device_live ?s\<close>
      by (auto simp: console_intr_def line_intr_def device_live_def case_prod_unfold)
  qed
next
  case no_bs: False
  have size: "cons_e s - cons_r s < of_nat INPUT_BUF \<longleftrightarrow> ring_size (cons_r s) (cons_e s) < INPUT_BUF"
    by (simp add: ring_size_def word_less_nat_alt INPUT_BUF_def)
  have len: "length (fst (console_abs s)) + length (snd (console_abs s)) = ring_size (cons_r s) (cons_e s)"
    using console_inv_content(1) [OF assms(1)] by (simp add: console_abs_def)
  show ?thesis
  proof (cases "c \<noteq> 0 \<and> ring_size (cons_r s) (cons_e s) < INPUT_BUF")
    case False
    then show ?thesis
      using no_bs assms size len by (auto simp: console_intr_def line_intr_def case_prod_unfold)
  next
    case True
    define d where "d = (if c = CTRL_CR then CTRL_LF else c)"
    obtain p where p: "putc d s = Some (s\<lparr>polls := p, thr := thr s @ [d]\<rparr>)" by (rule putc_returns [OF assms(2)])
    define s1 where "s1 = s\<lparr>polls := p, thr := thr s @ [d]\<rparr>"
    define s2 where "s2 = s1\<lparr>cons_e := cons_e s1 + 1, cons_buf := (cons_buf s1)[unat (cons_e s1 + 1) mod INPUT_BUF := d]\<rparr>"
    have s1: "console_inv s1" "console_abs s1 = console_abs s" "ring_size (cons_r s1) (cons_e s1) < INPUT_BUF"
      using assms(1) True by (simp_all add: s1_def)
    note t = console_type [OF s1(1,3), of d, folded s2_def]
    have live: "device_live s2" using assms(2) by (simp add: device_live_def s1_def s2_def)
    have full: "cons_e s2 = cons_r s2 + of_nat INPUT_BUF \<longleftrightarrow> Suc (ring_size (cons_r s) (cons_e s)) = INPUT_BUF"
      using ring_full [of INPUT_BUF "cons_e s2" "cons_r s2"] t(3) by (simp add: INPUT_BUF_def s1_def)
    have intr: "console_intr c s = Some (if d = CTRL_LF \<or> d = CTRL_D \<or> cons_e s2 = cons_r s2 + of_nat INPUT_BUF
        then s2\<lparr>cons_w := cons_e s2, cons_wakeups := Suc (cons_wakeups s2)\<rparr> else s2)"
      using no_bs True size p by (simp add: console_intr_def Let_def flip: d_def) (simp add: s2_def s1_def)
    show ?thesis
      using no_bs True len intr t s1(2) full live console_commit [OF t(1), of "Suc (cons_wakeups s2)"]
      by (auto simp: line_intr_def Let_def case_prod_unfold device_live_def simp flip: d_def)
  qed
qed

definition demo_console :: console where
  "demo_console = console_new (demo_uart\<lparr>lsr := (\<lambda>_. 32)\<rparr>)"

lemma demo_console_inv: "console_inv demo_console" "device_live demo_console" "console_abs demo_console = ([], [])"
  by (auto simp: demo_console_def console_new_def demo_uart_def console_inv_def device_live_def console_abs_def
      uart.defs)

theorem console_line_discipline_witness:
  "\<exists>s'. console_intr 104 demo_console = Some s' \<and> console_abs s' = ([], [104])"
  using console_line_discipline [OF demo_console_inv(1,2), of 104] demo_console_inv(3)
  by (auto simp: line_intr_def CTRL_BS_def CTRL_CR_def CTRL_LF_def CTRL_D_def INPUT_BUF_def)

section \<open>Reading a line\<close>

definition user_store :: "(nat \<Rightarrow> u8) \<Rightarrow> nat \<Rightarrow> u8 \<Rightarrow> (nat \<Rightarrow> u8) option" where
  "user_store m off c = Some (m(off := c))"

lemma console_read_loop_line:
  assumes "console_inv s" "fst (console_abs s) = xs @ CTRL_LF # rest"
    and "CTRL_LF \<notin> set xs" "CTRL_D \<notin> set xs" "length xs < n" "n \<le> target"
  shows "\<exists>s'. console_read_loop user_store target n m s =
      Some (Read_Done (target - n + Suc (length xs)), m(0 := CTRL_LF), s') \<and> console_inv s' \<and>
      console_abs s' = (rest, snd (console_abs s))"
  using assms
proof (induction xs arbitrary: n m s)
  case Nil
  define s1 where "s1 = s\<lparr>cons_r := cons_r s + 1\<rparr>"
  have ne: "cons_r s \<noteq> cons_w s" using Nil.prems(2) by (auto simp: console_abs_def)
  have c: "cons_buf s ! (unat (cons_r s + 1) mod INPUT_BUF) = CTRL_LF" and r: "console_abs s1 = (rest, snd (console_abs s))"
    using ring_pop [OF ne, of 1 "cons_buf s"] Nil.prems(1,2) by (simp_all add: console_abs_def console_inv_def s1_def)
  have "console_inv s1" using Nil.prems(1) ring_size_Suc_read [OF ne] by (simp add: console_inv_def s1_def)
  moreover have "CTRL_LF \<noteq> CTRL_D" by (simp add: CTRL_LF_def CTRL_D_def)
  ultimately show ?case
    using Nil.prems(5,6) ne c r by (subst console_read_loop.simps) (auto simp: user_store_def Let_def s1_def)
next
  case (Cons x xs)
  define s1 where "s1 = s\<lparr>cons_r := cons_r s + 1\<rparr>"
  have ne: "cons_r s \<noteq> cons_w s" using Cons.prems(2) by (auto simp: console_abs_def)
  have c: "cons_buf s ! (unat (cons_r s + 1) mod INPUT_BUF) = x"
    and r: "fst (console_abs s1) = xs @ CTRL_LF # rest" "snd (console_abs s1) = snd (console_abs s)"
    using ring_pop [OF ne, of 1 "cons_buf s"] Cons.prems(1,2) by (simp_all add: console_abs_def console_inv_def s1_def)
  have inv: "console_inv s1" using Cons.prems(1) ring_size_Suc_read [OF ne] by (simp add: console_inv_def s1_def)
  have "console_read_loop user_store target n m s = console_read_loop user_store target (n - 1) (m(0 := x)) s1"
    using Cons.prems(3-5) ne c by (subst console_read_loop.simps) (auto simp: user_store_def Let_def s1_def)
  moreover have "CTRL_LF \<notin> set xs" "CTRL_D \<notin> set xs" "length xs < n - 1" "n - 1 \<le> target"
    using Cons.prems(3-6) by simp_all
  note Cons.IH [OF inv r(1) this, of "m(0 := x)", unfolded fun_upd_upd r(2)]
  moreover have "target - (n - 1) + Suc (length xs) = target - n + Suc (length (x # xs))"
    using Cons.prems(5,6) by simp
  ultimately show ?case by (simp only:)
qed

text \<open>C21: reading a line reports its length, but the destination pointer is never advanced: every
  character is stored at the first byte of the caller's buffer, which ends up holding the newline,
  and the rest of the buffer is unchanged.\<close>

theorem console_read_one_byte:
  assumes "console_inv s" "fst (console_abs s) = xs @ CTRL_LF # rest"
    and "CTRL_LF \<notin> set xs" "CTRL_D \<notin> set xs" "length xs < n"
  shows "\<exists>s'. console_read user_store n m s = Some (Read_Done (Suc (length xs)), m(0 := CTRL_LF), s') \<and>
      console_inv s' \<and> console_abs s' = (rest, snd (console_abs s))"
  using console_read_loop_line [OF assms, of n m] by (simp add: console_read_def)

definition demo_line :: console where
  "demo_line = demo_console\<lparr>cons_buf := (replicate INPUT_BUF 0)[1 := 104, 2 := 105, 3 := CTRL_LF], cons_w := 3, cons_e := 3\<rparr>"

lemma demo_line_inv: "console_inv demo_line" "console_abs demo_line = ([104, 105, CTRL_LF], [])"
  by (simp_all add: demo_line_def console_inv_def console_abs_def ring_size_def ring_content_def demo_console_def
      console_new_def uart.defs INPUT_BUF_def upt_rec)

theorem console_read_one_byte_witness:
  "\<exists>s'. console_read user_store 100 (\<lambda>_. 0) demo_line = Some (Read_Done 3, (\<lambda>_. 0)(0 := CTRL_LF), s')"
  using console_read_one_byte [OF demo_line_inv(1), of "[104, 105]" "[]" 100 "\<lambda>_. 0"] demo_line_inv(2)
  by (auto simp: CTRL_LF_def CTRL_D_def)

end
