(* ===== verification/Pipe.thy ===== *)
theory Pipe
  imports Ring
begin

text \<open>
  Pipes: the \<open>FileInner::Pipe\<close> branches of \<open>kernel/src/file.rs\<close>.  The user memory is a parameter:
  \<open>fetch i\<close> is the byte at \<open>addr + i\<close> (\<open>None\<close> when \<open>copy_in\<close> fails), \<open>store m i c\<close> the memory after
  \<open>copy_out\<close> of a byte there.  A call that has to wait stops with \<open>Sleeps\<close>; woken up, it goes on from
  where it stopped (\<open>pipe_write_from\<close>, \<open>pipe_read\<close>).  The two channels are the addresses of the two
  counters.
\<close>

definition PIPE_SIZE :: nat where
  "PIPE_SIZE = 512"

record pipe =
  pi_data :: "u8 list"
  pi_read_open :: bool
  pi_write_open :: bool
  pi_nread :: usize
  pi_nwrite :: usize

definition pipe_new :: pipe where
  "pipe_new = \<lparr>pi_data = replicate PIPE_SIZE 0, pi_read_open = True, pi_write_open = True, pi_nread = 0, pi_nwrite = 0\<rparr>"

datatype pipe_chan = Chan_Read | Chan_Write

datatype 'a pipe_outcome = Sleeps pipe_chan 'a | Returns "nat result"

text \<open>Storing a byte, unless the pipe is full, and taking one, unless it is empty.\<close>

definition pipe_put :: "u8 \<Rightarrow> pipe \<Rightarrow> pipe option" where
  "pipe_put c p =
     (if pi_nwrite p = pi_nread p + of_nat PIPE_SIZE then None
      else let n_write = pi_nwrite p + 1 in
        Some (p\<lparr>pi_data := (pi_data p)[unat n_write mod PIPE_SIZE := c], pi_nwrite := n_write\<rparr>))"

definition pipe_take :: "pipe \<Rightarrow> (u8 \<times> pipe) option" where
  "pipe_take p =
     (if pi_nread p = pi_nwrite p then None
      else let p = p\<lparr>pi_nread := pi_nread p + 1\<rparr> in Some (pi_data p ! (unat (pi_nread p) mod PIPE_SIZE), p))"

text \<open>Writing bytes \<open>i .. n\<close>; the last component are the channels woken up.\<close>

function pipe_write_from ::
  "(nat \<Rightarrow> u8 option) \<Rightarrow> nat \<Rightarrow> nat \<Rightarrow> pipe \<Rightarrow> nat pipe_outcome \<times> pipe \<times> pipe_chan list" where
  "pipe_write_from fetch n i p =
     (if i < n then
        if \<not> pi_read_open p then (Returns (Err ''pipe_write: no read open''), p, [])
        else if pi_nwrite p = pi_nread p + of_nat PIPE_SIZE then (Sleeps Chan_Write i, p, [Chan_Read])
        else case fetch i of
            None \<Rightarrow> (Returns (Ok i), p, [Chan_Read])
          | Some ch \<Rightarrow> pipe_write_from fetch n (i + 1) (the (pipe_put ch p))
      else (Returns (Ok i), p, [Chan_Read]))"
  by pat_completeness auto
termination by (relation "measure (\<lambda>(fetch, n, i, p). n - i)") auto

declare pipe_write_from.simps [simp del]

definition pipe_write :: "(nat \<Rightarrow> u8 option) \<Rightarrow> nat \<Rightarrow> pipe \<Rightarrow> nat pipe_outcome \<times> pipe \<times> pipe_chan list" where
  "pipe_write fetch n p = pipe_write_from fetch n 0 p"

text \<open>The copying loop of \<open>read\<close>, which ends when the pipe is empty or a copy fails.\<close>

fun pipe_read_loop :: "('m \<Rightarrow> nat \<Rightarrow> u8 \<Rightarrow> 'm option) \<Rightarrow> nat list \<Rightarrow> 'm \<Rightarrow> pipe \<Rightarrow> 'm \<times> pipe" where
  "pipe_read_loop store [] m p = (m, p)"
| "pipe_read_loop store (i # is) m p =
     (case pipe_take p of
        None \<Rightarrow> (m, p)
      | Some (ch, p) \<Rightarrow>
          (case store m i ch of
             None \<Rightarrow> (m, p)
           | Some m \<Rightarrow> pipe_read_loop store is m p))"

definition pipe_read ::
  "('m \<Rightarrow> nat \<Rightarrow> u8 \<Rightarrow> 'm option) \<Rightarrow> nat \<Rightarrow> 'm \<Rightarrow> pipe \<Rightarrow> unit pipe_outcome \<times> 'm \<times> pipe \<times> pipe_chan list" where
  "pipe_read store n m p =
     (if pi_nread p = pi_nwrite p \<and> pi_write_open p then (Sleeps Chan_Read (), m, p, [])
      else let (m, p) = pipe_read_loop store [0..<n] m p in (Returns (Ok 0), m, p, [Chan_Write]))"

text \<open>Dropping one of the two ends.\<close>

definition pipe_close :: "bool \<Rightarrow> pipe \<Rightarrow> pipe \<times> pipe_chan list" where
  "pipe_close writable p =
     (if writable then (p\<lparr>pi_write_open := False\<rparr>, [Chan_Read])
      else (p\<lparr>pi_read_open := False\<rparr>, [Chan_Write]))"

section \<open>The pipe is a queue\<close>

definition pipe_inv :: "pipe \<Rightarrow> bool" where
  "pipe_inv p \<longleftrightarrow> length (pi_data p) = PIPE_SIZE \<and> ring_size (pi_nread p) (pi_nwrite p) \<le> PIPE_SIZE"

definition pipe_content :: "pipe \<Rightarrow> u8 list" where
  "pipe_content p = ring_content 1 (pi_data p) (pi_nread p) (pi_nwrite p)"

interpretation pipe_queue: byte_queue pipe_inv pipe_content PIPE_SIZE pipe_put pipe_take
proof
  fix p p' :: pipe and c x
  have B: "PIPE_SIZE dvd 2 ^ 64" "PIPE_SIZE < 2 ^ 32" by (simp_all add: PIPE_SIZE_def)
  assume inv: "pipe_inv p"
  then have len: "length (pi_data p) = PIPE_SIZE" and sz: "ring_size (pi_nread p) (pi_nwrite p) \<le> PIPE_SIZE"
    by (simp_all add: pipe_inv_def)
  have full: "pi_nwrite p = pi_nread p + of_nat PIPE_SIZE \<longleftrightarrow> ring_size (pi_nread p) (pi_nwrite p) = PIPE_SIZE"
    by (rule ring_full) (use B in simp)
  show "length (pipe_content p) \<le> PIPE_SIZE" using sz by (simp add: pipe_content_def)
  show "pipe_put c p = None \<longleftrightarrow> length (pipe_content p) = PIPE_SIZE"
    by (simp add: pipe_put_def pipe_content_def full Let_def)
  show "pipe_take p = None \<longleftrightarrow> pipe_content p = []"
    by (auto simp: pipe_take_def pipe_content_def Let_def length_0_conv [symmetric] simp del: length_0_conv)
  { assume "pipe_put c p = Some p'"
    then have p': "p' = p\<lparr>pi_data := (pi_data p)[unat (pi_nwrite p + 1) mod PIPE_SIZE := c], pi_nwrite := pi_nwrite p + 1\<rparr>"
      and lt: "ring_size (pi_nread p) (pi_nwrite p) < PIPE_SIZE"
      using full sz by (auto simp: pipe_put_def Let_def split: if_splits)
    have "pipe_content p' = pipe_content p @ [c]"
      using ring_push [of "pi_data p" "pi_nread p" "pi_nwrite p" 1 c] len lt B by (simp add: pipe_content_def p')
    moreover have "ring_size (pi_nread p) (pi_nwrite p + 1) \<le> PIPE_SIZE"
      using ring_size_Suc_write [of "pi_nread p" "pi_nwrite p"] lt B by simp
    ultimately show "pipe_inv p' \<and> pipe_content p' = pipe_content p @ [c]"
      using len by (simp add: pipe_inv_def p') }
  { assume "pipe_take p = Some (x, p')"
    then have p': "p' = p\<lparr>pi_nread := pi_nread p + 1\<rparr>" "x = pi_data p ! (unat (pi_nread p + 1) mod PIPE_SIZE)" "pi_nread p \<noteq> pi_nwrite p"
      by (auto simp: pipe_take_def Let_def split: if_splits)
    then show "pipe_inv p' \<and> pipe_content p = x # pipe_content p'"
      using inv ring_pop [OF p'(3), of 1 "pi_data p"] ring_size_Suc_read [OF p'(3)]
      by (simp add: pipe_content_def pipe_inv_def len) }
qed

lemma pipe_put_fields:
  "pipe_put c p = Some p' \<Longrightarrow> pi_read_open p' = pi_read_open p \<and> pi_write_open p' = pi_write_open p"
  by (auto simp: pipe_put_def Let_def split: if_splits)

lemma pipe_take_fields:
  "pipe_take p = Some (c, p') \<Longrightarrow> pi_read_open p' = pi_read_open p \<and> pi_write_open p' = pi_write_open p"
  by (auto simp: pipe_take_def Let_def split: if_splits)

text \<open>How a write ends: at the end of the buffer, at a byte that cannot be fetched, full, or with no
  reader.\<close>

definition write_end :: "(nat \<Rightarrow> u8 option) \<Rightarrow> nat \<Rightarrow> pipe \<Rightarrow> nat \<Rightarrow> nat pipe_outcome \<Rightarrow> pipe_chan list \<Rightarrow> bool" where
  "write_end fetch n p k r w \<longleftrightarrow>
     (case r of
        Sleeps c j \<Rightarrow> c = Chan_Write \<and> j = k \<and> k < n \<and> length (pipe_content p) = PIPE_SIZE \<and> w = [Chan_Read]
      | Returns (Inr j) \<Rightarrow> j = k \<and> (k = n \<or> fetch k = None) \<and> w = [Chan_Read]
      | Returns (Inl _) \<Rightarrow> \<not> pi_read_open p \<and> k < n \<and> w = [])"

lemma pipe_write_from_law:
  assumes "pipe_inv p" "i \<le> n" "pipe_write_from fetch n i p = (r, p', w)"
  shows "\<exists>k. i \<le> k \<and> k \<le> n \<and> (\<forall>j. i \<le> j \<longrightarrow> j < k \<longrightarrow> fetch j \<noteq> None) \<and> pipe_inv p' \<and>
    pipe_content p' = pipe_content p @ map (\<lambda>j. the (fetch j)) [i..<k] \<and>
    pi_read_open p' = pi_read_open p \<and> pi_write_open p' = pi_write_open p \<and> write_end fetch n p' k r w"
  using assms
proof (induction fetch n i p rule: pipe_write_from.induct)
  case (1 fetch n i p)
  have full: "pi_nwrite p = pi_nread p + of_nat PIPE_SIZE \<longleftrightarrow> length (pipe_content p) = PIPE_SIZE"
    using pipe_queue.put_full [OF "1.prems"(1), of 0] by (simp add: pipe_put_def Let_def split: if_splits)
  show ?case
  proof (cases "i < n \<and> pi_read_open p \<and> pi_nwrite p \<noteq> pi_nread p + of_nat PIPE_SIZE \<and> fetch i \<noteq> None")
    case False
    then have "p' = p \<and> write_end fetch n p i r w"
      using "1.prems"(2,3) full by (subst (asm) pipe_write_from.simps) (auto simp: write_end_def split: if_splits)
    then show ?thesis
      using "1.prems"(1,2) by (intro exI [of _ i]) simp
  next
    case True
    then obtain ch where ch: "fetch i = Some ch" by blast
    obtain q where q: "pipe_put ch p = Some q"
      using True by (auto simp: pipe_put_def Let_def)
    note pq = pipe_queue.put_inv [OF "1.prems"(1) q] pipe_put_fields [OF q]
    have "pipe_write_from fetch n (i + 1) q = (r, p', w)"
      using "1.prems"(3) True ch q by (subst (asm) pipe_write_from.simps) simp
    then obtain k where k: "i + 1 \<le> k" "k \<le> n" "\<forall>j. i + 1 \<le> j \<longrightarrow> j < k \<longrightarrow> fetch j \<noteq> None" "pipe_inv p'"
      "pipe_content p' = pipe_content q @ map (\<lambda>j. the (fetch j)) [i + 1..<k]"
      "pi_read_open p' = pi_read_open q" "pi_write_open p' = pi_write_open q" "write_end fetch n p' k r w"
      using "1.IH" [OF _ _ _ ch] True q pq by auto
    have "[i..<k] = i # [i + 1..<k]" using k(1) by (simp add: upt_conv_Cons)
    moreover have "\<forall>j. i \<le> j \<longrightarrow> j < k \<longrightarrow> fetch j \<noteq> None"
      using k(3) ch by (metis Suc_eq_plus1 le_antisym not_less_eq_eq option.distinct(1))
    ultimately show ?thesis
      using k pq ch by (intro exI [of _ k]) simp
  qed
qed

text \<open>C22: a write to a pipe stores a prefix of its bytes behind what the pipe holds and changes
  nothing else.  It stops with the whole buffer stored, before a byte it cannot fetch, asleep because
  the pipe holds \<open>PIPE_SIZE\<close> bytes (and goes on from that byte when woken up), or with an error because
  no reader is left; except in the last case it wakes up the readers.\<close>

theorem pipe_write_appends:
  assumes "pipe_inv p" "i \<le> n"
  shows "case pipe_write_from fetch n i p of (r, p', w) \<Rightarrow>
    \<exists>k. i \<le> k \<and> k \<le> n \<and> pipe_inv p' \<and> pipe_content p' = pipe_content p @ map (\<lambda>j. the (fetch j)) [i..<k] \<and>
      pi_read_open p' = pi_read_open p \<and> pi_write_open p' = pi_write_open p \<and> write_end fetch n p' k r w"
  using pipe_write_from_law [OF assms] by (fastforce split: prod.splits)

lemma pipe_new_inv: "pipe_inv pipe_new" "pipe_content pipe_new = []"
  by (simp_all add: pipe_inv_def pipe_new_def pipe_content_def)

theorem pipe_write_appends_witness:
  "case pipe_write_from (\<lambda>i. [Some 7, Some 8, None] ! i) 3 0 pipe_new of (r, p', w) \<Rightarrow>
    \<exists>k. pipe_content p' = map (\<lambda>j. the ([Some 7, Some 8, None] ! j)) [0..<k]"
  using pipe_write_appends [OF pipe_new_inv(1), of 0 3 "\<lambda>i. [Some 7, Some 8, None] ! i"] pipe_new_inv(2)
  by (auto split: prod.splits)

section \<open>Reading\<close>

lemma pipe_read_loop_law:
  assumes "pipe_inv p" "a \<le> b"
  shows "\<exists>p'. pipe_read_loop (\<lambda>m i c. Some (m(i := c))) [a..<b] m p =
      (\<lambda>j. if a \<le> j \<and> j < a + length (take (b - a) (pipe_content p)) then pipe_content p ! (j - a) else m j, p') \<and>
    pipe_inv p' \<and> pipe_content p' = drop (b - a) (pipe_content p)"
  using assms
proof (induction "b - a" arbitrary: a m p)
  case 0
  then show ?case by (auto simp: fun_eq_iff)
next
  case (Suc k)
  then have u: "[a..<b] = a # [Suc a..<b]" by (simp add: upt_conv_Cons)
  show ?case
  proof (cases "pipe_take p")
    case None
    then have "pipe_content p = []" using pipe_queue.get_empty [OF Suc.prems(1)] by simp
    then show ?thesis using None Suc.prems by (auto simp: u fun_eq_iff)
  next
    case (Some cq)
    obtain c q where q: "cq = (c, q)" by force
    note g = pipe_queue.get_inv [OF Suc.prems(1) Some [unfolded q]]
    have d: "b - a = Suc (b - Suc a)" "k = b - Suc a" "Suc a \<le> b" using Suc.hyps(2) by simp_all
    obtain p' where p': "pipe_read_loop (\<lambda>m i c. Some (m(i := c))) [Suc a..<b] (m(a := c)) q =
      (\<lambda>j. if Suc a \<le> j \<and> j < Suc a + length (take (b - Suc a) (pipe_content q)) then pipe_content q ! (j - Suc a) else (m(a := c)) j, p')"
      "pipe_inv p'" "pipe_content p' = drop (b - Suc a) (pipe_content q)"
      using Suc.hyps(1) [OF d(2) _ d(3)] g by blast
    have "pipe_read_loop (\<lambda>m i c. Some (m(i := c))) [a..<b] m p =
      (\<lambda>j. if a \<le> j \<and> j < a + length (take (b - a) (pipe_content p)) then pipe_content p ! (j - a) else m j, p')"
      using p'(1) g by (auto simp: u Some q d(1) fun_eq_iff nth_Cons' le_Suc_eq Suc_diff_le not_less_eq_eq simp del: upt_Suc)
    then show ?thesis
      using p'(2,3) g d(1) by auto
  qed
qed

text \<open>C23: what is written to an empty pipe is read back in order, byte for byte, and leaves the pipe
  empty; but \<open>read\<close> reports 0 bytes whatever it has delivered, which its callers take for the end of
  the file.\<close>

theorem pipe_roundtrip_reports_zero:
  assumes "length bs \<le> PIPE_SIZE" "bs \<noteq> []" "length bs \<le> n"
  shows "\<exists>p q. pipe_write (\<lambda>i. Some (bs ! i)) (length bs) pipe_new = (Returns (Ok (length bs)), p, [Chan_Read]) \<and>
    pipe_read (\<lambda>m i c. Some (m(i := c))) n m p =
      (Returns (Ok 0), (\<lambda>j. if j < length bs then bs ! j else m j), q, [Chan_Write]) \<and> pipe_content q = []"
proof -
  obtain r p w where e: "pipe_write_from (\<lambda>i. Some (bs ! i)) (length bs) 0 pipe_new = (r, p, w)"
    by (metis prod_cases3)
  obtain k where k: "k \<le> length bs" "pipe_inv p" "pipe_content p = map (\<lambda>j. bs ! j) [0..<k]"
    "pi_read_open p" "write_end (\<lambda>i. Some (bs ! i)) (length bs) p k r w"
    using pipe_write_from_law [OF pipe_new_inv(1) _ e] pipe_new_inv(2) by (auto simp: pipe_new_def)
  have len: "length (pipe_content p) = k" using k(3) by simp
  have r: "r = Returns (Ok (length bs)) \<and> k = length bs \<and> w = [Chan_Read]"
    using k(4,5) len assms(1) by (auto simp: write_end_def split: pipe_outcome.splits sum.splits)
  then have c: "pipe_content p = bs" using k(3) by (simp add: map_nth)
  have ne: "pi_nread p \<noteq> pi_nwrite p" using c assms(2) by (auto simp: pipe_content_def)
  obtain q where "pipe_read_loop (\<lambda>m i c. Some (m(i := c))) [0..<n] m p =
      (\<lambda>j. if j < length bs then bs ! j else m j, q)" "pipe_content q = []"
    using pipe_read_loop_law [OF k(2), of 0 n m] assms(3) unfolding c by (auto simp: fun_eq_iff)
  then show ?thesis
    using e r ne by (intro exI [of _ p] exI [of _ q]) (simp add: pipe_write_def pipe_read_def)
qed

theorem pipe_roundtrip_reports_zero_witness:
  "\<exists>p q. pipe_write (\<lambda>i. Some ([1, 2, 3] ! i)) 3 pipe_new = (Returns (Ok 3), p, [Chan_Read]) \<and>
    pipe_read (\<lambda>m i c. Some (m(i := c))) 10 (\<lambda>_. 0) p =
      (Returns (Ok 0), (\<lambda>j. if j < 3 then [1, 2, 3] ! j else 0), q, [Chan_Write]) \<and> pipe_content q = []"
  using pipe_roundtrip_reports_zero [of "[1, 2, 3]" 10 "\<lambda>_. 0"] by (simp add: PIPE_SIZE_def eval_nat_numeral)

end
