(* ===== verification/Spinlock.thy ===== *)
theory Spinlock
  imports Xv6_Prelude
begin

text \<open>
  Spin locks on several harts: \<open>kernel/src/spinlock.rs\<close> with \<open>push_off\<close> and \<open>pop_off\<close> of
  \<open>kernel/src/cpu.rs\<close>.  \<open>push_off\<close> and \<open>pop_off\<close> touch only the calling hart's own state; everything
  \<open>acquire\<close> and \<open>release\<close> do to a lock, which other harts see, is one step of an interleaving
  semantics: the two loads of \<open>holding\<close>, the compare-exchange, the stores.  A hart's live
  \<open>SpinLockGuard\<close>s are the list \<open>guards\<close>.
\<close>

section \<open>Nested critical sections\<close>

text \<open>The interrupt state of a hart: \<open>sie\<close> is the interrupt enable bit of \<open>sstatus\<close>.\<close>

record cpu =
  noff :: u8
  intena :: bool
  sie :: bool

definition push_off :: "'z cpu_scheme \<Rightarrow> 'z cpu_scheme" where
  "push_off c = (let old = sie c; c = c\<lparr>sie := False\<rparr>; c = (if noff c = 0 then c\<lparr>intena := old\<rparr> else c) in
     c\<lparr>noff := noff c + 1\<rparr>)"

definition pop_off :: "'z cpu_scheme \<Rightarrow> 'z cpu_scheme option" where
  "pop_off c =
     (if sie c then None
      else if noff c < 1 then None
      else let c = c\<lparr>noff := noff c - 1\<rparr> in
        Some (if noff c = 0 \<and> intena c then c\<lparr>sie := True\<rparr> else c))"

section \<open>Locks\<close>

text \<open>The lock: \<open>cpu_id\<close> is \<open>-1\<close> when no hart has recorded itself.\<close>

record spin =
  sl_locked :: bool
  sl_cpu :: int

definition spin_new :: spin where
  "spin_new = \<lparr>sl_locked = False, sl_cpu = -1\<rparr>"

text \<open>Where a hart is inside \<open>acquire\<close> and \<open>release\<close>.\<close>

datatype spin_pc =
    Idle
  | Acq_Locked nat
  | Acq_Id nat
  | Spin nat
  | Set_Id nat
  | Rel_Locked nat
  | Rel_Id nat
  | Rel_Clear nat
  | Rel_Store nat
  | Rel_Pop
  | Panic "nat option"

record hart = cpu +
  pc :: spin_pc
  guards :: "nat list"

record smp =
  locks :: "nat \<Rightarrow> spin"
  harts :: "nat \<Rightarrow> hart"

definition smp_init :: smp where
  "smp_init = \<lparr>locks = (\<lambda>_. spin_new), harts = (\<lambda>_. \<lparr>noff = 0, intena = False, sie = False, pc = Idle, guards = []\<rparr>)\<rparr>"

abbreviation goto :: "spin_pc \<Rightarrow> hart \<Rightarrow> hart" where
  "goto p k \<equiv> k\<lparr>pc := p\<rparr>"

text \<open>A hart between two calls may lock any lock, drop any of its guards, or, outside of critical
  sections, change its interrupt enable bit.  Nesting deeper than the counter \<open>noff\<close> can count is
  excluded.\<close>

inductive hart_step :: "nat \<Rightarrow> (nat \<Rightarrow> spin) \<Rightarrow> hart \<Rightarrow> (nat \<Rightarrow> spin) \<Rightarrow> hart \<Rightarrow> bool" for h where
  lock: "pc k = Idle \<Longrightarrow> length (guards k) < 255 \<Longrightarrow> hart_step h ls k ls (goto (Acq_Locked l) (push_off k))"
| acq_locked: "pc k = Acq_Locked l \<Longrightarrow> hart_step h ls k ls (goto (if sl_locked (ls l) then Acq_Id l else Spin l) k)"
| acq_id: "pc k = Acq_Id l \<Longrightarrow> hart_step h ls k ls (goto (if sl_cpu (ls l) = int h then Panic (Some l) else Spin l) k)"
| spin: "pc k = Spin l \<Longrightarrow> sl_locked (ls l) \<Longrightarrow> hart_step h ls k ls k"
| exchange: "pc k = Spin l \<Longrightarrow> \<not> sl_locked (ls l) \<Longrightarrow>
    hart_step h ls k (ls(l := (ls l)\<lparr>sl_locked := True\<rparr>)) (goto (Set_Id l) k)"
| set_id: "pc k = Set_Id l \<Longrightarrow>
    hart_step h ls k (ls(l := (ls l)\<lparr>sl_cpu := int h\<rparr>)) (k\<lparr>pc := Idle, guards := l # guards k\<rparr>)"
| drop: "pc k = Idle \<Longrightarrow> l \<in> set (guards k) \<Longrightarrow>
    hart_step h ls k ls (k\<lparr>pc := Rel_Locked l, guards := remove1 l (guards k)\<rparr>)"
| rel_locked: "pc k = Rel_Locked l \<Longrightarrow> hart_step h ls k ls (goto (if sl_locked (ls l) then Rel_Id l else Panic None) k)"
| rel_id: "pc k = Rel_Id l \<Longrightarrow> hart_step h ls k ls (goto (if sl_cpu (ls l) = int h then Rel_Clear l else Panic None) k)"
| rel_clear: "pc k = Rel_Clear l \<Longrightarrow> hart_step h ls k (ls(l := (ls l)\<lparr>sl_cpu := -1\<rparr>)) (goto (Rel_Store l) k)"
| rel_store: "pc k = Rel_Store l \<Longrightarrow> hart_step h ls k (ls(l := (ls l)\<lparr>sl_locked := False\<rparr>)) (goto Rel_Pop k)"
| rel_pop: "pc k = Rel_Pop \<Longrightarrow> pop_off k = Some k' \<Longrightarrow> hart_step h ls k ls (goto Idle k')"
| rel_pop_panic: "pc k = Rel_Pop \<Longrightarrow> pop_off k = None \<Longrightarrow> hart_step h ls k ls (goto (Panic None) k)"
| intr: "pc k = Idle \<Longrightarrow> guards k = [] \<Longrightarrow> hart_step h ls k ls (k\<lparr>sie := b\<rparr>)"

inductive smp_step :: "smp \<Rightarrow> smp \<Rightarrow> bool" where
  "hart_step h (locks s) (harts s h) ls' k' \<Longrightarrow> smp_step s (s\<lparr>locks := ls', harts := (harts s)(h := k')\<rparr>)"

inductive_cases hart_stepE: "hart_step h ls k ls' k'"
inductive_cases smp_stepE: "smp_step s s'"

section \<open>The invariant\<close>

text \<open>The lock a hart owns while it is inside \<open>acquire\<close> or \<open>release\<close>, and whether it is recorded in
  the lock.\<close>

fun pc_owns :: "spin_pc \<Rightarrow> nat option" where
  "pc_owns (Set_Id l) = Some l"
| "pc_owns (Rel_Locked l) = Some l"
| "pc_owns (Rel_Id l) = Some l"
| "pc_owns (Rel_Clear l) = Some l"
| "pc_owns (Rel_Store l) = Some l"
| "pc_owns _ = None"

fun pc_recorded :: "spin_pc \<Rightarrow> nat option" where
  "pc_recorded (Rel_Locked l) = Some l"
| "pc_recorded (Rel_Id l) = Some l"
| "pc_recorded (Rel_Clear l) = Some l"
| "pc_recorded _ = None"

definition owns :: "hart \<Rightarrow> nat \<Rightarrow> bool" where
  "owns k l \<longleftrightarrow> l \<in> set (guards k) \<or> pc_owns (pc k) = Some l"

definition recorded :: "hart \<Rightarrow> nat \<Rightarrow> bool" where
  "recorded k l \<longleftrightarrow> l \<in> set (guards k) \<or> pc_recorded (pc k) = Some l"

text \<open>What a hart knows of itself: its guards are distinct, \<open>noff\<close> counts its critical sections, in
  which interrupts are off, and it panics only for locking a lock it holds.\<close>

definition hart_ok :: "hart \<Rightarrow> bool" where
  "hart_ok k \<longleftrightarrow> distinct (guards k) \<and> (\<forall>l. pc_owns (pc k) = Some l \<longrightarrow> l \<notin> set (guards k)) \<and>
     unat (noff k) = length (guards k) + of_bool (pc k \<noteq> Idle) \<and> (noff k \<noteq> 0 \<longrightarrow> \<not> sie k) \<and>
     (case pc k of Panic (Some l) \<Rightarrow> l \<in> set (guards k) | Panic None \<Rightarrow> False | _ \<Rightarrow> True)"

definition smp_inv :: "smp \<Rightarrow> bool" where
  "smp_inv s \<longleftrightarrow> (\<forall>h. hart_ok (harts s h)) \<and>
     (\<forall>l. sl_locked (locks s l) \<longleftrightarrow> (\<exists>h. owns (harts s h) l)) \<and>
     (\<forall>l h h'. owns (harts s h) l \<longrightarrow> owns (harts s h') l \<longrightarrow> h = h') \<and>
     (\<forall>l h. sl_cpu (locks s l) = int h \<longleftrightarrow> recorded (harts s h) l)"

lemma recorded_owns: "recorded k l \<Longrightarrow> owns k l"
  by (cases "pc k") (auto simp: recorded_def owns_def)

lemma unat_noff_push:
  "unat (noff k) < 255 \<Longrightarrow> unat (noff (push_off k)) = Suc (unat (noff k))"
  using unat_plus_no_overflow [of "noff k" 1] by (simp add: push_off_def Let_def)

lemma push_off_fields [simp]:
  "\<not> sie (push_off k)" "pc (push_off k) = pc k" "guards (push_off k) = guards k"
  by (simp_all add: push_off_def Let_def)

lemma pop_off_some:
  assumes "noff k \<noteq> 0" "\<not> sie k"
  obtains k' where "pop_off k = Some k'" "unat (noff k') = unat (noff k) - 1" "noff k' \<noteq> 0 \<longrightarrow> \<not> sie k'"
    "pc k' = pc k" "guards k' = guards k"
proof -
  have "\<not> noff k < 1" using assms(1) by (simp add: word_less_1)
  then show thesis
    using that assms unat_minus_one [OF assms(1)] by (cases "noff k = 1 \<and> intena k") (auto simp: pop_off_def Let_def)
qed

lemma pop_off_fields: "pop_off k = Some k' \<Longrightarrow> pc k' = pc k \<and> guards k' = guards k"
  by (auto simp: pop_off_def Let_def split: if_splits)

lemma noff_zero: "hart_ok k \<Longrightarrow> noff k = 0 \<longleftrightarrow> pc k = Idle \<and> guards k = []"
  by (auto simp: hart_ok_def unat_eq_0 [symmetric])

text \<open>A hart and what it may assume of the locks.\<close>

definition hart_view :: "nat \<Rightarrow> (nat \<Rightarrow> spin) \<Rightarrow> hart \<Rightarrow> bool" where
  "hart_view h ls k \<longleftrightarrow> hart_ok k \<and> (\<forall>l. owns k l \<longrightarrow> sl_locked (ls l)) \<and> (\<forall>l. sl_cpu (ls l) = int h \<longleftrightarrow> recorded k l)"

text \<open>What one step does to the locks, seen from the hart that makes it.\<close>

lemma hart_step_locked:
  assumes "hart_step h ls k ls' k'" "hart_view h ls k"
  shows "(sl_locked (ls' l) \<longleftrightarrow> owns k' l \<or> (\<not> owns k l \<and> sl_locked (ls l))) \<and>
    (owns k' l \<longrightarrow> owns k l \<or> \<not> sl_locked (ls l))"
  using assms
  by (induction rule: hart_step.induct)
    (auto simp: owns_def recorded_def hart_ok_def hart_view_def dest: pop_off_fields split: if_splits)

lemma hart_step_recorded:
  assumes "hart_step h ls k ls' k'" "hart_view h ls k"
  shows "sl_cpu (ls' l) = (if recorded k' l then int h else if recorded k l then -1 else sl_cpu (ls l)) \<and>
    (recorded k' l \<longrightarrow> owns k l)"
  using assms
  by (induction rule: hart_step.induct)
    (auto simp: owns_def recorded_def hart_ok_def hart_view_def dest: pop_off_fields split: if_splits)

lemma hart_step_ok:
  assumes "hart_step h ls k ls' k'" "hart_view h ls k"
  shows "hart_ok k'"
  using assms unfolding hart_view_def
proof (induction rule: hart_step.induct)
  case (lock k ls l)
  then have "unat (noff k) < 255" by (simp add: hart_ok_def)
  with lock show ?case by (auto simp: hart_ok_def unat_noff_push simp del: unat_eq_0 dest: unat_noff_push)
next
  case (drop k l ls)
  then have "0 < length (guards k)" by auto
  with drop show ?case by (auto simp: hart_ok_def length_remove1)
next
  case (rel_pop k k' ls)
  then have "noff k \<noteq> 0" by (auto simp: hart_ok_def)
  then obtain k'' where "pop_off k = Some k''" "unat (noff k'') = unat (noff k) - 1" "noff k'' \<noteq> 0 \<longrightarrow> \<not> sie k''"
    "pc k'' = pc k" "guards k'' = guards k"
    using pop_off_some [of k] rel_pop by (auto simp: hart_ok_def)
  with rel_pop show ?case by (auto simp: hart_ok_def)
next
  case (rel_pop_panic k ls)
  then have "noff k \<noteq> 0" by (auto simp: hart_ok_def)
  then show ?case using pop_off_some [of k] rel_pop_panic by (auto simp: hart_ok_def)
next
  case (intr k ls b)
  then show ?case using noff_zero [of k] by (auto simp: hart_ok_def)
qed (auto simp: hart_ok_def owns_def recorded_def)

lemma smp_inv_init: "smp_inv smp_init"
  by (simp add: smp_inv_def smp_init_def hart_ok_def spin_new_def owns_def recorded_def)

lemma smp_inv_step:
  assumes "smp_step s s'" "smp_inv s"
  shows "smp_inv s'"
proof -
  from assms(1) obtain h ls' k' where st: "hart_step h (locks s) (harts s h) ls' k'"
    and s': "s' = s\<lparr>locks := ls', harts := (harts s)(h := k')\<rparr>"
    by (rule smp_stepE) blast
  let ?k = "harts s h"
  have view: "hart_view h (locks s) ?k" and cpu: "\<And>l. sl_cpu (locks s l) = int h \<longleftrightarrow> recorded ?k l"
    using assms(2) by (auto simp: smp_inv_def hart_view_def)
  note L = hart_step_locked [OF st view] and R = hart_step_recorded [OF st view] and ok' = hart_step_ok [OF st view]
  have unowned: "\<not> owns (harts s h') l" if "owns k' l" "h' \<noteq> h" for h' l
    using L [of l] that assms(2) unfolding smp_inv_def by metis
  have lck: "\<forall>l. sl_locked (locks s' l) \<longleftrightarrow> (\<exists>h'. owns (harts s' h') l)"
  proof
    fix l
    show "sl_locked (locks s' l) \<longleftrightarrow> (\<exists>h'. owns (harts s' h') l)"
    proof (cases "owns k' l \<or> owns ?k l")
      case True
      then show ?thesis using L [of l] assms(2) unfolding smp_inv_def s' by (auto split: if_splits)
    next
      case False
      then show ?thesis using L [of l] assms(2) unfolding smp_inv_def s' by (auto split: if_splits)
    qed
  qed
  have uniq: "\<forall>l h1 h2. owns (harts s' h1) l \<longrightarrow> owns (harts s' h2) l \<longrightarrow> h1 = h2"
  proof (intro allI impI)
    fix l h1 h2
    assume o: "owns (harts s' h1) l" "owns (harts s' h2) l"
    have c: "x = h \<and> owns k' l \<or> x \<noteq> h \<and> owns (harts s x) l" if "owns (harts s' x) l" for x
      using that by (auto simp: s' split: if_splits)
    have "\<And>a b. owns (harts s a) l \<Longrightarrow> owns (harts s b) l \<Longrightarrow> a = b"
      using assms(2) by (simp add: smp_inv_def)
    with c [OF o(1)] c [OF o(2)] unowned show "h1 = h2" by blast
  qed
  have rec: "\<forall>l h'. sl_cpu (locks s' l) = int h' \<longleftrightarrow> recorded (harts s' h') l"
  proof (intro allI)
    fix l h'
    show "sl_cpu (locks s' l) = int h' \<longleftrightarrow> recorded (harts s' h') l"
    proof (cases "h' = h")
      case True
      then show ?thesis using R [of l] cpu [of l] by (auto simp: s')
    next
      case False
      have "\<not> recorded (harts s h') l" if "recorded k' l \<or> recorded ?k l"
        using that R [of l] False assms(2) recorded_owns unfolding smp_inv_def by metis
      then show ?thesis using False R [of l] assms(2) by (auto simp: s' smp_inv_def)
    qed
  qed
  have "\<forall>h'. hart_ok (harts s' h')"
    using ok' assms(2) by (simp add: smp_inv_def s')
  with lck uniq rec show ?thesis
    unfolding smp_inv_def by (intro conjI)
qed

lemma smp_reachable_inv: "smp_step\<^sup>*\<^sup>* smp_init s \<Longrightarrow> smp_inv s"
  by (induction rule: rtranclp_induct) (auto intro: smp_inv_init smp_inv_step)

text \<open>C24: in every state that any interleaving of the harts reaches, two harts never hold guards of
  the same lock, a hart that holds a guard has interrupts disabled, and the consistency checks of
  \<open>acquire\<close> and \<open>release\<close>, which read the lock's two fields without atomicity, only ever panic in a
  hart that locks a lock it already holds.\<close>

theorem spinlock_mutual_exclusion:
  assumes "smp_step\<^sup>*\<^sup>* smp_init s"
  shows "(\<forall>h h' l. l \<in> set (guards (harts s h)) \<and> l \<in> set (guards (harts s h')) \<longrightarrow> h = h') \<and>
    (\<forall>h. guards (harts s h) \<noteq> [] \<longrightarrow> \<not> sie (harts s h)) \<and>
    (\<forall>h p. pc (harts s h) = Panic p \<longrightarrow> (\<exists>l. p = Some l \<and> l \<in> set (guards (harts s h))))"
proof -
  note inv = smp_reachable_inv [OF assms]
  have "noff (harts s h) \<noteq> 0" if "guards (harts s h) \<noteq> []" for h
    using inv that noff_zero [of "harts s h"] by (simp add: smp_inv_def)
  moreover have "\<exists>l. p = Some l \<and> l \<in> set (guards (harts s h))" if "pc (harts s h) = Panic p" for h p
  proof -
    have "hart_ok (harts s h)" using inv by (simp add: smp_inv_def)
    with that show ?thesis by (cases p) (simp_all add: hart_ok_def)
  qed
  ultimately show ?thesis
    using inv by (auto simp: smp_inv_def hart_ok_def owns_def)
qed

text \<open>Hart 0 takes lock 3.\<close>

definition demo_smp :: smp where
  "demo_smp = smp_init\<lparr>locks := (locks smp_init)(3 := \<lparr>sl_locked = True, sl_cpu = 0\<rparr>),
     harts := (harts smp_init)(0 := \<lparr>noff = 1, intena = False, sie = False, pc = Idle, guards = [3]\<rparr>)\<rparr>"

lemma smp_stepI:
  "hart_step h ls k ls' k' \<Longrightarrow> smp_step \<lparr>locks = ls, harts = ks(h := k)\<rparr> \<lparr>locks = ls', harts = ks(h := k')\<rparr>"
  using smp_step.intros [of h "\<lparr>locks = ls, harts = ks(h := k)\<rparr>" ls' k'] by simp

lemma demo_smp_reachable: "smp_step\<^sup>*\<^sup>* smp_init demo_smp"
proof -
  let ?k = "\<lambda>p. \<lparr>noff = 1, intena = False, sie = False, pc = p, guards = []\<rparr>"
  let ?idle = "\<lparr>noff = 0, intena = False, sie = False, pc = Idle, guards = []\<rparr>"
  let ?free = "\<lambda>_. spin_new" and ?taken = "(\<lambda>_. spin_new)(3 := \<lparr>sl_locked = True, sl_cpu = -1\<rparr>)"
  have 1: "hart_step 0 ?free ?idle ?free (?k (Acq_Locked 3))"
    using hart_step.lock [of ?idle 0 ?free 3] by (simp add: push_off_def)
  have 2: "hart_step 0 ?free (?k (Acq_Locked 3)) ?free (?k (Spin 3))"
    using hart_step.acq_locked [of "?k (Acq_Locked 3)" 3 0 ?free] by (simp add: spin_new_def)
  have 3: "hart_step 0 ?free (?k (Spin 3)) ?taken (?k (Set_Id 3))"
    using hart_step.exchange [of "?k (Spin 3)" 3 ?free 0] by (simp add: spin_new_def)
  have 4: "hart_step 0 ?taken (?k (Set_Id 3)) (?taken(3 := \<lparr>sl_locked = True, sl_cpu = 0\<rparr>)) ((?k Idle)\<lparr>guards := [3]\<rparr>)"
    using hart_step.set_id [of "?k (Set_Id 3)" 3 0 ?taken] by simp
  note steps = 1 [THEN smp_stepI, of "\<lambda>_. ?idle"] 2 [THEN smp_stepI, of "\<lambda>_. ?idle"]
    3 [THEN smp_stepI, of "\<lambda>_. ?idle"] 4 [THEN smp_stepI, of "\<lambda>_. ?idle"]
  have "smp_init = \<lparr>locks = ?free, harts = (\<lambda>_. ?idle)(0 := ?idle)\<rparr>"
    by (simp add: smp_init_def fun_upd_idem)
  moreover have "demo_smp = \<lparr>locks = ?taken(3 := \<lparr>sl_locked = True, sl_cpu = 0\<rparr>), harts = (\<lambda>_. ?idle)(0 := (?k Idle)\<lparr>guards := [3]\<rparr>)\<rparr>"
    by (simp add: demo_smp_def smp_init_def)
  ultimately show ?thesis
    using converse_rtranclp_into_rtranclp [of smp_step, OF steps(1)
      converse_rtranclp_into_rtranclp [of smp_step, OF steps(2)
      converse_rtranclp_into_rtranclp [of smp_step, OF steps(3) r_into_rtranclp [of smp_step, OF steps(4)]]]]
    by (simp only:)
qed

lemma demo_smp_guards: "guards (harts demo_smp h) = (if h = 0 then [3] else [])"
  by (simp add: demo_smp_def smp_init_def)

theorem spinlock_mutual_exclusion_witness:
  "guards (harts demo_smp 0) = [3] \<and> \<not> sie (harts demo_smp 0)"
  using spinlock_mutual_exclusion [OF demo_smp_reachable, THEN conjunct2, THEN conjunct1, THEN spec, of 0]
  by (simp add: demo_smp_guards)

end
