(* ===== verification/Sched.thy ===== *)
theory Sched
  imports Spinlock
begin

text \<open>
  Scheduling: the states of processes in \<open>kernel/src/proc.rs\<close>, \<open>find_runnable\<close> and \<open>wakeup\<close> of
  \<open>kernel/src/process.rs\<close>, the scheduler and \<open>sched\<close> of \<open>kernel/src/cpu.rs\<close>, and the sleep locks of
  \<open>kernel/src/sleeplock.rs\<close>.  Every critical section of a process's spin lock is one step.
\<close>

section \<open>Processes\<close>

datatype proc_state = Unused | Allocated | Runnable | Running | Sleeping | Zombie

record proc_inner =
  p_state :: proc_state
  p_chan :: usize
  p_pid :: usize
  p_killed :: bool
  p_exit_status :: u32

definition proc_inner_new :: proc_inner where
  "proc_inner_new = \<lparr>p_state = Unused, p_chan = 0, p_pid = 0, p_killed = False, p_exit_status = 0\<rparr>"

definition NPROC :: nat where
  "NPROC = 64"

definition set_state :: "nat \<Rightarrow> proc_state \<Rightarrow> proc_inner list \<Rightarrow> proc_inner list" where
  "set_state i st ps = ps[i := (ps ! i)\<lparr>p_state := st\<rparr>]"

definition find_runnable :: "proc_inner list \<Rightarrow> (nat \<times> proc_inner list) option" where
  "find_runnable ps = do {
     i \<leftarrow> find_index (\<lambda>p. p_state p = Runnable) ps;
     Some (i, set_state i Allocated ps) }"

text \<open>One iteration of \<open>scheduler\<close>, up to the switch to the process it picked.\<close>

definition scheduler_pick :: "proc_inner list \<Rightarrow> (nat \<times> proc_inner list) option" where
  "scheduler_pick ps = do {
     (i, ps) \<leftarrow> find_runnable ps;
     Some (i, set_state i Running ps) }"

definition yield_process :: "nat \<Rightarrow> proc_inner list \<Rightarrow> proc_inner list" where
  "yield_process i ps = (if p_state (ps ! i) = Running then set_state i Runnable ps else ps)"

text \<open>\<open>sleep\<close>, up to the switch to the scheduler, and what it does when the process runs again.\<close>

definition sleep_on :: "nat \<Rightarrow> usize \<Rightarrow> proc_inner list \<Rightarrow> proc_inner list" where
  "sleep_on i chan ps = ps[i := (ps ! i)\<lparr>p_chan := chan, p_state := Sleeping\<rparr>]"

definition sleep_tidy :: "nat \<Rightarrow> proc_inner list \<Rightarrow> proc_inner list" where
  "sleep_tidy i ps = ps[i := (ps ! i)\<lparr>p_chan := 0\<rparr>]"

text \<open>\<open>wakeup\<close>, called by process \<open>cur\<close> (\<open>None\<close> outside of any process).\<close>

definition wakeup :: "nat option \<Rightarrow> usize \<Rightarrow> proc_inner list \<Rightarrow> proc_inner list" where
  "wakeup cur chan ps =
     map (\<lambda>(i, p). if cur = Some i then p
                   else if p_state p = Sleeping \<and> p_chan p = chan then p\<lparr>p_state := Runnable\<rparr> else p)
       (enumerate 0 ps)"

text \<open>\<open>sched\<close>: the switch to the scheduler and back is \<open>swtch\<close>.\<close>

definition sched :: "('z cpu_scheme \<Rightarrow> 'z cpu_scheme) \<Rightarrow> proc_state \<Rightarrow> 'z cpu_scheme \<Rightarrow> 'z cpu_scheme option" where
  "sched swtch st c =
     (if noff c \<noteq> 1 then None
      else if st = Running then None
      else if sie c then None
      else let ie = intena c in Some ((swtch c)\<lparr>intena := ie\<rparr>))"

lemma length_sched_ops [simp]:
  "length (set_state i st ps) = length ps" "length (yield_process i ps) = length ps"
  "length (sleep_on i chan ps) = length ps" "length (sleep_tidy i ps) = length ps" "length (wakeup cur chan ps) = length ps"
  by (simp_all add: set_state_def yield_process_def sleep_on_def sleep_tidy_def wakeup_def)

lemma nth_set_state [simp]:
  "j < length ps \<Longrightarrow> set_state i st ps ! j = (if i = j then (ps ! j)\<lparr>p_state := st\<rparr> else ps ! j)"
  by (auto simp: set_state_def nth_list_update)

lemma nth_wakeup [simp]:
  "j < length ps \<Longrightarrow> wakeup cur chan ps ! j =
     (if cur \<noteq> Some j \<and> p_state (ps ! j) = Sleeping \<and> p_chan (ps ! j) = chan then (ps ! j)\<lparr>p_state := Runnable\<rparr> else ps ! j)"
  by (simp add: wakeup_def nth_enumerate_eq)

lemma scheduler_pick_Some:
  "scheduler_pick ps = Some (i, ps') \<longleftrightarrow>
     find_index (\<lambda>p. p_state p = Runnable) ps = Some i \<and> ps' = set_state i Running ps"
  by (auto simp: scheduler_pick_def find_runnable_def set_state_def list_update_overwrite
      simp del: find_index_None_iff dest: find_index_SomeD(1) split: Option.bind_splits)

section \<open>Fairness\<close>

text \<open>One hart running its processes until the timer takes the processor away.\<close>

fun time_slices :: "nat \<Rightarrow> proc_inner list \<Rightarrow> nat list" where
  "time_slices 0 ps = []"
| "time_slices (Suc n) ps =
     (case scheduler_pick ps of
        None \<Rightarrow> time_slices n ps
      | Some (i, ps) \<Rightarrow> i # time_slices n (yield_process i ps))"



section \<open>Sleep locks\<close>

text \<open>A sleep lock and the processes.  \<open>holder\<close> is the process that has the guard.\<close>

record sleeplock =
  lk_locked :: bool
  lk_procs :: "proc_inner list"
  lk_holder :: "nat option"

text \<open>\<open>lock\<close>, one evaluation of its loop condition: the process sleeps or gets the guard.  \<open>unlock\<close>
  runs when the guard is dropped.\<close>

definition sleeplock_lock :: "usize \<Rightarrow> nat \<Rightarrow> sleeplock \<Rightarrow> sleeplock" where
  "sleeplock_lock chan i s =
     (if lk_locked s then s\<lparr>lk_procs := sleep_on i chan (lk_procs s)\<rparr>
      else s\<lparr>lk_locked := True, lk_holder := Some i\<rparr>)"

definition sleeplock_unlock :: "usize \<Rightarrow> nat \<Rightarrow> sleeplock \<Rightarrow> sleeplock" where
  "sleeplock_unlock chan i s =
     s\<lparr>lk_locked := False, lk_holder := None, lk_procs := wakeup (Some i) chan (lk_procs s)\<rparr>"

text \<open>Processes running on any number of harts: a running process may try the lock unless it has it,
  drop the guard if it has it, sleep for something else, wake others up, or lose the processor.\<close>

inductive sleeplock_step :: "usize \<Rightarrow> sleeplock \<Rightarrow> sleeplock \<Rightarrow> bool" for chan where
  lock: "i < length (lk_procs s) \<Longrightarrow> p_state (lk_procs s ! i) = Running \<Longrightarrow> lk_holder s \<noteq> Some i \<Longrightarrow>
    sleeplock_step chan s (sleeplock_lock chan i s)"
| unlock: "lk_holder s = Some i \<Longrightarrow> p_state (lk_procs s ! i) = Running \<Longrightarrow>
    sleeplock_step chan s (sleeplock_unlock chan i s)"
| other: "i < length (lk_procs s) \<Longrightarrow> p_state (lk_procs s ! i) = Running \<Longrightarrow> c \<noteq> chan \<Longrightarrow>
    sleeplock_step chan s (s\<lparr>lk_procs := sleep_on i c (lk_procs s)\<rparr>)"
| wake: "sleeplock_step chan s (s\<lparr>lk_procs := wakeup cur c (lk_procs s)\<rparr>)"
| run: "scheduler_pick (lk_procs s) = Some (i, ps) \<Longrightarrow> sleeplock_step chan s (s\<lparr>lk_procs := sleep_tidy i ps\<rparr>)"
| yield: "sleeplock_step chan s (s\<lparr>lk_procs := yield_process i (lk_procs s)\<rparr>)"

definition sleeplock_inv :: "usize \<Rightarrow> sleeplock \<Rightarrow> bool" where
  "sleeplock_inv chan s \<longleftrightarrow> (lk_locked s \<longleftrightarrow> lk_holder s \<noteq> None) \<and>
     (\<forall>i. lk_holder s = Some i \<longrightarrow> i < length (lk_procs s) \<and>
        \<not> (p_state (lk_procs s ! i) = Sleeping \<and> p_chan (lk_procs s ! i) = chan)) \<and>
     (\<forall>i < length (lk_procs s). p_state (lk_procs s ! i) = Sleeping \<longrightarrow> p_chan (lk_procs s ! i) = chan \<longrightarrow> lk_locked s)"

lemma nth_sleep_on [simp]:
  "j < length ps \<Longrightarrow> sleep_on i c ps ! j = (if i = j then (ps ! j)\<lparr>p_chan := c, p_state := Sleeping\<rparr> else ps ! j)"
  by (auto simp: sleep_on_def nth_list_update)

lemma nth_sleep_tidy [simp]:
  "j < length ps \<Longrightarrow> sleep_tidy i ps ! j = (if i = j then (ps ! j)\<lparr>p_chan := 0\<rparr> else ps ! j)"
  by (auto simp: sleep_tidy_def nth_list_update)

lemma sleeplock_inv_step:
  assumes "sleeplock_step chan s s'" "sleeplock_inv chan s"
  shows "sleeplock_inv chan s'"
  using assms
proof (induction rule: sleeplock_step.induct)
  case (unlock s i)
  then have "i < length (lk_procs s)" by (auto simp: sleeplock_inv_def)
  with unlock show ?case
    by (auto simp: sleeplock_inv_def sleeplock_unlock_def)
next
  case (run s i ps)
  then show ?case
    by (auto simp: sleeplock_inv_def scheduler_pick_Some find_index_Some_iff split: if_splits)
qed (auto simp: sleeplock_inv_def sleeplock_lock_def yield_process_def split: if_splits)

text \<open>C26: whatever the scheduler does, a sleep lock is locked exactly when some process has its guard,
  and no wakeup is lost: a process sleeps on the lock only while another process holds it, and the
  release makes every one of them runnable.\<close>

theorem sleeplock_no_lost_wakeup:
  assumes "(sleeplock_step chan)\<^sup>*\<^sup>* s s'" "\<not> lk_locked s" "lk_holder s = None"
    and "\<forall>i < length (lk_procs s). p_state (lk_procs s ! i) \<noteq> Sleeping"
  shows "(lk_locked s' \<longleftrightarrow> lk_holder s' \<noteq> None) \<and>
    (\<forall>i < length (lk_procs s'). p_state (lk_procs s' ! i) = Sleeping \<and> p_chan (lk_procs s' ! i) = chan \<longrightarrow>
       (\<exists>j. lk_holder s' = Some j \<and> j \<noteq> i \<and> p_state (lk_procs (sleeplock_unlock chan j s') ! i) = Runnable))"
proof -
  have "sleeplock_inv chan s"
    using assms(2-4) by (simp add: sleeplock_inv_def)
  with assms(1) have "sleeplock_inv chan s'"
    by (induction rule: rtranclp_induct) (auto intro: sleeplock_inv_step)
  then show ?thesis
    by (auto simp: sleeplock_inv_def sleeplock_unlock_def)
qed

definition demo_sleepers :: sleeplock where
  "demo_sleepers = \<lparr>lk_locked = False, lk_procs = replicate 2 (proc_inner_new\<lparr>p_state := Running\<rparr>), lk_holder = None\<rparr>"

theorem sleeplock_no_lost_wakeup_witness:
  "let s = sleeplock_lock 8 1 (sleeplock_lock 8 0 demo_sleepers) in
     p_state (lk_procs s ! 1) = Sleeping \<and> (\<exists>j. lk_holder s = Some j \<and> p_state (lk_procs (sleeplock_unlock 8 j s) ! 1) = Runnable)"
proof -
  define t where "t = sleeplock_lock 8 0 demo_sleepers"
  define s where "s = sleeplock_lock 8 1 t"
  have t: "t = demo_sleepers\<lparr>lk_locked := True, lk_holder := Some 0\<rparr>"
    by (simp add: t_def sleeplock_lock_def demo_sleepers_def)
  have 1: "sleeplock_step 8 demo_sleepers t" "sleeplock_step 8 t s"
    unfolding s_def t_def
    by (rule sleeplock_step.lock; simp add: demo_sleepers_def sleeplock_lock_def eval_nat_numeral)+
  have s: "p_state (lk_procs s ! 1) = Sleeping" "p_chan (lk_procs s ! 1) = 8" "length (lk_procs s) = 2"
    by (simp_all add: s_def t sleeplock_lock_def demo_sleepers_def sleep_on_def)
  have "(sleeplock_step 8)\<^sup>*\<^sup>* demo_sleepers s" using 1 by (meson converse_rtranclp_into_rtranclp r_into_rtranclp)
  from sleeplock_no_lost_wakeup [OF this] s show ?thesis
    unfolding Let_def s_def [symmetric] t_def [symmetric] by (auto simp: demo_sleepers_def proc_inner_new_def)
qed

end
