(* ===== verification/Mbuf.thy ===== *)
theory Mbuf
  imports Xv6_Prelude
begin

text \<open>
  Packet buffers: \<open>kernel/src/mbuf.rs\<close>.  \<open>head\<close> is an address inside the array \<open>buf\<close>, which itself
  lies at \<open>mb_addr\<close>; \<open>len\<close> is signed.  The bytes from \<open>head\<close> on are the packet: \<open>prepend\<close> and \<open>pop\<close> move
  the head over a header, whose bytes their callers then write or read through the pointer they
  get, \<open>append\<close> and \<open>trim\<close> move the end.

  \<open>mb_data\<close> is the packet as a list of bytes; on well-formed buffers the operations are list
  operations on it.
\<close>

definition MBUF_SIZE :: nat where
  "MBUF_SIZE = 2048"

record mbuf =
  mb_addr :: usize
  mb_head :: usize
  mb_len :: usize
  mb_buf :: "u8 list"

text \<open>A buffer allocated at address \<open>a\<close>.\<close>

definition mbuf_alloc :: "usize \<Rightarrow> usize \<Rightarrow> mbuf option" where
  "mbuf_alloc a headroom =
     (if headroom > of_nat MBUF_SIZE then None
      else Some \<lparr>mb_addr = a, mb_head = a + headroom, mb_len = 0, mb_buf = replicate MBUF_SIZE 0\<rparr>)"

definition get_buf_head :: "mbuf \<Rightarrow> usize" where
  "get_buf_head m = mb_head m"

definition get_len :: "mbuf \<Rightarrow> usize" where
  "get_len m = mb_len m"

definition mbuf_append :: "usize \<Rightarrow> mbuf \<Rightarrow> (usize \<times> mbuf) option" where
  "mbuf_append len m =
     (let ret = mb_head m + mb_len m; m = m\<lparr>mb_len := mb_len m + len\<rparr> in
      if sint (mb_len m) > int MBUF_SIZE then None else Some (ret, m))"

definition mbuf_prepend :: "usize \<Rightarrow> mbuf \<Rightarrow> (usize \<times> mbuf) option" where
  "mbuf_prepend len m =
     (let m = m\<lparr>mb_head := mb_head m - len\<rparr> in
      if mb_head m < mb_addr m then None
      else Some (mb_head m, m\<lparr>mb_len := mb_len m + len\<rparr>))"

definition mbuf_pop :: "usize \<Rightarrow> mbuf \<Rightarrow> (usize \<times> mbuf) option" where
  "mbuf_pop len m =
     (let ret = mb_head m; m = m\<lparr>mb_len := mb_len m - len\<rparr> in
      if sint (mb_len m) < 0 then None
      else Some (ret, m\<lparr>mb_head := ret + len\<rparr>))"

definition mbuf_trim :: "usize \<Rightarrow> mbuf \<Rightarrow> (usize \<times> mbuf) option" where
  "mbuf_trim len m =
     (if len > mb_len m then None
      else let m = m\<lparr>mb_len := mb_len m - len\<rparr> in Some (mb_head m + mb_len m, m))"

text \<open>Access through a pointer into the buffer; outside of it nothing is defined (\<open>None\<close>).\<close>

definition in_buf :: "usize \<Rightarrow> nat \<Rightarrow> mbuf \<Rightarrow> bool" where
  "in_buf p n m \<longleftrightarrow> mb_addr m \<le> p \<and> unat (p - mb_addr m) + n \<le> MBUF_SIZE"

definition mbuf_read :: "usize \<Rightarrow> nat \<Rightarrow> mbuf \<Rightarrow> u8 list option" where
  "mbuf_read p n m = (if in_buf p n m then Some (take n (drop (unat (p - mb_addr m)) (mb_buf m))) else None)"

definition mbuf_write :: "usize \<Rightarrow> u8 list \<Rightarrow> mbuf \<Rightarrow> mbuf option" where
  "mbuf_write p bs m =
     (if in_buf p (length bs) m then
        let i = unat (p - mb_addr m) in
        Some (m\<lparr>mb_buf := take i (mb_buf m) @ bs @ drop (i + length bs) (mb_buf m)\<rparr>)
      else None)"

section \<open>Packets as byte lists\<close>

definition mb_off :: "mbuf \<Rightarrow> nat" where
  "mb_off m = unat (mb_head m - mb_addr m)"

definition mbuf_ok :: "mbuf \<Rightarrow> bool" where
  "mbuf_ok m \<longleftrightarrow> length (mb_buf m) = MBUF_SIZE \<and> mb_addr m \<le> mb_head m \<and> mb_off m + unat (mb_len m) \<le> MBUF_SIZE \<and>
     unat (mb_addr m) + MBUF_SIZE < 2 ^ 64"

definition mb_data :: "mbuf \<Rightarrow> u8 list" where
  "mb_data m = take (unat (mb_len m)) (drop (mb_off m) (mb_buf m))"

lemma length_mb_data: "mbuf_ok m \<Longrightarrow> length (mb_data m) = unat (mb_len m)"
  by (auto simp: mbuf_ok_def mb_data_def min_def)

lemma sint_small:
  fixes w :: usize
  assumes "unat w < 2 ^ 63"
  shows "sint w = int (unat w)"
proof -
  have "uint w = int (unat w)" by simp
  also have "\<dots> < int (2 ^ 63)" using assms by (simp only: of_nat_less_iff)
  finally have "uint w < 2 ^ 63" by simp
  moreover have "- (2 ^ 63) \<le> uint w" by (rule order_trans [of _ 0]) simp_all
  ultimately show ?thesis by (simp add: sint_uint signed_take_bit_int_eq_self)
qed

lemma unat_head: "mbuf_ok m \<Longrightarrow> unat (mb_head m) = unat (mb_addr m) + mb_off m"
  by (simp add: mbuf_ok_def mb_off_def unat_sub word_le_nat_alt)

lemma mbuf_alloc_ok:
  assumes "unat h \<le> MBUF_SIZE" "unat a + MBUF_SIZE < 2 ^ 64"
  obtains m where "mbuf_alloc a h = Some m" "mbuf_ok m" "mb_off m = unat h" "mb_len m = 0" "mb_addr m = a"
    "mb_data m = []" "mb_buf m = replicate MBUF_SIZE 0"
proof
  have le: "\<not> h > of_nat MBUF_SIZE" using assms(1) by (simp add: word_less_nat_alt MBUF_SIZE_def)
  let ?m = "\<lparr>mb_addr = a, mb_head = a + h, mb_len = 0, mb_buf = replicate MBUF_SIZE 0\<rparr>"
  show "mbuf_alloc a h = Some ?m" using le by (simp add: mbuf_alloc_def)
  have "unat (a + h) = unat a + unat h"
    using assms by (intro unat_plus_no_overflow) simp
  then show "mbuf_ok ?m" "mb_off ?m = unat h" "mb_len ?m = 0" "mb_addr ?m = a" "mb_data ?m = []" "mb_buf ?m = replicate MBUF_SIZE 0"
    using assms by (simp_all add: mbuf_ok_def mb_off_def mb_data_def word_le_nat_alt)
qed

lemma mbuf_append_ok:
  assumes "mbuf_ok m" "mb_off m + unat (mb_len m) + unat n \<le> MBUF_SIZE"
  obtains p m' where "mbuf_append n m = Some (p, m')" "mbuf_ok m'" "mb_off m' = mb_off m" "mb_addr m' = mb_addr m"
    "mb_data m' = mb_data m @ take (unat n) (drop (mb_off m + unat (mb_len m)) (mb_buf m))" "mb_buf m' = mb_buf m"
    "mb_head m' = mb_head m" "unat (mb_len m') = unat (mb_len m) + unat n"
    "p = mb_head m + mb_len m"
proof
  have len: "unat (mb_len m + n) = unat (mb_len m) + unat n"
    using assms(2) by (intro unat_plus_no_overflow) (simp add: MBUF_SIZE_def)
  let ?m = "m\<lparr>mb_len := mb_len m + n\<rparr>"
  have "sint (mb_len m + n) = int (unat (mb_len m) + unat n)"
    using sint_small [of "mb_len m + n"] assms(2) unfolding len by (simp add: MBUF_SIZE_def)
  moreover have "int (unat (mb_len m) + unat n) \<le> int MBUF_SIZE"
    unfolding of_nat_le_iff using assms(2) by simp
  ultimately show "mbuf_append n m = Some (mb_head m + mb_len m, ?m)"
    by (simp add: mbuf_append_def Let_def)
  show "mb_off ?m = mb_off m" "mb_addr ?m = mb_addr m" "mb_buf ?m = mb_buf m" "mb_head ?m = mb_head m"
    "unat (mb_len ?m) = unat (mb_len m) + unat n"
    using len by (simp_all add: mb_off_def)
  then show "mbuf_ok ?m" using assms len by (simp add: mbuf_ok_def)
  show "mb_data ?m = mb_data m @ take (unat n) (drop (mb_off m + unat (mb_len m)) (mb_buf m))"
    using len by (simp add: mb_data_def mb_off_def take_add) (simp add: add.commute)
qed (rule refl)

lemma mbuf_prepend_ok:
  assumes "mbuf_ok m" "unat n \<le> mb_off m"
  obtains m' where "mbuf_prepend n m = Some (mb_head m', m')" "mbuf_ok m'" "mb_off m' = mb_off m - unat n"
    "mb_addr m' = mb_addr m" "mb_buf m' = mb_buf m" "unat (mb_len m') = unat (mb_len m) + unat n"
    "mb_data m' = take (unat n) (drop (mb_off m - unat n) (mb_buf m)) @ mb_data m"
proof
  have off: "mb_off m \<le> MBUF_SIZE" using assms(1) by (simp add: mbuf_ok_def)
  have len: "unat (mb_len m + n) = unat (mb_len m) + unat n"
    using assms by (intro unat_plus_no_overflow) (simp add: mbuf_ok_def MBUF_SIZE_def)
  have hd: "unat (mb_head m - n) = unat (mb_addr m) + (mb_off m - unat n)"
    using assms(2) unat_head [OF assms(1)] by (subst unat_minus_no_underflow) simp_all
  let ?m = "m\<lparr>mb_head := mb_head m - n, mb_len := mb_len m + n\<rparr>"
  have ge: "\<not> mb_head m - n < mb_addr m" using hd by (simp add: word_less_nat_alt)
  then show "mbuf_prepend n m = Some (mb_head ?m, ?m)" by (simp add: mbuf_prepend_def Let_def)
  show o: "mb_off ?m = mb_off m - unat n"
    using hd ge by (simp add: mb_off_def unat_sub)
  show "mb_addr ?m = mb_addr m" "mb_buf ?m = mb_buf m" "unat (mb_len ?m) = unat (mb_len m) + unat n"
    using len by simp_all
  show "mbuf_ok ?m" using assms o len ge by (simp add: mbuf_ok_def)
  have "drop (mb_off m) (mb_buf m) = drop (unat n) (drop (mb_off m - unat n) (mb_buf m))"
    using assms(2) by simp
  then show "mb_data ?m = take (unat n) (drop (mb_off m - unat n) (mb_buf m)) @ mb_data m"
    using len o by (simp add: mb_data_def take_add add.commute)
qed

lemma mbuf_pop_ok:
  assumes "mbuf_ok m" "unat n \<le> unat (mb_len m)"
  obtains m' where "mbuf_pop n m = Some (mb_head m, m')" "mbuf_ok m'" "mb_off m' = mb_off m + unat n"
    "mb_addr m' = mb_addr m" "mb_buf m' = mb_buf m" "mb_data m' = drop (unat n) (mb_data m)"
    "unat (mb_len m') = unat (mb_len m) - unat n" "mbuf_read (mb_head m) (unat n) m' = Some (take (unat n) (mb_data m))"
proof
  have sz: "mb_off m + unat (mb_len m) \<le> MBUF_SIZE" using assms(1) by (simp add: mbuf_ok_def)
  have len: "unat (mb_len m - n) = unat (mb_len m) - unat n"
    using assms(2) by (rule unat_minus_no_underflow)
  have hd: "unat (mb_head m + n) = unat (mb_addr m) + mb_off m + unat n"
    using assms sz unat_head [OF assms(1)] by (subst unat_plus_no_overflow) (simp_all add: mbuf_ok_def)
  let ?m = "m\<lparr>mb_head := mb_head m + n, mb_len := mb_len m - n\<rparr>"
  have "sint (mb_len m - n) = int (unat (mb_len m) - unat n)"
    using sint_small [of "mb_len m - n"] sz len by (simp add: MBUF_SIZE_def)
  then show "mbuf_pop n m = Some (mb_head m, ?m)" by (simp add: mbuf_pop_def Let_def)
  have ge: "mb_addr m \<le> mb_head m + n" using hd by (simp add: word_le_nat_alt)
  then show o: "mb_off ?m = mb_off m + unat n" using hd by (simp add: mb_off_def unat_sub)
  show "mb_addr ?m = mb_addr m" "mb_buf ?m = mb_buf m" "unat (mb_len ?m) = unat (mb_len m) - unat n"
    using len by simp_all
  show "mbuf_ok ?m" using assms o len ge sz by (simp add: mbuf_ok_def)
  show "mb_data ?m = drop (unat n) (mb_data m)"
    using o len assms(2) by (simp add: mb_data_def drop_take add.commute)
  show "mbuf_read (mb_head m) (unat n) ?m = Some (take (unat n) (mb_data m))"
    using assms sz by (simp add: mbuf_read_def in_buf_def mbuf_ok_def mb_off_def mb_data_def min_def)
qed

lemma mbuf_trim_ok:
  assumes "mbuf_ok m" "unat n \<le> unat (mb_len m)"
  obtains p m' where "mbuf_trim n m = Some (p, m')" "mbuf_ok m'" "mb_data m' = take (unat (mb_len m) - unat n) (mb_data m)"
    "mb_off m' = mb_off m" "mb_addr m' = mb_addr m" "mb_buf m' = mb_buf m" "mb_head m' = mb_head m"
    "unat (mb_len m') = unat (mb_len m) - unat n"
proof
  have len: "unat (mb_len m - n) = unat (mb_len m) - unat n"
    using assms(2) by (rule unat_minus_no_underflow)
  let ?m = "m\<lparr>mb_len := mb_len m - n\<rparr>"
  have "\<not> n > mb_len m" using assms(2) by (simp add: word_less_nat_alt)
  then show "mbuf_trim n m = Some (mb_head m + (mb_len m - n), ?m)" by (simp add: mbuf_trim_def Let_def)
  show "mb_off ?m = mb_off m" "mb_addr ?m = mb_addr m" "mb_buf ?m = mb_buf m" "mb_head ?m = mb_head m"
    "unat (mb_len ?m) = unat (mb_len m) - unat n"
    using len by (simp_all add: mb_off_def)
  then show "mbuf_ok ?m" using assms by (auto simp: mbuf_ok_def)
  show "mb_data ?m = take (unat (mb_len m) - unat n) (mb_data m)"
    using len by (simp add: mb_data_def mb_off_def)
qed

text \<open>Writing bytes at the head of the packet, \<open>k\<close> bytes into it.\<close>

lemma mbuf_write_ok:
  assumes "mbuf_ok m" "k + length bs \<le> unat (mb_len m)" "p = mb_head m + of_nat k"
  obtains m' where "mbuf_write p bs m = Some m'" "mbuf_ok m'" "mb_off m' = mb_off m" "mb_addr m' = mb_addr m"
    "mb_head m' = mb_head m" "mb_len m' = mb_len m"
    "mb_data m' = take k (mb_data m) @ bs @ drop (k + length bs) (mb_data m)"
proof
  have sz: "mb_off m + unat (mb_len m) \<le> MBUF_SIZE" using assms(1) by (simp add: mbuf_ok_def)
  have k: "unat (of_nat k :: usize) = k" using assms(2) sz by (simp add: unat_of_nat MBUF_SIZE_def)
  have p: "unat p = unat (mb_addr m) + (mb_off m + k)"
    unfolding assms(3) using unat_head [OF assms(1)] k assms(1,2) sz
    by (subst unat_plus_no_overflow) (simp_all add: mbuf_ok_def)
  have ge: "mb_addr m \<le> p" using p by (simp add: word_le_nat_alt)
  have i: "unat (p - mb_addr m) = mb_off m + k" using p ge by (simp add: unat_sub)
  let ?m = "m\<lparr>mb_buf := take (mb_off m + k) (mb_buf m) @ bs @ drop (mb_off m + k + length bs) (mb_buf m)\<rparr>"
  show "mbuf_write p bs m = Some ?m"
    using ge i assms(2) sz by (simp add: mbuf_write_def in_buf_def Let_def)
  show "mb_off ?m = mb_off m" "mb_addr ?m = mb_addr m" "mb_head ?m = mb_head m" "mb_len ?m = mb_len m"
    by (simp_all add: mb_off_def)
  then show "mbuf_ok ?m" using assms(1,2) sz by (auto simp: mbuf_ok_def)
  have len: "length (mb_buf m) = MBUF_SIZE" using assms(1) by (simp add: mbuf_ok_def)
  define X where "X = drop (mb_off m) (mb_buf m)"
  have "length X \<ge> unat (mb_len m)" using sz len by (simp add: X_def)
  have "drop (mb_off m) (take (mb_off m + k) (mb_buf m) @ bs @ drop (mb_off m + k + length bs) (mb_buf m)) =
      take k X @ bs @ drop (k + length bs) X"
    using assms(2) sz len by (simp add: X_def drop_take add.commute add.left_commute)
  moreover have "take (unat (mb_len m)) (take k X @ bs @ drop (k + length bs) X) =
      take k X @ bs @ take (unat (mb_len m) - (k + length bs)) (drop (k + length bs) X)"
    using assms(2) \<open>length X \<ge> unat (mb_len m)\<close> by simp
  ultimately show "mb_data ?m = take k (mb_data m) @ bs @ drop (k + length bs) (mb_data m)"
    using assms(2) by (simp add: mb_data_def mb_off_def X_def drop_take min_def)
qed

end
