(* ===== verification/E1000.thy ===== *)
theory E1000
  imports Mbuf
begin

text \<open>
  The network card: \<open>kernel/src/e1000.rs\<close>.  The two descriptor rings and the buffers behind them are
  shared with the device, which sets the \<open>DD\<close> bit of a descriptor when it is done with it; the two
  tail registers are part of the state, all other registers are only written.  Where the heap puts
  the \<open>n\<close>-th packet buffer is the parameter \<open>buf_addr\<close>.
\<close>

record tx_desc =
  td_addr :: u64
  td_length :: u16
  td_cso :: u8
  td_cmd :: u8
  td_status :: u8
  td_css :: u8
  td_special :: u16

definition tx_desc_new :: tx_desc where
  "tx_desc_new = \<lparr>td_addr = 0, td_length = 0, td_cso = 0, td_cmd = 0, td_status = 0, td_css = 0, td_special = 0\<rparr>"

record rx_desc =
  rd_addr :: u64
  rd_length :: u16
  rd_csum :: u16
  rd_status :: u8
  rd_errors :: u8
  rd_special :: u16

definition rx_desc_new :: rx_desc where
  "rx_desc_new = \<lparr>rd_addr = 0, rd_length = 0, rd_csum = 0, rd_status = 0, rd_errors = 0, rd_special = 0\<rparr>"

definition TX_RING_SIZE :: nat where
  "TX_RING_SIZE = 16"

definition RX_RING_SIZE :: nat where
  "RX_RING_SIZE = 16"

definition E1000_IMS :: u32 where
  "E1000_IMS = 0xd0"

definition E1000_TCTL :: u32 where
  "E1000_TCTL = 0x400"

definition E1000_RCTL :: u32 where
  "E1000_RCTL = 0x100"

definition E1000_TIPG :: u32 where
  "E1000_TIPG = 0x410"

definition E1000_RDBAL :: u32 where
  "E1000_RDBAL = 0x2800"

definition E1000_RDTR :: u32 where
  "E1000_RDTR = 0x2820"

definition E1000_RADV :: u32 where
  "E1000_RADV = 0x282C"

definition E1000_RDH :: u32 where
  "E1000_RDH = 0x2810"

definition E1000_RDLEN :: u32 where
  "E1000_RDLEN = 0x2808"

definition E1000_TDBAL :: u32 where
  "E1000_TDBAL = 0x3800"

definition E1000_TDLEN :: u32 where
  "E1000_TDLEN = 0x3808"

definition E1000_TDH :: u32 where
  "E1000_TDH = 0x3810"

definition E1000_RA :: u32 where
  "E1000_RA = 0x5400"

definition E1000_STAT_DD :: u8 where
  "E1000_STAT_DD = 0x01"

definition E1000_TXD_CMD_EOP :: u8 where
  "E1000_TXD_CMD_EOP = 0x01"

definition E1000_TXD_CMD_RS :: u8 where
  "E1000_TXD_CMD_RS = 0x08"

record nic =
  tx_ring :: "tx_desc list"
  tx_mbufs :: "mbuf option list"
  rx_ring :: "rx_desc list"
  rx_mbufs :: "mbuf option list"
  reg_tdt :: u32
  reg_rdt :: u32
  reg_writes :: "(u32 \<times> u32) list"
  buf_addr :: "nat \<Rightarrow> usize"
  buf_allocs :: nat

definition write_reg :: "u32 \<Rightarrow> u32 \<Rightarrow> 'z nic_scheme \<Rightarrow> 'z nic_scheme" where
  "write_reg i v n = n\<lparr>reg_writes := reg_writes n @ [(i, v)]\<rparr>"

text \<open>\<open>MBuf::alloc\<close>, at the address the heap gives.\<close>

definition new_mbuf :: "usize \<Rightarrow> 'z nic_scheme \<Rightarrow> (mbuf \<times> 'z nic_scheme) option" where
  "new_mbuf headroom n = do {
     m \<leftarrow> mbuf_alloc (buf_addr n (buf_allocs n)) headroom;
     Some (m, n\<lparr>buf_allocs := Suc (buf_allocs n)\<rparr>) }"

text \<open>Initialization; \<open>ta\<close> and \<open>ra\<close> are the addresses of the two rings.\<close>

definition tx_init :: "u32 \<Rightarrow> 'z nic_scheme \<Rightarrow> 'z nic_scheme" where
  "tx_init ta n =
     (let n = n\<lparr>tx_ring := map (\<lambda>d. d\<lparr>td_status := E1000_STAT_DD\<rparr>) (tx_ring n)\<rparr>;
          n = write_reg E1000_TDBAL ta n;
          n = write_reg E1000_TDLEN (of_nat (16 * TX_RING_SIZE)) n;
          n = n\<lparr>reg_tdt := 0\<rparr>;
          n = write_reg E1000_TDH 0 n;
          n = write_reg E1000_TCTL (push_bit 12 0x40 OR push_bit 4 0xf OR push_bit 3 1 OR push_bit 1 1) n
      in n\<lparr>tx_ring := map (\<lambda>d. d\<lparr>td_cmd := 0b1001\<rparr>) (tx_ring n)\<rparr>)"

definition rx_init :: "u32 \<Rightarrow> 'z nic_scheme \<Rightarrow> 'z nic_scheme option" where
  "rx_init ra n = do {
     let n = n\<lparr>reg_rdt := of_nat RX_RING_SIZE\<rparr>;
     n \<leftarrow> for_each [0..<RX_RING_SIZE] (\<lambda>i n. do {
            (m, n) \<leftarrow> new_mbuf 0 n;
            Some (n\<lparr>rx_ring := (rx_ring n)[i := (rx_ring n ! i)\<lparr>rd_addr := get_buf_head m\<rparr>],
                    rx_mbufs := (rx_mbufs n)[i := Some m]\<rparr>) }) n;
     let n = write_reg E1000_RDBAL ra n;
     let n = write_reg E1000_RDLEN (of_nat (16 * RX_RING_SIZE)) n;
     let n = n\<lparr>reg_rdt := of_nat RX_RING_SIZE - 1\<rparr>;
     Some (write_reg E1000_RDH 0 n) }"

definition e1000_init :: "u32 \<Rightarrow> u32 \<Rightarrow> 'z nic_scheme \<Rightarrow> 'z nic_scheme option" where
  "e1000_init ta ra n = do {
     let n = write_reg E1000_IMS 0 n;
     let n = tx_init ta n;
     n \<leftarrow> rx_init ra n;
     let n = write_reg E1000_RA 0x12005452 n;
     let n = write_reg (E1000_RA + 8) 0x10005634 n;
     let n = write_reg E1000_TCTL (push_bit 12 0x40 OR push_bit 4 0x10 OR push_bit 3 1 OR push_bit 1 1) n;
     let n = write_reg E1000_TIPG (10 OR push_bit 10 8 OR push_bit 20 6) n;
     let n = write_reg E1000_RCTL (push_bit 24 0x4 OR push_bit 12 0x8 OR push_bit 1 1) n;
     let n = write_reg E1000_RDTR 0 n;
     let n = write_reg E1000_RADV 0 n;
     Some (write_reg E1000_IMS (push_bit 7 1) n) }"

text \<open>Handing a packet to the device; a tail register out of range panics.\<close>

definition e1000_send :: "mbuf \<Rightarrow> 'z nic_scheme \<Rightarrow> (unit result \<times> 'z nic_scheme) option" where
  "e1000_send m n =
     (let pos = unat (reg_tdt n) in
      if pos \<ge> TX_RING_SIZE then None
      else if td_status (tx_ring n ! pos) AND E1000_STAT_DD = 0
      then Some (Err ''a previous transmittion is still in flight'', n)
      else let d = (tx_ring n ! pos)\<lparr>td_status := 0, td_addr := get_buf_head m, td_length := ucast (get_len m),
                     td_cmd := E1000_TXD_CMD_EOP OR E1000_TXD_CMD_RS\<rparr> in
        Some (Ok (), n\<lparr>tx_ring := (tx_ring n)[pos := d], tx_mbufs := (tx_mbufs n)[pos := Some m],
                       reg_tdt := of_nat ((pos + 1) mod TX_RING_SIZE)\<rparr>))"

text \<open>The receive ring as \<open>recv\<close> sees it: the packet at the next position, if the device has put one
  there.  Its buffer is replaced by a new one and the descriptor goes back to the device.\<close>

definition e1000_rx_pos :: "'z nic_scheme \<Rightarrow> nat" where
  "e1000_rx_pos n = unat (reg_rdt n + 1) mod RX_RING_SIZE"

definition e1000_take :: "'z nic_scheme \<Rightarrow> (mbuf option \<times> 'z nic_scheme) option" where
  "e1000_take n =
     (let pos = e1000_rx_pos n in
      if rd_status (rx_ring n ! pos) AND E1000_STAT_DD = 0 then Some (None, n)
      else do {
        (new_m, n) \<leftarrow> new_mbuf 0 n;
        m \<leftarrow> rx_mbufs n ! pos;
        let n = n\<lparr>rx_mbufs := (rx_mbufs n)[pos := Some new_m]\<rparr>;
        (_, m) \<leftarrow> mbuf_append (ucast (rd_length (rx_ring n ! pos))) m;
        let d = (rx_ring n ! pos)\<lparr>rd_addr := get_buf_head new_m, rd_status := 0\<rparr>;
        Some (Some m, n\<lparr>rx_ring := (rx_ring n)[pos := d], reg_rdt := of_nat pos\<rparr>) })"

end
