(* ===== verification/Net.thy ===== *)
theory Net
  imports E1000
begin

text \<open>
  The network stack: \<open>kernel/src/net/mod.rs\<close>, \<open>ethernet.rs\<close>, \<open>arp.rs\<close>, \<open>ip.rs\<close> and \<open>udp.rs\<close>, on top of
  the packet buffers and the card.  Headers are \<open>repr(C, packed)\<close> structures overlaid on the buffer;
  a header is written field by field at its offset, as the code does, and read as the list of its
  bytes.  User memory is a parameter of reading and writing a socket.
\<close>

section \<open>Byte order and addresses\<close>

definition toggle_endian16 :: "u16 \<Rightarrow> u16" where
  "toggle_endian16 v = push_bit 8 (0xff AND v) OR drop_bit 8 (0xff00 AND v)"

definition toggle_endian32 :: "u32 \<Rightarrow> u32" where
  "toggle_endian32 v = push_bit 24 (v AND 0xff) OR push_bit 8 (v AND 0xff00) OR
     drop_bit 8 (v AND 0xff0000) OR drop_bit 24 (v AND 0xff000000)"

definition build_ip_addr :: "u32 \<Rightarrow> u32 \<Rightarrow> u32 \<Rightarrow> u32 \<Rightarrow> u32" where
  "build_ip_addr v1 v2 v3 v4 = push_bit 24 v1 OR push_bit 16 v2 OR push_bit 8 v3 OR push_bit 0 v4"

definition USABLE_PORT_MIN :: nat where
  "USABLE_PORT_MIN = 49152"

definition USABLE_PORT_MAX :: nat where
  "USABLE_PORT_MAX = 65535"

definition LOCAL_IP_ADDR :: u32 where
  "LOCAL_IP_ADDR = build_ip_addr 10 0 2 15"

definition LOCAL_MAC_ADDR :: "u8 list" where
  "LOCAL_MAC_ADDR = [0x52, 0x54, 0x0, 0x12, 0x34, 0x56]"

definition GATEWAY_IP_ADDR :: u32 where
  "GATEWAY_IP_ADDR = build_ip_addr 10 0 2 2"

definition GATEWAY_MAC_ADDR :: "u8 list" where
  "GATEWAY_MAC_ADDR = [0x52, 0x55, 0xa, 0x0, 0x2, 0x2]"

definition ETHERNET_MAC_ADDR_ANY :: "u8 list" where
  "ETHERNET_MAC_ADDR_ANY = [0, 0, 0, 0, 0, 0]"

definition ETHERNET_MAC_ADDR_BROADCAST :: "u8 list" where
  "ETHERNET_MAC_ADDR_BROADCAST = [0xff, 0xff, 0xff, 0xff, 0xff, 0xff]"

datatype sa_family = UNSPEC | LOCAL | INET

record sock_addr =
  sa_family :: sa_family
  sa_port :: u16
  sa_addr :: u32

definition sock_addr_uninit :: sock_addr where
  "sock_addr_uninit = \<lparr>sa_family = UNSPEC, sa_port = 0, sa_addr = 0\<rparr>"

section \<open>Tables\<close>

record arp_entry =
  ae_used :: bool
  ae_ip :: u32
  ae_mac :: "u8 list"

definition arp_entry_new :: arp_entry where
  "arp_entry_new = \<lparr>ae_used = False, ae_ip = 0, ae_mac = [0, 0, 0, 0, 0, 0]\<rparr>"

definition ARP_TABLE_SIZE :: nat where
  "ARP_TABLE_SIZE = 2048"

record udp_cb =
  cb_used :: bool
  cb_port :: u16
  cb_peer_addr :: u32
  cb_peer_port :: u16
  cb_queue :: "mbuf list"

definition udp_cb_new :: udp_cb where
  "udp_cb_new = \<lparr>cb_used = False, cb_port = 0, cb_peer_addr = 0, cb_peer_port = 0, cb_queue = []\<rparr>"

definition CB_TABLE_SIZE :: nat where
  "CB_TABLE_SIZE = 16"

record net = nic +
  arp_table :: "arp_entry list"
  udp_table :: "udp_cb list"
  udp_wakeups :: "nat list"

section \<open>Ethernet, transmit\<close>

datatype eth_type = Eth_IPv4 | Eth_ARP

definition eth_type_code :: "eth_type \<Rightarrow> u16" where
  "eth_type_code t = (case t of Eth_IPv4 \<Rightarrow> 0x800 | Eth_ARP \<Rightarrow> 0x806)"

definition eth_type_of :: "u16 \<Rightarrow> eth_type option" where
  "eth_type_of v = (if v = 0x800 then Some Eth_IPv4 else if v = 0x806 then Some Eth_ARP else None)"

definition ETH_HEADER_SIZE :: usize where
  "ETH_HEADER_SIZE = 14"

text \<open>Writing the fields of a header at \<open>p\<close>.\<close>

fun put_fields :: "usize \<Rightarrow> (nat \<times> u8 list) list \<Rightarrow> mbuf \<Rightarrow> mbuf option" where
  "put_fields p [] m = Some m"
| "put_fields p ((off, bs) # fs) m = mbuf_write (p + of_nat off) bs m \<bind> put_fields p fs"

definition eth_tx :: "mbuf \<Rightarrow> eth_type \<Rightarrow> u8 list \<Rightarrow> 'z nic_scheme \<Rightarrow> 'z nic_scheme option" where
  "eth_tx m typ dst_mac n = do {
     (p, m) \<leftarrow> mbuf_prepend ETH_HEADER_SIZE m;
     m \<leftarrow> put_fields p [(0, dst_mac), (6, LOCAL_MAC_ADDR), (12, u16_bytes (toggle_endian16 (eth_type_code typ)))] m;
     (_, n) \<leftarrow> e1000_send m n;
     Some n }"

section \<open>ARP\<close>

datatype arp_op = Arp_Request | Arp_Reply

definition arp_op_code :: "arp_op \<Rightarrow> u16" where
  "arp_op_code t = (case t of Arp_Request \<Rightarrow> 1 | Arp_Reply \<Rightarrow> 2)"

definition arp_op_of :: "u16 \<Rightarrow> arp_op option" where
  "arp_op_of v = (if v = 1 then Some Arp_Request else if v = 2 then Some Arp_Reply else None)"

definition ARP_HEADER_SIZE :: usize where
  "ARP_HEADER_SIZE = 28"

definition arp_select :: "u32 \<Rightarrow> arp_entry list \<Rightarrow> nat option" where
  "arp_select ip t = find_index (\<lambda>e. ae_used e \<and> ae_ip e = ip) t"

definition arp_get_unused :: "arp_entry list \<Rightarrow> nat option" where
  "arp_get_unused t = find_index (\<lambda>e. \<not> ae_used e) t"

definition arp_tx :: "arp_op \<Rightarrow> u8 list \<Rightarrow> u8 list \<Rightarrow> u32 \<Rightarrow> 'z nic_scheme \<Rightarrow> 'z nic_scheme option" where
  "arp_tx op hw_addr dst_mac dst_ip n = do {
     (m, n) \<leftarrow> new_mbuf 128 n;
     (p, m) \<leftarrow> mbuf_append ARP_HEADER_SIZE m;
     m \<leftarrow> put_fields p
       [(0, u16_bytes (toggle_endian16 1)), (2, u16_bytes (toggle_endian16 0x800)), (4, [6]), (5, [4]),
        (6, u16_bytes (toggle_endian16 (arp_op_code op))), (8, LOCAL_MAC_ADDR),
        (14, u32_bytes (toggle_endian32 LOCAL_IP_ADDR)), (18, hw_addr), (24, u32_bytes (toggle_endian32 dst_ip))] m;
     eth_tx m Eth_ARP dst_mac n }"

definition arp_rx :: "mbuf \<Rightarrow> 'z net_scheme \<Rightarrow> 'z net_scheme option" where
  "arp_rx m n = do {
     (p, m) \<leftarrow> mbuf_pop ARP_HEADER_SIZE m;
     hdr \<leftarrow> mbuf_read p (unat ARP_HEADER_SIZE) m;
     let sha = take 6 (drop 8 hdr);
     let spa = toggle_endian32 (le_u32 (\<lambda>i. hdr ! i) 14);
     op \<leftarrow> arp_op_of (toggle_endian16 (le_u16 (\<lambda>i. hdr ! i) 6));
     case op of
       Arp_Request \<Rightarrow> arp_tx Arp_Reply sha sha spa n
     | Arp_Reply \<Rightarrow> do {
         i \<leftarrow> arp_get_unused (arp_table n);
         Some (n\<lparr>arp_table := (arp_table n)[i := \<lparr>ae_used = True, ae_ip = spa, ae_mac = sha\<rparr>]\<rparr>) } }"

definition arp_resolve :: "u32 \<Rightarrow> 'z net_scheme \<Rightarrow> (u8 list result \<times> 'z net_scheme) option" where
  "arp_resolve ip n =
     (case arp_select ip (arp_table n) of
        Some i \<Rightarrow>
          let mac = ae_mac (arp_table n ! i) in
          if mac = ETHERNET_MAC_ADDR_ANY then do {
            n \<leftarrow> arp_tx Arp_Request ETHERNET_MAC_ADDR_ANY ETHERNET_MAC_ADDR_BROADCAST ip n;
            Some (Err ''same'', n) }
          else Some (Ok mac, n)
      | None \<Rightarrow>
          (case arp_get_unused (arp_table n) of
             Some _ \<Rightarrow> do {
               n \<leftarrow> arp_tx Arp_Request GATEWAY_MAC_ADDR ETHERNET_MAC_ADDR_BROADCAST ip n;
               Some (Err ''cannot resolved'', n) }
           | None \<Rightarrow> Some (Err ''full arp table'', n)))"

section \<open>IP, transmit\<close>

datatype ip_protocol = Prot_TCP | Prot_UDP

definition ip_protocol_code :: "ip_protocol \<Rightarrow> u8" where
  "ip_protocol_code t = (case t of Prot_TCP \<Rightarrow> 6 | Prot_UDP \<Rightarrow> 17)"

text \<open>A byte that no protocol has is not a value of the enum that the header declares.\<close>

definition ip_protocol_of :: "u8 \<Rightarrow> ip_protocol option" where
  "ip_protocol_of v = (if v = 6 then Some Prot_TCP else if v = 17 then Some Prot_UDP else None)"

definition IP_HEADER_SIZE :: usize where
  "IP_HEADER_SIZE = 20"

text \<open>The checksum of the header at address \<open>p\<close>.\<close>

fun checksum_sum :: "nat \<Rightarrow> u16 \<Rightarrow> u32 \<Rightarrow> u16 \<times> nat \<times> u32" where
  "checksum_sum nleft w acc =
     (if nleft > 1 then let w = w + 1 in checksum_sum (nleft - 2) w (acc + ucast w) else (w, nleft, acc))"

function checksum_fold :: "u32 \<Rightarrow> u32" where
  "checksum_fold acc = (if drop_bit 16 acc \<noteq> 0 then checksum_fold (drop_bit 16 acc + (acc AND 0xffff)) else acc)"
  by auto
termination
proof (relation "measure unat")
  fix acc :: u32
  assume ne: "drop_bit 16 acc \<noteq> 0"
  have d: "unat (drop_bit 16 acc) = unat acc div 65536"
    by (simp add: drop_bit_eq_div unat_div_distrib)
  have "acc AND 0xffff = take_bit 16 acc"
    by (simp add: take_bit_eq_mask mask_eq_decr_exp)
  moreover have "unat (take_bit 16 acc) = unat acc mod 65536"
    by (simp only: unsigned_take_bit_eq) (simp add: take_bit_eq_mod)
  ultimately have m: "unat (acc AND 0xffff) = unat acc mod 65536" by simp
  have "unat acc div 65536 \<noteq> 0" using ne d by (metis unat_eq_0)
  moreover have "unat acc = unat acc div 65536 * 65536 + unat acc mod 65536" by simp
  moreover have "q + r < q * 65536 + r" if "q \<noteq> 0" for q r :: nat using that by simp
  ultimately have lt: "unat acc div 65536 + unat acc mod 65536 < unat acc" by metis
  have "unat (drop_bit 16 acc + (acc AND 0xffff)) \<le> unat (drop_bit 16 acc) + unat (acc AND 0xffff)"
    unfolding unat_word_ariths(1) by (rule mod_less_eq_dividend)
  with lt show "(drop_bit 16 acc + (acc AND 0xffff), acc) \<in> measure unat"
    by (simp add: d m)
qed simp

declare checksum_sum.simps [simp del] checksum_fold.simps [simp del]

definition ip_checksum :: "u32 \<Rightarrow> usize \<Rightarrow> u16" where
  "ip_checksum init p =
     (let (w, nleft, acc) = checksum_sum (unat IP_HEADER_SIZE) (ucast p) init;
          acc = (if nleft \<noteq> 0 then acc + (ucast w AND 0xff) else acc)
      in ucast (checksum_fold acc XOR 0xffff))"

definition ip_tx :: "mbuf \<Rightarrow> u32 \<Rightarrow> ip_protocol \<Rightarrow> 'z net_scheme \<Rightarrow> 'z net_scheme option" where
  "ip_tx m dst_ip proto n = do {
     (p, m) \<leftarrow> mbuf_prepend IP_HEADER_SIZE m;
     m \<leftarrow> put_fields p
       [(0, [push_bit 4 4 OR 5]), (1, [0]), (2, u16_bytes (toggle_endian16 (ucast (get_len m)))), (8, [100]),
        (9, [ip_protocol_code proto]), (12, u32_bytes (toggle_endian32 LOCAL_IP_ADDR)),
        (16, u32_bytes (toggle_endian32 dst_ip)), (10, u16_bytes (ip_checksum 0 p))] m;
     if dst_ip = 0 then eth_tx m Eth_IPv4 ETHERNET_MAC_ADDR_BROADCAST n
     else do {
       (r, n) \<leftarrow> arp_resolve dst_ip n;
       case r of
         Ok dst_mac \<Rightarrow> eth_tx m Eth_IPv4 dst_mac n
       | Err _ \<Rightarrow> eth_tx m Eth_IPv4 GATEWAY_MAC_ADDR n } }"

section \<open>UDP\<close>

definition UDP_HEADER_SIZE :: usize where
  "UDP_HEADER_SIZE = 8"

definition udp_find :: "u16 \<Rightarrow> udp_cb list \<Rightarrow> nat option" where
  "udp_find port t = find_index (\<lambda>cb. cb_used cb \<and> cb_port cb = port) t"

definition upd_cb :: "nat \<Rightarrow> (udp_cb \<Rightarrow> udp_cb) \<Rightarrow> 'z net_scheme \<Rightarrow> 'z net_scheme" where
  "upd_cb i f n = n\<lparr>udp_table := (udp_table n)[i := f (udp_table n ! i)]\<rparr>"

definition udp_open :: "'z net_scheme \<Rightarrow> nat result \<times> 'z net_scheme" where
  "udp_open n =
     (case find_index (\<lambda>cb. \<not> cb_used cb) (udp_table n) of
        Some i \<Rightarrow> (Ok i, upd_cb i (cb_used_update (\<lambda>_. True)) n)
      | None \<Rightarrow> (Err ''udp_open: ControlBlock unavailable'', n))"

definition udp_close :: "nat \<Rightarrow> 'z net_scheme \<Rightarrow> unit result \<times> 'z net_scheme" where
  "udp_close i n =
     (if \<not> cb_used (udp_table n ! i) then (Err ''udp_close: unopend'', n)
      else (Ok (), upd_cb i (\<lambda>_. udp_cb_new) n))"

definition udp_bind :: "nat \<Rightarrow> sock_addr \<Rightarrow> 'z net_scheme \<Rightarrow> unit result \<times> 'z net_scheme" where
  "udp_bind i addr n =
     (if \<not> cb_used (udp_table n ! i) then (Err ''udp_bind: not opened'', n)
      else (Ok (), upd_cb i (cb_port_update (\<lambda>_. sa_port addr)) n))"

definition usable_ports :: "u16 list" where
  "usable_ports = map of_nat [USABLE_PORT_MIN..<USABLE_PORT_MAX + 1]"

definition port_taken :: "u16 \<Rightarrow> udp_cb list \<Rightarrow> bool" where
  "port_taken p t \<longleftrightarrow> list_ex (\<lambda>cb. cb_used cb \<and> cb_port cb = p) t"

definition udp_connect :: "nat \<Rightarrow> sock_addr \<Rightarrow> 'z net_scheme \<Rightarrow> unit result \<times> 'z net_scheme" where
  "udp_connect i addr n =
     (if \<not> cb_used (udp_table n ! i) then (Err ''udp_connect: not opened'', n)
      else let n = upd_cb i (\<lambda>cb. cb\<lparr>cb_peer_addr := sa_addr addr, cb_peer_port := sa_port addr\<rparr>) n in
        if cb_port (udp_table n ! i) \<noteq> 0 then (Ok (), n)
        else let n = (case find (\<lambda>c. \<not> port_taken c (udp_table n)) usable_ports of
                        Some c \<Rightarrow> upd_cb i (cb_port_update (\<lambda>_. c)) n | None \<Rightarrow> n) in
          if cb_port (udp_table n ! i) = 0 then (Err ''udp_connect: port unavailable'', n) else (Ok (), n))"

definition udp_tx :: "mbuf \<Rightarrow> udp_cb \<Rightarrow> 'z net_scheme \<Rightarrow> 'z net_scheme option" where
  "udp_tx m cb n = do {
     (p, m) \<leftarrow> mbuf_prepend UDP_HEADER_SIZE m;
     m \<leftarrow> put_fields p
       [(0, u16_bytes (toggle_endian16 (cb_port cb))), (2, u16_bytes (toggle_endian16 (cb_peer_port cb))),
        (4, u16_bytes (toggle_endian16 (ucast (get_len m)))), (6, u16_bytes 0)] m;
     ip_tx m (cb_peer_addr cb) Prot_UDP n }"

definition udp_send :: "mbuf \<Rightarrow> nat \<Rightarrow> 'z net_scheme \<Rightarrow> (unit result \<times> 'z net_scheme) option" where
  "udp_send m i n =
     (if \<not> cb_used (udp_table n ! i) then Some (Err ''udp_write: unopened'', n)
      else do { n \<leftarrow> udp_tx m (udp_table n ! i) n; Some (Ok (), n) })"

definition udp_rx :: "mbuf \<Rightarrow> u32 \<Rightarrow> 'z net_scheme \<Rightarrow> (unit result \<times> 'z net_scheme) option" where
  "udp_rx m src_ip n = do {
     (p, m) \<leftarrow> mbuf_pop UDP_HEADER_SIZE m;
     hdr \<leftarrow> mbuf_read p (unat UDP_HEADER_SIZE) m;
     case udp_find (toggle_endian16 (le_u16 (\<lambda>i. hdr ! i) 2)) (udp_table n) of
       None \<Rightarrow> Some (Err ''udp_rx: socket not found'', n)
     | Some i \<Rightarrow> Some (Ok (), (upd_cb i (cb_queue_update (\<lambda>q. q @ [m])) n)\<lparr>udp_wakeups := udp_wakeups n @ [i]\<rparr>) }"

text \<open>Reading a packet; \<open>None\<close> for the result is sleeping for one.  The packet is gone even when
  copying it to the user fails.\<close>

definition udp_read ::
  "('m \<Rightarrow> u8 list \<Rightarrow> unit result \<times> 'm) \<Rightarrow> nat \<Rightarrow> usize \<Rightarrow> 'm \<Rightarrow> 'z net_scheme \<Rightarrow> (usize result option \<times> 'm \<times> 'z net_scheme) option" where
  "udp_read store i len u n =
     (case cb_queue (udp_table n ! i) of
        [] \<Rightarrow> Some (None, u, n)
      | m # q \<Rightarrow> do {
          let n = upd_cb i (cb_queue_update (\<lambda>_. q)) n;
          let len = (if len > get_len m then get_len m else len);
          bs \<leftarrow> mbuf_read (get_buf_head m) (unat len) m;
          let (r, u) = store u bs;
          Some (Some (case r of Err e \<Rightarrow> Err e | Ok _ \<Rightarrow> Ok len), u, n) })"

section \<open>Receive\<close>

definition ip_rx :: "mbuf \<Rightarrow> 'z net_scheme \<Rightarrow> 'z net_scheme option" where
  "ip_rx m n = do {
     (p, m) \<leftarrow> mbuf_pop IP_HEADER_SIZE m;
     hdr \<leftarrow> mbuf_read p (unat IP_HEADER_SIZE) m;
     let len = toggle_endian16 (le_u16 (\<lambda>i. hdr ! i) 2) - ucast IP_HEADER_SIZE;
     (_, m) \<leftarrow> mbuf_trim (get_len m - ucast len) m;
     proto \<leftarrow> ip_protocol_of (hdr ! 9);
     case proto of
       Prot_TCP \<Rightarrow> None
     | Prot_UDP \<Rightarrow> map_option snd (udp_rx m (toggle_endian32 (le_u32 (\<lambda>i. hdr ! i) 12)) n) }"

definition eth_rx :: "mbuf \<Rightarrow> 'z net_scheme \<Rightarrow> 'z net_scheme option" where
  "eth_rx m n = do {
     (p, m) \<leftarrow> mbuf_pop ETH_HEADER_SIZE m;
     hdr \<leftarrow> mbuf_read p (unat ETH_HEADER_SIZE) m;
     typ \<leftarrow> eth_type_of (toggle_endian16 (le_u16 (\<lambda>i. hdr ! i) 12));
     case typ of Eth_IPv4 \<Rightarrow> ip_rx m n | Eth_ARP \<Rightarrow> arp_rx m n }"

definition net_rx :: "mbuf \<Rightarrow> 'z net_scheme \<Rightarrow> 'z net_scheme option" where
  "net_rx m n = eth_rx m n"

text \<open>The receive loop: it ends when the device has no further packet.\<close>

partial_function (option) e1000_recv :: "'z net_scheme \<Rightarrow> 'z net_scheme option" where
  "e1000_recv n = Option.bind (e1000_take n) (\<lambda>(m, n).
     case m of None \<Rightarrow> Some n | Some m \<Rightarrow> Option.bind (net_rx m n) e1000_recv)"

declare e1000_recv.simps [code]

text \<open>The interrupt handler also reads the cause register, which acknowledges the interrupt, and wakes up
  the processes that sleep on the address of the driver; there are none.\<close>

definition e1000_intr :: "'z net_scheme \<Rightarrow> 'z net_scheme option" where
  "e1000_intr n = e1000_recv n"

section \<open>Sockets\<close>

datatype socket_type = Sock_TCP | Sock_UDP

definition socket_type_of :: "u8 \<Rightarrow> socket_type option" where
  "socket_type_of v = (if v = 0 then Some Sock_TCP else if v = 1 then Some Sock_UDP else None)"

record socket =
  so_cb_idx :: nat
  so_typ :: socket_type

definition socket_new :: "u8 \<Rightarrow> 'z net_scheme \<Rightarrow> (socket result \<times> 'z net_scheme) option" where
  "socket_new typ n = do {
     typ \<leftarrow> socket_type_of typ;
     case typ of
       Sock_TCP \<Rightarrow> None
     | Sock_UDP \<Rightarrow> let (r, n) = udp_open n in
         Some (map_sum id (\<lambda>i. \<lparr>so_cb_idx = i, so_typ = Sock_UDP\<rparr>) r, n) }"

definition socket_bind :: "socket \<Rightarrow> sock_addr \<Rightarrow> 'z net_scheme \<Rightarrow> (unit result \<times> 'z net_scheme) option" where
  "socket_bind so addr n = (case so_typ so of Sock_TCP \<Rightarrow> None | Sock_UDP \<Rightarrow> Some (udp_bind (so_cb_idx so) addr n))"

definition socket_connect :: "socket \<Rightarrow> sock_addr \<Rightarrow> 'z net_scheme \<Rightarrow> (unit result \<times> 'z net_scheme) option" where
  "socket_connect so addr n = (case so_typ so of Sock_TCP \<Rightarrow> None | Sock_UDP \<Rightarrow> Some (udp_connect (so_cb_idx so) addr n))"

definition socket_close :: "socket \<Rightarrow> 'z net_scheme \<Rightarrow> (unit result \<times> 'z net_scheme) option" where
  "socket_close so n = (case so_typ so of Sock_TCP \<Rightarrow> None | Sock_UDP \<Rightarrow> Some (udp_close (so_cb_idx so) n))"

definition socket_drop :: "socket \<Rightarrow> 'z net_scheme \<Rightarrow> 'z net_scheme option" where
  "socket_drop so n = do {
     (r, n) \<leftarrow> socket_close so n;
     case r of Err _ \<Rightarrow> None | Ok _ \<Rightarrow> Some n }"

definition socket_read ::
  "('m \<Rightarrow> u8 list \<Rightarrow> unit result \<times> 'm) \<Rightarrow> socket \<Rightarrow> usize \<Rightarrow> 'm \<Rightarrow> 'z net_scheme \<Rightarrow> (usize result option \<times> 'm \<times> 'z net_scheme) option" where
  "socket_read store so len u n =
     (case so_typ so of Sock_TCP \<Rightarrow> None | Sock_UDP \<Rightarrow> udp_read store (so_cb_idx so) len u n)"

text \<open>\<open>fetch n\<close> is the result of copying \<open>n\<close> bytes from the user, with the bytes copied before it
  ended; they go to the buffer one after the other.\<close>

definition socket_write ::
  "(nat \<Rightarrow> unit result \<times> u8 list) \<Rightarrow> socket \<Rightarrow> usize \<Rightarrow> 'z net_scheme \<Rightarrow> (usize result \<times> 'z net_scheme) option" where
  "socket_write fetch so len n =
     (case so_typ so of
        Sock_TCP \<Rightarrow> None
      | Sock_UDP \<Rightarrow> do {
          (m, n) \<leftarrow> new_mbuf (ETH_HEADER_SIZE + IP_HEADER_SIZE + UDP_HEADER_SIZE) n;
          (_, m) \<leftarrow> mbuf_append len m;
          let (r, bs) = fetch (unat len);
          m \<leftarrow> mbuf_write (get_buf_head m) bs m;
          case r of
            Err e \<Rightarrow> Some (Err e, n)
          | Ok _ \<Rightarrow> do {
              (r, n) \<leftarrow> udp_send m (so_cb_idx so) n;
              Some (case r of Err e \<Rightarrow> Err e | Ok _ \<Rightarrow> Ok len, n) } })"

end
