(* ===== verification/Net_Laws.thy ===== *)
theory Net_Laws
  imports Net
begin

text \<open>
  Properties of the network stack.  A packet is followed as a list of bytes through the layers: each
  transmit function puts its header in front, each receive function takes it off again.
\<close>

section \<open>Byte order\<close>

lemma toggle_endian16_twice [simp]: "toggle_endian16 (toggle_endian16 v) = v"
proof -
  have m: "(0xff :: u16) = mask 8" "(0xff00 :: u16) = push_bit 8 (mask 8)"
    by (simp_all add: mask_eq_decr_exp)
  show ?thesis
  proof (rule bit_word_eqI, goal_cases)
    case (1 n)
    then consider "n < 8" | "8 \<le> n" "n < 16" by fastforce
    then show ?case
      unfolding toggle_endian16_def m by cases (auto simp: bit_simps)
  qed
qed

lemma toggle_endian32_twice [simp]: "toggle_endian32 (toggle_endian32 v) = v"
proof -
  have m: "(0xff :: u32) = mask 8" "(0xff00 :: u32) = push_bit 8 (mask 8)" "(0xff0000 :: u32) = push_bit 16 (mask 8)"
    "(0xff000000 :: u32) = push_bit 24 (mask 8)"
    by (simp_all add: mask_eq_decr_exp)
  show ?thesis
  proof (rule bit_word_eqI, goal_cases)
    case (1 n)
    then consider "n < 8" | "8 \<le> n" "n < 16" | "16 \<le> n" "n < 24" | "24 \<le> n" "n < 32" by fastforce
    then show ?case
      unfolding toggle_endian32_def m by cases (auto simp: bit_simps)
  qed
qed

section \<open>Headers\<close>

definition overlay :: "nat \<Rightarrow> u8 list \<Rightarrow> u8 list \<Rightarrow> u8 list" where
  "overlay off bs xs = take off xs @ bs @ drop (off + length bs) xs"

lemma length_overlay [simp]: "off + length bs \<le> length xs \<Longrightarrow> length (overlay off bs xs) = length xs"
  by (simp add: overlay_def)

lemma put_fields_ok:
  assumes "mbuf_ok m" "\<forall>(off, bs) \<in> set fs. off + length bs \<le> unat (mb_len m)"
  shows "\<exists>m'. put_fields (mb_head m) fs m = Some m' \<and> mbuf_ok m' \<and> mb_off m' = mb_off m \<and> mb_addr m' = mb_addr m \<and>
    mb_head m' = mb_head m \<and> mb_len m' = mb_len m \<and> mb_data m' = fold (\<lambda>(off, bs). overlay off bs) fs (mb_data m)"
  using assms
proof (induction fs arbitrary: m)
  case (Cons f fs)
  obtain off bs where f: "f = (off, bs)" by force
  obtain m1 where m1: "mbuf_write (mb_head m + of_nat off) bs m = Some m1" "mbuf_ok m1" "mb_off m1 = mb_off m"
    "mb_addr m1 = mb_addr m" "mb_head m1 = mb_head m" "mb_len m1 = mb_len m"
    "mb_data m1 = take off (mb_data m) @ bs @ drop (off + length bs) (mb_data m)"
    by (rule mbuf_write_ok [OF Cons.prems(1) _ refl, of off bs]) (use Cons.prems(2) in \<open>auto simp: f\<close>)
  with Cons.IH [OF m1(2)] Cons.prems(2) show ?case
    by (auto simp: f overlay_def)
qed simp

declare put_fields.simps [simp del]

definition eth_header :: "u8 list \<Rightarrow> eth_type \<Rightarrow> u8 list" where
  "eth_header mac typ = mac @ LOCAL_MAC_ADDR @ u16_bytes (toggle_endian16 (eth_type_code typ))"

definition udp_header :: "udp_cb \<Rightarrow> nat \<Rightarrow> u8 list" where
  "udp_header cb n = u16_bytes (toggle_endian16 (cb_port cb)) @ u16_bytes (toggle_endian16 (cb_peer_port cb)) @
     u16_bytes (toggle_endian16 (of_nat n)) @ u16_bytes 0"

definition ip_header :: "u8 list \<Rightarrow> nat \<Rightarrow> ip_protocol \<Rightarrow> u16 \<Rightarrow> u32 \<Rightarrow> u8 list" where
  "ip_header x n proto chk dst = [push_bit 4 4 OR 5, 0] @ u16_bytes (toggle_endian16 (of_nat n)) @ x @
     [100, ip_protocol_code proto] @ u16_bytes chk @ u32_bytes (toggle_endian32 LOCAL_IP_ADDR) @ u32_bytes (toggle_endian32 dst)"

lemma overlay_udp:
  assumes "length x = 8" "length a = 2" "length b = 2" "length c = 2" "length d = 2"
  shows "overlay 6 d (overlay 4 c (overlay 2 b (overlay 0 a (x @ y)))) = a @ b @ c @ d @ y"
  using assms by (simp add: overlay_def)

lemma overlay_eth:
  assumes "length x = 14" "length a = 6" "length b = 6" "length c = 2"
  shows "overlay 12 c (overlay 6 b (overlay 0 a (x @ y))) = a @ b @ c @ y"
  using assms by (simp add: overlay_def)

lemma overlay_ip:
  assumes "length x = 20" "length a = 1" "length b = 1" "length c = 2" "length d = 1" "length e = 1" "length f = 4"
    "length g = 4" "length h = 2"
  shows "overlay 10 h (overlay 16 g (overlay 12 f (overlay 9 e (overlay 8 d (overlay 2 c (overlay 1 b (overlay 0 a (x @ y)))))))) =
    a @ b @ c @ take 4 (drop 4 x) @ d @ e @ h @ f @ g @ y"
  using assms by (simp add: overlay_def take_drop)

section \<open>Transmit\<close>

text \<open>The next \<open>k\<close> transmit descriptors are free; the packet handed over last.\<close>

definition tx_free :: "nat \<Rightarrow> 'z nic_scheme \<Rightarrow> bool" where
  "tx_free k n \<longleftrightarrow> unat (reg_tdt n) < TX_RING_SIZE \<and> length (tx_ring n) = TX_RING_SIZE \<and> length (tx_mbufs n) = TX_RING_SIZE \<and>
     k \<le> TX_RING_SIZE \<and>
     (\<forall>j < k. td_status (tx_ring n ! ((unat (reg_tdt n) + j) mod TX_RING_SIZE)) AND E1000_STAT_DD \<noteq> 0) \<and>
     (\<forall>i. unat (buf_addr n i) + MBUF_SIZE < 2 ^ 64)"

definition last_sent :: "'z nic_scheme \<Rightarrow> mbuf option" where
  "last_sent n = tx_mbufs n ! ((unat (reg_tdt n) + (TX_RING_SIZE - 1)) mod TX_RING_SIZE)"

text \<open>Sending changes the transmit ring only.\<close>

definition same_net :: "'z net_scheme \<Rightarrow> 'z net_scheme \<Rightarrow> bool" where
  "same_net n n' \<longleftrightarrow> arp_table n' = arp_table n \<and> udp_table n' = udp_table n \<and> udp_wakeups n' = udp_wakeups n \<and>
     rx_ring n' = rx_ring n \<and> rx_mbufs n' = rx_mbufs n \<and> reg_rdt n' = reg_rdt n"

lemma same_net_trans: "same_net a b \<Longrightarrow> same_net b c \<Longrightarrow> same_net a c"
  by (simp add: same_net_def)

lemma mod_ring_neq:
  assumes "a < 16" "j < 15"
  shows "(a + 1 + j) mod 16 \<noteq> (a :: nat)"
proof
  assume "(a + 1 + j) mod 16 = a"
  then have "(a + 1 + j) mod 16 = a mod 16" using assms(1) by simp
  then have "16 dvd (a + 1 + j) - a" by (subst (asm) mod_eq_dvd_iff_nat) simp_all
  then show False using assms(2) by (auto dest: dvd_imp_le)
qed

lemma e1000_send_ok:
  fixes n :: "'z net_scheme"
  assumes "tx_free (Suc k) n"
  obtains n' :: "'z net_scheme" where "e1000_send m n = Some (Ok (), n')" "last_sent n' = Some m" "tx_free k n'" "same_net n n'"
    "buf_addr n' = buf_addr n"
proof -
  define pos where "pos = unat (reg_tdt n)"
  define d where "d = (tx_ring n ! pos)\<lparr>td_status := 0, td_addr := get_buf_head m, td_length := ucast (get_len m),
                     td_cmd := E1000_TXD_CMD_EOP OR E1000_TXD_CMD_RS\<rparr>"
  define n' where "n' = n\<lparr>tx_ring := (tx_ring n)[pos := d], tx_mbufs := (tx_mbufs n)[pos := Some m],
                       reg_tdt := of_nat ((pos + 1) mod TX_RING_SIZE)\<rparr>"
  have f: "pos < 16" "length (tx_ring n) = 16" "length (tx_mbufs n) = 16" "k < 16"
    "\<And>j. j < Suc k \<Longrightarrow> td_status (tx_ring n ! ((pos + j) mod 16)) AND E1000_STAT_DD \<noteq> 0"
    "\<And>i. unat (buf_addr n i) + MBUF_SIZE < 2 ^ 64"
    using assms by (auto simp: tx_free_def pos_def TX_RING_SIZE_def)
  have dd: "td_status (tx_ring n ! pos) AND E1000_STAT_DD \<noteq> 0" using f(5) [of 0] f(1) by simp
  have send: "e1000_send m n = Some (Ok (), n')"
    using f(1) dd by (simp add: e1000_send_def Let_def n'_def d_def flip: pos_def) (simp add: TX_RING_SIZE_def)
  have tdt: "unat (reg_tdt n') = (pos + 1) mod 16"
    by (simp add: n'_def TX_RING_SIZE_def unat_of_nat)
  have "(pos + 1) mod 16 + 15 = pos \<or> (pos + 1) mod 16 + 15 = pos + 16"
    using f(1) by (cases "pos = 15") simp_all
  then have "(unat (reg_tdt n') + 15) mod 16 = pos" unfolding tdt using f(1) by auto
  then have last: "last_sent n' = Some m"
    using f(1,3) by (simp add: last_sent_def TX_RING_SIZE_def) (simp add: n'_def)
  have "td_status (tx_ring n' ! ((unat (reg_tdt n') + j) mod 16)) AND E1000_STAT_DD \<noteq> 0" if "j < k" for j
  proof -
    have "((pos + 1) mod 16 + j) mod 16 = (pos + Suc j) mod 16" by (simp add: mod_simps)
    moreover have "(pos + Suc j) mod 16 \<noteq> pos" using mod_ring_neq [OF f(1), of j] that f(4) by simp
    ultimately show ?thesis using f(5) [of "Suc j"] that unfolding tdt by (simp add: n'_def)
  qed
  then have "tx_free k n'"
    using f tdt by (simp add: tx_free_def TX_RING_SIZE_def n'_def)
  then show thesis
    using that send last by (simp add: same_net_def n'_def)
qed

lemma prepend_fields:
  assumes "mbuf_ok m" "unat n \<le> mb_off m" "\<forall>(off, bs) \<in> set fs. off + length bs \<le> unat n"
  shows "\<exists>p m' x. Option.bind (mbuf_prepend n m) (\<lambda>(p, m). put_fields p fs m) = Some m' \<and> mbuf_ok m' \<and>
    mbuf_prepend n m = Some p \<and> get_len (snd p) = mb_len m + n \<and> mb_off m' = mb_off m - unat n \<and>
    length x = unat n \<and> mb_data m' = fold (\<lambda>(off, bs). overlay off bs) fs (x @ mb_data m)"
proof -
  obtain m1 where m1: "mbuf_prepend n m = Some (mb_head m1, m1)" "mbuf_ok m1" "mb_off m1 = mb_off m - unat n"
    "mb_addr m1 = mb_addr m" "mb_buf m1 = mb_buf m" "unat (mb_len m1) = unat (mb_len m) + unat n"
    "mb_data m1 = take (unat n) (drop (mb_off m - unat n) (mb_buf m)) @ mb_data m"
    by (rule mbuf_prepend_ok [OF assms(1,2)]) (rule that, assumption+)
  have "mb_len m1 = mb_len m + n"
    using m1(1) by (auto simp: mbuf_prepend_def Let_def split: if_splits)
  moreover have "length (take (unat n) (drop (mb_off m - unat n) (mb_buf m))) = unat n"
    using assms(1,2) by (auto simp: mbuf_ok_def)
  moreover obtain m2 where "put_fields (mb_head m1) fs m1 = Some m2" "mbuf_ok m2" "mb_off m2 = mb_off m1"
    "mb_data m2 = fold (\<lambda>(off, bs). overlay off bs) fs (mb_data m1)"
    using put_fields_ok [OF m1(2), of fs] assms(3) m1(6) by fastforce
  ultimately show ?thesis
    using m1 by (intro exI [of _ "(mb_head m1, m1)"] exI [of _ m2]
        exI [of _ "take (unat n) (drop (mb_off m - unat n) (mb_buf m))"]) (simp add: get_len_def)
qed

lemma eth_tx_ok:
  fixes n :: "'z net_scheme"
  assumes "mbuf_ok m" "14 \<le> mb_off m" "length mac = 6" "tx_free (Suc k) n"
  obtains n' :: "'z net_scheme" and f where "eth_tx m typ mac n = Some n'" "last_sent n' = Some f" "mbuf_ok f"
    "mb_data f = eth_header mac typ @ mb_data m" "tx_free k n'" "same_net n n'"
proof -
  let ?fs = "[(0, mac), (6, LOCAL_MAC_ADDR), (12, u16_bytes (toggle_endian16 (eth_type_code typ)))]"
  have l: "length LOCAL_MAC_ADDR = 6" by (simp add: LOCAL_MAC_ADDR_def)
  have n14: "unat ETH_HEADER_SIZE = 14" by (simp add: ETH_HEADER_SIZE_def)
  obtain m' x where m': "Option.bind (mbuf_prepend ETH_HEADER_SIZE m) (\<lambda>(p, m). put_fields p ?fs m) = Some m'"
    "mbuf_ok m'" "length x = 14" "mb_data m' = fold (\<lambda>(off, bs). overlay off bs) ?fs (x @ mb_data m)"
    using prepend_fields [OF assms(1), of ETH_HEADER_SIZE ?fs] assms(2,3) l unfolding n14 by auto
  have d: "mb_data m' = eth_header mac typ @ mb_data m"
    using m'(4) overlay_eth [OF m'(3) assms(3) l, of "u16_bytes (toggle_endian16 (eth_type_code typ))"]
    by (simp add: eth_header_def)
  obtain n' :: "'z net_scheme" where n': "e1000_send m' n = Some (Ok (), n')" "last_sent n' = Some m'" "tx_free k n'" "same_net n n'"
    "buf_addr n' = buf_addr n"
    by (rule e1000_send_ok [OF assms(4), of m']) (rule that, assumption+)
  have "eth_tx m typ mac n = Some n'"
    using m'(1) n'(1) by (auto simp: eth_tx_def split: Option.bind_splits)
  then show thesis using that n' m'(2) d by blast
qed

lemma arp_tx_ok:
  fixes n :: "'z net_scheme"
  assumes "length hw = 6" "length mac = 6" "tx_free (Suc k) n"
  obtains n' :: "'z net_scheme" where "arp_tx op hw mac ip n = Some n'" "tx_free k n'" "same_net n n'"
proof -
  let ?n = "n\<lparr>buf_allocs := Suc (buf_allocs n)\<rparr>"
  let ?fs = "[(0, u16_bytes (toggle_endian16 1)), (2, u16_bytes (toggle_endian16 0x800)), (4, [6]), (5, [4]),
        (6, u16_bytes (toggle_endian16 (arp_op_code op))), (8, LOCAL_MAC_ADDR),
        (14, u32_bytes (toggle_endian32 LOCAL_IP_ADDR)), (18, hw), (24, u32_bytes (toggle_endian32 ip))]"
  have l: "length LOCAL_MAC_ADDR = 6" by (simp add: LOCAL_MAC_ADDR_def)
  have h: "unat (128 :: usize) = 128" "unat ARP_HEADER_SIZE = 28" by (simp_all add: ARP_HEADER_SIZE_def)
  obtain m where m: "mbuf_alloc (buf_addr n (buf_allocs n)) 128 = Some m" "mbuf_ok m" "mb_off m = unat (128 :: usize)" "mb_len m = 0"
    "mb_addr m = buf_addr n (buf_allocs n)" "mb_data m = []" "mb_buf m = replicate MBUF_SIZE 0"
    by (rule mbuf_alloc_ok [of 128 "buf_addr n (buf_allocs n)"])
      (use assms(3) in \<open>auto simp: MBUF_SIZE_def tx_free_def\<close>)
  have room: "mb_off m + unat (mb_len m) + unat ARP_HEADER_SIZE \<le> MBUF_SIZE"
    by (simp add: m h MBUF_SIZE_def)
  obtain p m1 where m1: "mbuf_append ARP_HEADER_SIZE m = Some (p, m1)" "mbuf_ok m1" "mb_off m1 = mb_off m" "mb_addr m1 = mb_addr m"
    "mb_data m1 = mb_data m @ take (unat ARP_HEADER_SIZE) (drop (mb_off m + unat (mb_len m)) (mb_buf m))" "mb_buf m1 = mb_buf m"
    "mb_head m1 = mb_head m" "unat (mb_len m1) = unat (mb_len m) + unat ARP_HEADER_SIZE" "p = mb_head m + mb_len m"
    by (rule mbuf_append_ok [OF m(2) room]) (rule that, assumption+)
  have p: "p = mb_head m1" using m1(7,9) m(4) by simp
  have len: "unat (mb_len m1) = 28" using m1(8) m(4) h by simp
  obtain m2 where m2: "put_fields p ?fs m1 = Some m2" "mbuf_ok m2" "mb_off m2 = mb_off m1"
    using put_fields_ok [OF m1(2), of ?fs] assms(1) l unfolding p len by auto
  have free: "tx_free (Suc k) ?n" using assms(3) by (simp add: tx_free_def)
  have off: "14 \<le> mb_off m2" using m2(3) m1(3) m(3) h by simp
  obtain n' :: "'z net_scheme" and f where n': "eth_tx m2 Eth_ARP mac ?n = Some n'" "last_sent n' = Some f" "mbuf_ok f"
    "mb_data f = eth_header mac Eth_ARP @ mb_data m2" "tx_free k n'" "same_net ?n n'"
    by (rule eth_tx_ok [OF m2(2) off assms(2) free]) (rule that, assumption+)
  have "arp_tx op hw mac ip n = Some n'"
    using m(1) m1(1) m2(1) n'(1) by (simp add: arp_tx_def new_mbuf_def)
  then show thesis using that n'(5,6) by (simp add: same_net_def)
qed

lemma arp_resolve_ok:
  fixes n :: "'z net_scheme"
  assumes "tx_free (Suc k) n" "\<forall>e \<in> set (arp_table n). length (ae_mac e) = 6"
  obtains r and n' :: "'z net_scheme" where "arp_resolve ip n = Some (r, n')" "tx_free k n'" "same_net n n'"
    "case r of Inl _ \<Rightarrow> True | Inr mac \<Rightarrow> length mac = 6"
proof -
  have a: "length ETHERNET_MAC_ADDR_ANY = 6" "length ETHERNET_MAC_ADDR_BROADCAST = 6" "length GATEWAY_MAC_ADDR = 6"
    by (simp_all add: ETHERNET_MAC_ADDR_ANY_def ETHERNET_MAC_ADDR_BROADCAST_def GATEWAY_MAC_ADDR_def)
  obtain n1 :: "'z net_scheme" where n1: "arp_tx Arp_Request ETHERNET_MAC_ADDR_ANY ETHERNET_MAC_ADDR_BROADCAST ip n = Some n1"
    "tx_free k n1" "same_net n n1"
    by (rule arp_tx_ok [OF a(1,2) assms(1)]) (rule that, assumption+)
  obtain n2 :: "'z net_scheme" where n2: "arp_tx Arp_Request GATEWAY_MAC_ADDR ETHERNET_MAC_ADDR_BROADCAST ip n = Some n2"
    "tx_free k n2" "same_net n n2"
    by (rule arp_tx_ok [OF a(3,2) assms(1)]) (rule that, assumption+)
  have refl: "tx_free k n" "same_net n n" using assms(1) by (auto simp: tx_free_def same_net_def)
  show thesis
  proof (cases "arp_select ip (arp_table n)")
    case (Some i)
    then have "length (ae_mac (arp_table n ! i)) = 6"
      using assms(2) by (auto simp: arp_select_def dest!: find_index_SomeD(1))
    then show ?thesis
      using that [of "Err ''same''" n1] that [of "Ok (ae_mac (arp_table n ! i))" n] Some n1 refl
      by (cases "ae_mac (arp_table n ! i) = ETHERNET_MAC_ADDR_ANY") (simp_all add: arp_resolve_def Let_def)
  next
    case None
    then show ?thesis
      using that [of "Err ''cannot resolved''" n2] that [of "Err ''full arp table''" n] n2 refl
      by (cases "arp_get_unused (arp_table n)") (auto simp: arp_resolve_def)
  qed
qed

text \<open>A UDP packet handed to the IP layer leaves as a frame with all three headers, to some MAC
  address.\<close>

lemma ip_tx_ok:
  fixes n :: "'z net_scheme"
  assumes "mbuf_ok m" "34 \<le> mb_off m" "tx_free 2 n" "\<forall>e \<in> set (arp_table n). length (ae_mac e) = 6"
  obtains n' :: "'z net_scheme" and f mac x c where "ip_tx m dst proto n = Some n'" "last_sent n' = Some f" "mbuf_ok f"
    "length mac = 6" "length x = 4"
    "mb_data f = eth_header mac Eth_IPv4 @ ip_header x (unat (mb_len m) + 20) proto c dst @ mb_data m" "same_net n n'"
proof -
  define fs where "fs p len = [(0 :: nat, [push_bit 4 4 OR 5 :: u8]), (1, [0]), (2, u16_bytes (toggle_endian16 (ucast (len :: usize)))), (8, [100]),
        (9, [ip_protocol_code proto]), (12, u32_bytes (toggle_endian32 LOCAL_IP_ADDR)),
        (16, u32_bytes (toggle_endian32 dst)), (10, u16_bytes (ip_checksum 0 p))]" for p len
  have n20: "unat IP_HEADER_SIZE = 20" by (simp add: IP_HEADER_SIZE_def)
  have le: "mb_off m + unat (mb_len m) \<le> 2048" using assms(1) by (simp add: mbuf_ok_def MBUF_SIZE_def)
  obtain m1 where m1: "mbuf_prepend IP_HEADER_SIZE m = Some (mb_head m1, m1)" "mbuf_ok m1" "mb_off m1 = mb_off m - unat IP_HEADER_SIZE"
    "mb_addr m1 = mb_addr m" "mb_buf m1 = mb_buf m" "unat (mb_len m1) = unat (mb_len m) + unat IP_HEADER_SIZE"
    "mb_data m1 = take (unat IP_HEADER_SIZE) (drop (mb_off m - unat IP_HEADER_SIZE) (mb_buf m)) @ mb_data m"
    by (rule mbuf_prepend_ok [OF assms(1), of IP_HEADER_SIZE]) (use assms(2) n20 that in auto)
  define x where "x = take 20 (drop (mb_off m - 20) (mb_buf m))"
  have x: "length x = 20" using assms(1,2) le by (auto simp: x_def mbuf_ok_def MBUF_SIZE_def)
  obtain m2 where m2: "put_fields (mb_head m1) (fs (mb_head m1) (mb_len m1)) m1 = Some m2" "mbuf_ok m2" "mb_off m2 = mb_off m1"
    "mb_data m2 = fold (\<lambda>(off, bs). overlay off bs) (fs (mb_head m1) (mb_len m1)) (mb_data m1)"
    using put_fields_ok [OF m1(2), of "fs (mb_head m1) (mb_len m1)"] m1(6) unfolding n20 fs_def by fastforce
  have u: "(ucast (mb_len m1) :: u16) = of_nat (unat (mb_len m) + 20)"
  proof -
    have "(of_nat (unat (mb_len m1)) :: u16) = ucast (mb_len m1)" by simp
    then show ?thesis using m1(6) n20 by metis
  qed
  have d2: "mb_data m2 = ip_header (take 4 (drop 4 x)) (unat (mb_len m) + 20) proto (ip_checksum 0 (mb_head m1)) dst @ mb_data m"
    unfolding m2(4) m1(7) n20 x_def [symmetric] fs_def u by (simp add: overlay_ip [OF x, unfolded One_nat_def] ip_header_def)
  have off: "14 \<le> mb_off m2" using m2(3) m1(3) assms(2) n20 by simp
  have a: "length ETHERNET_MAC_ADDR_BROADCAST = 6" "length GATEWAY_MAC_ADDR = 6"
    by (simp_all add: ETHERNET_MAC_ADDR_BROADCAST_def GATEWAY_MAC_ADDR_def)
  have free: "tx_free (Suc (Suc 0)) n" using assms(3) by (simp add: numeral_2_eq_2)
  obtain r and n1 :: "'z net_scheme" where n1: "arp_resolve dst n = Some (r, n1)" "tx_free (Suc 0) n1" "same_net n n1"
    "case r of Inl _ \<Rightarrow> True | Inr mac \<Rightarrow> length mac = 6"
    by (rule arp_resolve_ok [OF free assms(4)]) (rule that, assumption+)
  define mac where "mac = (if dst = 0 then ETHERNET_MAC_ADDR_BROADCAST else case r of Inl _ \<Rightarrow> GATEWAY_MAC_ADDR | Inr mac \<Rightarrow> mac)"
  define n0 where "n0 = (if dst = 0 then n else n1)"
  have mac: "length mac = 6" using a n1(4) by (simp add: mac_def split: sum.splits)
  have n0: "tx_free (Suc 0) n0" "same_net n n0"
    using n1 free by (auto simp: n0_def tx_free_def same_net_def)
  obtain n' :: "'z net_scheme" and f where n': "eth_tx m2 Eth_IPv4 mac n0 = Some n'" "last_sent n' = Some f" "mbuf_ok f"
    "mb_data f = eth_header mac Eth_IPv4 @ mb_data m2" "tx_free 0 n'" "same_net n0 n'"
    by (rule eth_tx_ok [OF m2(2) off mac n0(1)]) (rule that, assumption+)
  have "ip_tx m dst proto n = Some n'"
    using m1(1) m2(1) n1(1) n'(1)
    by (simp add: ip_tx_def get_len_def fs_def mac_def n0_def split: if_splits sum.splits)
  moreover have "length (take 4 (drop 4 x)) = 4" using x by simp
  moreover have "mb_data f = eth_header mac Eth_IPv4 @ ip_header (take 4 (drop 4 x)) (unat (mb_len m) + 20) proto
      (ip_checksum 0 (mb_head m1)) dst @ mb_data m"
    using n'(4) d2 by simp
  ultimately show thesis
    using that n'(2,3) mac same_net_trans [OF n0(2) n'(6)] by blast
qed

lemma udp_tx_ok:
  fixes n :: "'z net_scheme"
  assumes "mbuf_ok m" "42 \<le> mb_off m" "tx_free 2 n" "\<forall>e \<in> set (arp_table n). length (ae_mac e) = 6"
  obtains n' :: "'z net_scheme" and f mac x c where "udp_tx m cb n = Some n'" "last_sent n' = Some f" "mbuf_ok f"
    "length mac = 6" "length x = 4"
    "mb_data f = eth_header mac Eth_IPv4 @ ip_header x (unat (mb_len m) + 28) Prot_UDP c (cb_peer_addr cb) @
       udp_header cb (unat (mb_len m) + 8) @ mb_data m" "same_net n n'"
proof -
  define fs where "fs len = [(0 :: nat, u16_bytes (toggle_endian16 (cb_port cb))), (2, u16_bytes (toggle_endian16 (cb_peer_port cb))),
        (4, u16_bytes (toggle_endian16 (ucast (len :: usize)))), (6, u16_bytes 0)]" for len
  have n8: "unat UDP_HEADER_SIZE = 8" by (simp add: UDP_HEADER_SIZE_def)
  obtain m1 where m1: "mbuf_prepend UDP_HEADER_SIZE m = Some (mb_head m1, m1)" "mbuf_ok m1" "mb_off m1 = mb_off m - unat UDP_HEADER_SIZE"
    "mb_addr m1 = mb_addr m" "mb_buf m1 = mb_buf m" "unat (mb_len m1) = unat (mb_len m) + unat UDP_HEADER_SIZE"
    "mb_data m1 = take (unat UDP_HEADER_SIZE) (drop (mb_off m - unat UDP_HEADER_SIZE) (mb_buf m)) @ mb_data m"
    by (rule mbuf_prepend_ok [OF assms(1), of UDP_HEADER_SIZE]) (use assms(2) n8 that in auto)
  define x where "x = take 8 (drop (mb_off m - 8) (mb_buf m))"
  have x: "length x = 8" using assms(1,2) by (auto simp: x_def mbuf_ok_def MBUF_SIZE_def)
  obtain m2 where m2: "put_fields (mb_head m1) (fs (mb_len m1)) m1 = Some m2" "mbuf_ok m2" "mb_off m2 = mb_off m1"
    "mb_len m2 = mb_len m1" "mb_data m2 = fold (\<lambda>(off, bs). overlay off bs) (fs (mb_len m1)) (mb_data m1)"
    using put_fields_ok [OF m1(2), of "fs (mb_len m1)"] m1(6) unfolding n8 fs_def by fastforce
  have u: "(ucast (mb_len m1) :: u16) = of_nat (unat (mb_len m) + 8)"
  proof -
    have "(of_nat (unat (mb_len m1)) :: u16) = ucast (mb_len m1)" by simp
    then show ?thesis using m1(6) n8 by metis
  qed
  have d2: "mb_data m2 = udp_header cb (unat (mb_len m) + 8) @ mb_data m"
    unfolding m2(5) m1(7) n8 x_def [symmetric] fs_def u by (simp add: overlay_udp [OF x] udp_header_def)
  have off: "34 \<le> mb_off m2" using m2(3) m1(3) assms(2) n8 by simp
  obtain n' :: "'z net_scheme" and f mac y c where n': "ip_tx m2 (cb_peer_addr cb) Prot_UDP n = Some n'" "last_sent n' = Some f" "mbuf_ok f"
    "length mac = 6" "length y = 4"
    "mb_data f = eth_header mac Eth_IPv4 @ ip_header y (unat (mb_len m2) + 20) Prot_UDP c (cb_peer_addr cb) @ mb_data m2" "same_net n n'"
    by (rule ip_tx_ok [OF m2(2) off assms(3,4)]) (rule that, assumption+)
  have "udp_tx m cb n = Some n'"
    using m1(1) m2(1) n'(1) by (simp add: udp_tx_def get_len_def fs_def)
  moreover have "unat (mb_len m2) + 20 = unat (mb_len m) + 28" using m2(4) m1(6) n8 by simp
  ultimately show thesis
    using that n' d2 by metis
qed

section \<open>Receive\<close>

lemma hdr_length [simp]:
  "length mac = 6 \<Longrightarrow> length (eth_header mac t) = 14" "length (udp_header cb k) = 8"
  "length x = 4 \<Longrightarrow> length (ip_header x k p c dst) = 20"
  by (simp_all add: eth_header_def udp_header_def ip_header_def LOCAL_MAC_ADDR_def)

lemma udp_rx_ok:
  fixes n :: "'z net_scheme"
  assumes "mbuf_ok m" "mb_data m = udp_header cb k @ bs" "udp_find (cb_peer_port cb) (udp_table n) = Some j"
  obtains m' where "udp_rx m src n = Some (Ok (), (upd_cb j (cb_queue_update (\<lambda>q. q @ [m'])) n)\<lparr>udp_wakeups := udp_wakeups n @ [j]\<rparr>)"
    "mbuf_ok m'" "mb_data m' = bs"
proof -
  have n8: "unat UDP_HEADER_SIZE = 8" by (simp add: UDP_HEADER_SIZE_def)
  have len: "unat (mb_len m) = 8 + length bs"
    using length_mb_data [OF assms(1)] assms(2) by simp
  have le: "unat UDP_HEADER_SIZE \<le> unat (mb_len m)" using len n8 by simp
  obtain m' where m': "mbuf_pop UDP_HEADER_SIZE m = Some (mb_head m, m')" "mbuf_ok m'" "mb_off m' = mb_off m + unat UDP_HEADER_SIZE"
    "mb_addr m' = mb_addr m" "mb_buf m' = mb_buf m" "mb_data m' = drop (unat UDP_HEADER_SIZE) (mb_data m)"
    "unat (mb_len m') = unat (mb_len m) - unat UDP_HEADER_SIZE" "mbuf_read (mb_head m) (unat UDP_HEADER_SIZE) m' = Some (take (unat UDP_HEADER_SIZE) (mb_data m))"
    by (rule mbuf_pop_ok [OF assms(1) le]) (rule that, assumption+)
  have hdr: "take 8 (mb_data m) = udp_header cb k" using assms(2) by simp
  have "le_u16 (\<lambda>i. udp_header cb k ! i) 2 = toggle_endian16 (cb_peer_port cb)"
    by (rule le_u16_nth) (simp_all add: udp_header_def)
  then show thesis
    using that [of m'] m' hdr assms(2,3) n8 by (simp add: udp_rx_def)
qed

lemma ip_rx_ok:
  fixes n :: "'z net_scheme"
  assumes "mbuf_ok m" "mb_data m = ip_header x (20 + length rest) Prot_UDP c dst @ rest" "length x = 4"
  obtains m' where "ip_rx m n = map_option snd (udp_rx m' LOCAL_IP_ADDR n)" "mbuf_ok m'" "mb_data m' = rest"
proof -
  let ?h = "ip_header x (20 + length rest) Prot_UDP c dst"
  have n20: "unat IP_HEADER_SIZE = 20" by (simp add: IP_HEADER_SIZE_def)
  have len: "unat (mb_len m) = 20 + length rest"
    using length_mb_data [OF assms(1)] assms(2,3) by simp
  have sz: "20 + length rest \<le> 2048" using assms(1) len by (simp add: mbuf_ok_def MBUF_SIZE_def)
  have le: "unat IP_HEADER_SIZE \<le> unat (mb_len m)" using len n20 by simp
  obtain m1 where m1: "mbuf_pop IP_HEADER_SIZE m = Some (mb_head m, m1)" "mbuf_ok m1" "mb_off m1 = mb_off m + unat IP_HEADER_SIZE"
    "mb_addr m1 = mb_addr m" "mb_buf m1 = mb_buf m" "mb_data m1 = drop (unat IP_HEADER_SIZE) (mb_data m)"
    "unat (mb_len m1) = unat (mb_len m) - unat IP_HEADER_SIZE" "mbuf_read (mb_head m) (unat IP_HEADER_SIZE) m1 = Some (take (unat IP_HEADER_SIZE) (mb_data m))"
    by (rule mbuf_pop_ok [OF assms(1) le]) (rule that, assumption+)
  have f: "le_u16 (\<lambda>i. ?h ! i) 2 = toggle_endian16 (of_nat (20 + length rest))"
    "le_u32 (\<lambda>i. ?h ! i) 12 = toggle_endian32 LOCAL_IP_ADDR" "?h ! 9 = ip_protocol_code Prot_UDP"
    subgoal using assms(3) by (intro le_u16_nth) (simp_all add: ip_header_def)
    subgoal using assms(3) by (intro le_u32_nth) (simp_all add: ip_header_def)
    subgoal using assms(3) by (simp add: ip_header_def nth_append)
    done
  have l16: "unat (of_nat (20 + length rest) - ucast IP_HEADER_SIZE :: u16) = length rest"
  proof -
    have "(of_nat (20 + length rest) - ucast IP_HEADER_SIZE :: u16) = of_nat (length rest)"
      by (simp add: IP_HEADER_SIZE_def)
    then show ?thesis using sz by (simp add: unat_of_nat)
  qed
  have "unat (get_len m1 - ucast (of_nat (20 + length rest) - ucast IP_HEADER_SIZE :: u16)) = 0"
  proof -
    have "unat (ucast (of_nat (20 + length rest) - ucast IP_HEADER_SIZE :: u16) :: usize) = length rest"
      using l16 sz by (simp add: unsigned_ucast_eq take_bit_nat_eq_self)
    moreover have "unat (get_len m1) = length rest" using m1(7) len n20 by (simp add: get_len_def)
    ultimately show ?thesis by (subst unat_minus_no_underflow) simp_all
  qed
  then have z: "get_len m1 - ucast (of_nat (20 + length rest) - ucast IP_HEADER_SIZE :: u16) = 0"
    by (simp add: unat_eq_0)
  have "unat (0 :: usize) \<le> unat (mb_len m1)" by simp
  then obtain p m2 where m2: "mbuf_trim 0 m1 = Some (p, m2)" "mbuf_ok m2" "mb_data m2 = take (unat (mb_len m1) - unat (0 :: usize)) (mb_data m1)"
    "mb_off m2 = mb_off m1" "mb_addr m2 = mb_addr m1" "mb_buf m2 = mb_buf m1" "mb_head m2 = mb_head m1"
    "unat (mb_len m2) = unat (mb_len m1) - unat (0 :: usize)"
    by (rule mbuf_trim_ok [OF m1(2)]) (rule that, assumption+)
  have "mb_data m2 = rest" using m2(3) m1(6,7) len assms(2,3) n20 by simp
  moreover have "ip_rx m n = map_option snd (udp_rx m2 LOCAL_IP_ADDR n)"
    using m1(1,8) m2(1) z f assms(2,3) n20
    by (simp add: ip_rx_def Let_def ip_protocol_of_def ip_protocol_code_def)
  ultimately show thesis using that m2(2) by blast
qed

lemma eth_rx_ok:
  fixes n :: "'z net_scheme"
  assumes "mbuf_ok m" "mb_data m = eth_header mac Eth_IPv4 @ rest" "length mac = 6"
  obtains m' where "eth_rx m n = ip_rx m' n" "mbuf_ok m'" "mb_data m' = rest"
proof -
  have n14: "unat ETH_HEADER_SIZE = 14" by (simp add: ETH_HEADER_SIZE_def)
  have len: "unat (mb_len m) = 14 + length rest"
    using length_mb_data [OF assms(1)] assms(2,3) by simp
  have le: "unat ETH_HEADER_SIZE \<le> unat (mb_len m)" using len n14 by simp
  obtain m' where m': "mbuf_pop ETH_HEADER_SIZE m = Some (mb_head m, m')" "mbuf_ok m'" "mb_off m' = mb_off m + unat ETH_HEADER_SIZE"
    "mb_addr m' = mb_addr m" "mb_buf m' = mb_buf m" "mb_data m' = drop (unat ETH_HEADER_SIZE) (mb_data m)"
    "unat (mb_len m') = unat (mb_len m) - unat ETH_HEADER_SIZE" "mbuf_read (mb_head m) (unat ETH_HEADER_SIZE) m' = Some (take (unat ETH_HEADER_SIZE) (mb_data m))"
    by (rule mbuf_pop_ok [OF assms(1) le]) (rule that, assumption+)
  have "le_u16 (\<lambda>i. eth_header mac Eth_IPv4 ! i) 12 = toggle_endian16 (eth_type_code Eth_IPv4)"
    using assms(3) by (intro le_u16_nth) (simp_all add: eth_header_def LOCAL_MAC_ADDR_def)
  then show thesis
    using that [of m'] m' assms(2,3) n14 by (simp add: eth_rx_def eth_type_of_def eth_type_code_def)
qed

section \<open>From socket to socket\<close>

lemma socket_write_ok:
  fixes n :: "'z net_scheme"
  assumes "cb_used (udp_table n ! i)" "tx_free 2 n" "\<forall>e \<in> set (arp_table n). length (ae_mac e) = 6"
    "fetch (unat len) = (Ok (), bs)" "length bs = unat len" "unat len \<le> 2006"
  obtains n' :: "'z net_scheme" and f mac x c where
    "socket_write fetch \<lparr>so_cb_idx = i, so_typ = Sock_UDP\<rparr> len n = Some (Ok len, n')" "last_sent n' = Some f" "mbuf_ok f"
    "length mac = 6" "length x = 4"
    "mb_data f = eth_header mac Eth_IPv4 @ ip_header x (unat len + 28) Prot_UDP c (cb_peer_addr (udp_table n ! i)) @
       udp_header (udp_table n ! i) (unat len + 8) @ bs" "same_net n n'"
proof -
  define h where "h = ETH_HEADER_SIZE + IP_HEADER_SIZE + UDP_HEADER_SIZE"
  have h: "unat h = 42" by (simp add: h_def ETH_HEADER_SIZE_def IP_HEADER_SIZE_def UDP_HEADER_SIZE_def)
  obtain m where m: "mbuf_alloc (buf_addr n (buf_allocs n)) h = Some m" "mbuf_ok m" "mb_off m = unat h" "mb_len m = 0"
    "mb_addr m = buf_addr n (buf_allocs n)" "mb_data m = []" "mb_buf m = replicate MBUF_SIZE 0"
    by (rule mbuf_alloc_ok [of h]) (use h assms(2) that in \<open>auto simp: MBUF_SIZE_def tx_free_def\<close>)
  have sz: "mb_off m + unat (mb_len m) + unat len \<le> MBUF_SIZE"
    using m(3,4) h assms(6) by (simp add: MBUF_SIZE_def)
  obtain p m1 where m1: "mbuf_append len m = Some (p, m1)" "mbuf_ok m1" "mb_off m1 = mb_off m" "mb_addr m1 = mb_addr m"
    "mb_data m1 = mb_data m @ take (unat len) (drop (mb_off m + unat (mb_len m)) (mb_buf m))" "mb_buf m1 = mb_buf m"
    "mb_head m1 = mb_head m" "unat (mb_len m1) = unat (mb_len m) + unat len" "p = mb_head m + mb_len m"
    by (rule mbuf_append_ok [OF m(2) sz]) (rule that, assumption+)
  have l1: "unat (mb_len m1) = unat len" using m1(8) m(4) by simp
  obtain m2 where m2: "mbuf_write (mb_head m1) bs m1 = Some m2" "mbuf_ok m2" "mb_off m2 = mb_off m1" "mb_addr m2 = mb_addr m1"
    "mb_head m2 = mb_head m1" "mb_len m2 = mb_len m1"
    "mb_data m2 = take 0 (mb_data m1) @ bs @ drop (0 + length bs) (mb_data m1)"
    by (rule mbuf_write_ok [OF m1(2), of 0 bs "mb_head m1"]) (use assms(5) l1 that in auto)
  have d2: "mb_data m2 = bs" using m2(7) length_mb_data [OF m1(2)] l1 assms(5) by simp
  let ?n = "n\<lparr>buf_allocs := Suc (buf_allocs n)\<rparr>"
  have st: "tx_free 2 ?n" "\<forall>e \<in> set (arp_table ?n). length (ae_mac e) = 6" "42 \<le> mb_off m2" "same_net n ?n"
    using assms(2,3) m2(3) m1(3) m(3) h by (simp_all add: tx_free_def same_net_def)
  obtain n' :: "'z net_scheme" and f mac x c where n': "udp_tx m2 (udp_table n ! i) ?n = Some n'" "last_sent n' = Some f" "mbuf_ok f"
    "length mac = 6" "length x = 4"
    "mb_data f = eth_header mac Eth_IPv4 @ ip_header x (unat (mb_len m2) + 28) Prot_UDP c (cb_peer_addr (udp_table n ! i)) @
       udp_header (udp_table n ! i) (unat (mb_len m2) + 8) @ mb_data m2" "same_net ?n n'"
    by (rule udp_tx_ok [OF m2(2) st(3,1,2)]) (rule that, assumption+)
  have "socket_write fetch \<lparr>so_cb_idx = i, so_typ = Sock_UDP\<rparr> len n = Some (Ok len, n')"
    using m(1) m1(1) m2(1) n'(1) assms(1,4)
    by (simp add: socket_write_def new_mbuf_def h_def [symmetric] get_buf_head_def udp_send_def)
  moreover have "unat (mb_len m2) = unat len" using m2(6) l1 by simp
  ultimately show thesis
    using that n'(2-6) d2 same_net_trans [OF st(4) n'(7)] by metis
qed

lemma net_rx_ok:
  fixes n :: "'z net_scheme"
  assumes "mbuf_ok m" "length mac = 6" "length x = 4"
    "mb_data m = eth_header mac Eth_IPv4 @ ip_header x (length bs + 28) Prot_UDP c dst @ udp_header cb k @ bs"
    "udp_find (cb_peer_port cb) (udp_table n) = Some j"
  obtains m' where "net_rx m n = Some ((upd_cb j (cb_queue_update (\<lambda>q. q @ [m'])) n)\<lparr>udp_wakeups := udp_wakeups n @ [j]\<rparr>)"
    "mbuf_ok m'" "mb_data m' = bs"
proof -
  obtain m1 where m1: "eth_rx m n = ip_rx m1 n" "mbuf_ok m1" "mb_data m1 = ip_header x (length bs + 28) Prot_UDP c dst @ udp_header cb k @ bs"
    by (rule eth_rx_ok [OF assms(1,4,2)]) (rule that, assumption+)
  have "mb_data m1 = ip_header x (20 + length (udp_header cb k @ bs)) Prot_UDP c dst @ udp_header cb k @ bs"
    using m1(3) by (simp add: add.commute)
  then obtain m2 where m2: "ip_rx m1 n = map_option snd (udp_rx m2 LOCAL_IP_ADDR n)" "mbuf_ok m2" "mb_data m2 = udp_header cb k @ bs"
    by (rule ip_rx_ok [OF m1(2) _ assms(3)]) (rule that, assumption+)
  obtain m3 where m3: "udp_rx m2 LOCAL_IP_ADDR n = Some (Ok (), (upd_cb j (cb_queue_update (\<lambda>q. q @ [m3])) n)\<lparr>udp_wakeups := udp_wakeups n @ [j]\<rparr>)"
    "mbuf_ok m3" "mb_data m3 = bs"
    by (rule udp_rx_ok [OF m2(2,3) assms(5)]) (rule that, assumption+)
  show thesis
    using that [of m3] m1(1) m2(1) m3 by (simp add: net_rx_def)
qed

lemma udp_read_ok:
  fixes n :: "'z net_scheme"
  assumes "cb_queue (udp_table n ! j) = m # q" "mbuf_ok m" "mb_data m = bs" "length bs \<le> unat len" "store u bs = (Ok (), u')"
  shows "udp_read store j len u n = Some (Some (Ok (mb_len m)), u', upd_cb j (cb_queue_update (\<lambda>_. q)) n)"
proof -
  have l: "unat (mb_len m) = length bs" using length_mb_data assms(2,3) by fastforce
  have "(if len > get_len m then get_len m else len) = get_len m"
    using assms(4) l by (auto simp: get_len_def word_less_nat_alt word_unat_eq_iff)
  moreover have "mbuf_read (get_buf_head m) (unat (get_len m)) m = Some bs"
    using assms(2,3) by (simp add: mbuf_read_def in_buf_def mbuf_ok_def get_buf_head_def get_len_def mb_data_def mb_off_def)
  ultimately show ?thesis using assms(1,5) by (simp add: udp_read_def get_len_def)
qed

text \<open>C27: a datagram written to a UDP socket comes out of the peer's socket unchanged.  Of at most 2006
  bytes, with two free transmit descriptors, the write succeeds and leaves a frame in the transmit
  ring; any machine that receives the bytes of this frame, and has an opened control block with the destination
  port whose queue is empty, wakes the reader of that block up, whose read returns the bytes that were written and leaves the
  queue empty.\<close>

theorem udp_datagram_delivered:
  fixes n :: "'z net_scheme" and r :: "'y net_scheme"
  assumes "cb_used (udp_table n ! i)" "tx_free 2 n" "\<forall>e \<in> set (arp_table n). length (ae_mac e) = 6"
    "fetch (unat len) = (Ok (), bs)" "length bs = unat len" "unat len \<le> 2006"
    "udp_find (cb_peer_port (udp_table n ! i)) (udp_table r) = Some j" "cb_queue (udp_table r ! j) = []"
    "unat len \<le> unat len'" "store u bs = (Ok (), u')"
  shows "\<exists>n' f. socket_write fetch \<lparr>so_cb_idx = i, so_typ = Sock_UDP\<rparr> len n = Some (Ok len, n') \<and> last_sent n' = Some f \<and>
    same_net n n' \<and>
    (\<forall>m. mbuf_ok m \<and> mb_data m = mb_data f \<longrightarrow>
      (\<exists>r'. net_rx m r = Some r' \<and> udp_wakeups r' = udp_wakeups r @ [j] \<and>
        socket_read store \<lparr>so_cb_idx = j, so_typ = Sock_UDP\<rparr> len' u r' =
          Some (Some (Ok len), u', r\<lparr>udp_wakeups := udp_wakeups r @ [j]\<rparr>)))"
proof -
  let ?cb = "udp_table n ! i"
  obtain n' :: "'z net_scheme" and f mac x c where s:
    "socket_write fetch \<lparr>so_cb_idx = i, so_typ = Sock_UDP\<rparr> len n = Some (Ok len, n')" "last_sent n' = Some f" "mbuf_ok f"
    "length mac = 6" "length x = 4"
    "mb_data f = eth_header mac Eth_IPv4 @ ip_header x (unat len + 28) Prot_UDP c (cb_peer_addr ?cb) @
       udp_header ?cb (unat len + 8) @ bs" "same_net n n'"
    by (rule socket_write_ok [where fetch = fetch, OF assms(1-6)]) (rule that, assumption+)
  have j: "j < length (udp_table r)" using assms(7) by (auto simp: udp_find_def find_index_Some_iff)
  have "\<exists>r'. net_rx m r = Some r' \<and> udp_wakeups r' = udp_wakeups r @ [j] \<and>
        socket_read store \<lparr>so_cb_idx = j, so_typ = Sock_UDP\<rparr> len' u r' =
          Some (Some (Ok len), u', r\<lparr>udp_wakeups := udp_wakeups r @ [j]\<rparr>)"
    if m: "mbuf_ok m" "mb_data m = mb_data f" for m
  proof -
    have "mb_data m = eth_header mac Eth_IPv4 @ ip_header x (length bs + 28) Prot_UDP c (cb_peer_addr ?cb) @
        udp_header ?cb (unat len + 8) @ bs"
      using m(2) s(6) assms(5) by simp
    then obtain m' where m': "net_rx m r = Some ((upd_cb j (cb_queue_update (\<lambda>q. q @ [m'])) r)\<lparr>udp_wakeups := udp_wakeups r @ [j]\<rparr>)"
      "mbuf_ok m'" "mb_data m' = bs"
      by (rule net_rx_ok [OF m(1) s(4,5) _ assms(7)]) (rule that, assumption+)
    let ?r = "(upd_cb j (cb_queue_update (\<lambda>q. q @ [m'])) r)\<lparr>udp_wakeups := udp_wakeups r @ [j]\<rparr>"
    have q: "cb_queue (udp_table ?r ! j) = m' # []" using j assms(8) by (simp add: upd_cb_def)
    have "mb_len m' = len"
      using length_mb_data [OF m'(2)] m'(3) assms(5) by (simp add: word_unat_eq_iff)
    moreover have "upd_cb j (cb_queue_update (\<lambda>_. [])) ?r = r\<lparr>udp_wakeups := udp_wakeups r @ [j]\<rparr>"
    proof -
      have "(udp_table r ! j)\<lparr>cb_queue := []\<rparr> = udp_table r ! j" using assms(8) by simp
      then have "(udp_table r)[j := (udp_table r ! j)\<lparr>cb_queue := []\<rparr>] = udp_table r" by (metis list_update_id)
      then show ?thesis using j assms(8) by (cases r) (simp add: upd_cb_def)
    qed
    ultimately show ?thesis
      using m'(1) udp_read_ok [where store = store and u = u and u' = u' and len = len', OF q m'(2,3) _ assms(10)] assms(5,9)
      by (simp add: socket_read_def upd_cb_def)
  qed
  then show ?thesis using s by blast
qed

definition demo_net :: net where
  "demo_net = \<lparr>tx_ring = replicate 16 (tx_desc_new\<lparr>td_status := E1000_STAT_DD\<rparr>), tx_mbufs = replicate 16 None,
     rx_ring = replicate 16 rx_desc_new, rx_mbufs = replicate 16 None, reg_tdt = 3, reg_rdt = 0, reg_writes = [],
     buf_addr = (\<lambda>i. of_nat (2048 * (i mod 8))), buf_allocs = 0,
     arp_table = [], udp_table = [udp_cb_new\<lparr>cb_used := True, cb_port := 2000, cb_peer_port := 2000\<rparr>], udp_wakeups = []\<rparr>"

theorem udp_datagram_delivered_witness:
  "\<exists>n' f. socket_write (\<lambda>k. (Ok (), take k [7, 8, 9])) \<lparr>so_cb_idx = 0, so_typ = Sock_UDP\<rparr> 3 demo_net = Some (Ok 3, n') \<and>
     last_sent n' = Some f \<and> same_net demo_net n' \<and>
     (\<forall>m. mbuf_ok m \<and> mb_data m = mb_data f \<longrightarrow>
      (\<exists>r'. net_rx m demo_net = Some r' \<and> udp_wakeups r' = [] @ [0] \<and>
        socket_read (\<lambda>u bs. (Ok (), u @ bs)) \<lparr>so_cb_idx = 0, so_typ = Sock_UDP\<rparr> 100 [] r' =
          Some (Some (Ok 3), [7, 8, 9], demo_net\<lparr>udp_wakeups := [] @ [0]\<rparr>)))"
proof -
  have "unat (of_nat (2048 * (i mod 8)) :: usize) + MBUF_SIZE < 2 ^ 64" for i
  proof -
    have "i mod 8 < 8" by simp
    then show ?thesis unfolding unat_of_nat MBUF_SIZE_def by (simp add: mod_less)
  qed
  then have "tx_free 2 demo_net"
    by (simp add: tx_free_def demo_net_def TX_RING_SIZE_def tx_desc_new_def E1000_STAT_DD_def)
  then show ?thesis
    using udp_datagram_delivered [of demo_net 0 "\<lambda>k. (Ok (), take k [7, 8, 9])" 3 "[7, 8, 9]" demo_net 0 100
      "\<lambda>u bs. (Ok (), u @ bs)" "[]" "[7, 8, 9]"]
    by (simp add: demo_net_def udp_find_def udp_cb_new_def)
qed

section \<open>Ports\<close>

lemma unat_of_nat_port: "k < 65536 \<Longrightarrow> unat (of_nat k :: u16) = k"
  by (simp add: unat_of_nat)

lemma set_usable_ports: "set usable_ports = of_nat ` {49152..<65536}"
  unfolding usable_ports_def set_map set_upt by (simp add: USABLE_PORT_MIN_def USABLE_PORT_MAX_def)

lemma usable_port_nth: "p \<in> set usable_ports \<Longrightarrow> USABLE_PORT_MIN \<le> unat p"
  by (auto simp: set_usable_ports USABLE_PORT_MIN_def unat_of_nat_port)

lemma card_usable_ports: "card (set usable_ports) = 16384"
proof -
  have "inj_on (of_nat :: nat \<Rightarrow> u16) {49152..<65536}"
    by (rule inj_on_inverseI [of _ unat]) (simp add: unat_of_nat_port)
  then show ?thesis
    by (simp add: set_usable_ports card_image)
qed

lemma usable_port_free:
  assumes "length t \<le> 16383"
  obtains c where "find (\<lambda>c. \<not> port_taken c t) usable_ports = Some c" "\<not> port_taken c t" "USABLE_PORT_MIN \<le> unat c"
proof -
  have "card (cb_port ` set t) \<le> length t" by (rule order_trans [OF card_image_le card_length]) simp
  then have "\<not> set usable_ports \<subseteq> cb_port ` set t"
    using card_usable_ports card_mono [of "cb_port ` set t" "set usable_ports"] assms by auto
  then have "\<exists>c \<in> set usable_ports. \<not> port_taken c t"
    unfolding port_taken_def list_ex_iff by force
  then obtain c where c: "find (\<lambda>c. \<not> port_taken c t) usable_ports = Some c"
    by (metis (no_types, lifting) find_None_iff not_None_eq)
  then have "c \<in> set usable_ports" "\<not> port_taken c t"
    by (auto simp: find_Some_iff)
  then show thesis using that c usable_port_nth by blast
qed

text \<open>C33: connecting a socket that has no port yet always finds one.  The port comes from the dynamic range,
  from 49152 on, no other opened control block has it, the peer is the one asked for, and no other
  control block changes.\<close>

theorem udp_connect_fresh_port:
  fixes n :: "'z net_scheme"
  assumes "length (udp_table n) = CB_TABLE_SIZE" "i < CB_TABLE_SIZE" "cb_used (udp_table n ! i)" "cb_port (udp_table n ! i) = 0"
  shows "\<exists>p n'. udp_connect i addr n = (Ok (), n') \<and> USABLE_PORT_MIN \<le> unat p \<and>
    udp_table n' ! i = (udp_table n ! i)\<lparr>cb_peer_addr := sa_addr addr, cb_peer_port := sa_port addr, cb_port := p\<rparr> \<and>
    (\<forall>k < CB_TABLE_SIZE. k \<noteq> i \<longrightarrow> udp_table n' ! k = udp_table n ! k \<and> \<not> (cb_used (udp_table n ! k) \<and> cb_port (udp_table n ! k) = p))"
proof -
  define n1 where "n1 = upd_cb i (\<lambda>cb. cb\<lparr>cb_peer_addr := sa_addr addr, cb_peer_port := sa_port addr\<rparr>) n"
  have t1: "length (udp_table n1) = CB_TABLE_SIZE"
    "udp_table n1 ! i = (udp_table n ! i)\<lparr>cb_peer_addr := sa_addr addr, cb_peer_port := sa_port addr\<rparr>"
    "\<forall>k. k \<noteq> i \<longrightarrow> udp_table n1 ! k = udp_table n ! k"
    using assms(1,2) by (simp_all add: n1_def upd_cb_def)
  obtain p where p: "find (\<lambda>c. \<not> port_taken c (udp_table n1)) usable_ports = Some p" "\<not> port_taken p (udp_table n1)"
    "USABLE_PORT_MIN \<le> unat p"
    by (rule usable_port_free [of "udp_table n1"]) (use t1(1) that in \<open>auto simp: CB_TABLE_SIZE_def\<close>)
  have nz: "p \<noteq> 0" using p(3) by (auto simp: USABLE_PORT_MIN_def)
  define n2 where "n2 = upd_cb i (cb_port_update (\<lambda>_. p)) n1"
  have t2: "udp_table n2 ! i = (udp_table n ! i)\<lparr>cb_peer_addr := sa_addr addr, cb_peer_port := sa_port addr, cb_port := p\<rparr>"
    "\<forall>k. k \<noteq> i \<longrightarrow> udp_table n2 ! k = udp_table n ! k"
    using assms(2) t1 by (simp_all add: n2_def upd_cb_def)
  have "udp_connect i addr n = (Ok (), n2)"
    using assms(3,4) t1(2) t2(1) p(1) nz by (simp add: udp_connect_def n1_def [symmetric] n2_def [symmetric] Let_def)
  moreover have "\<not> (cb_used (udp_table n ! k) \<and> cb_port (udp_table n ! k) = p)" if "k < CB_TABLE_SIZE" "k \<noteq> i" for k
    using p(2) that t1(1,3) by (auto simp: port_taken_def list_ex_iff set_conv_nth)
  ultimately show ?thesis using p(3) t2 by blast
qed

theorem udp_connect_fresh_port_witness:
  "\<exists>p n'. udp_connect 1 \<lparr>sa_family = INET, sa_port = 7, sa_addr = 5\<rparr>
      (demo_net\<lparr>udp_table := replicate 16 (udp_cb_new\<lparr>cb_used := True\<rparr>)\<rparr>) = (Ok (), n') \<and> USABLE_PORT_MIN \<le> unat p \<and>
    udp_table n' ! 1 = udp_cb_new\<lparr>cb_used := True, cb_peer_addr := 5, cb_peer_port := 7, cb_port := p\<rparr> \<and>
    (\<forall>k < CB_TABLE_SIZE. k \<noteq> 1 \<longrightarrow> udp_table n' ! k = udp_cb_new\<lparr>cb_used := True\<rparr>)"
proof -
  let ?n = "demo_net\<lparr>udp_table := replicate 16 (udp_cb_new\<lparr>cb_used := True\<rparr>)\<rparr>"
  have "length (udp_table ?n) = CB_TABLE_SIZE" "1 < CB_TABLE_SIZE" "cb_used (udp_table ?n ! 1)" "cb_port (udp_table ?n ! 1) = 0"
    by (simp_all add: CB_TABLE_SIZE_def udp_cb_new_def)
  from udp_connect_fresh_port [OF this, of "\<lparr>sa_family = INET, sa_port = 7, sa_addr = 5\<rparr>"] show ?thesis
    by (auto simp: CB_TABLE_SIZE_def udp_cb_new_def)
qed

section \<open>Packets from outside\<close>

text \<open>C35: a frame with an Ethernet type other than IPv4 and ARP stops the kernel: the type is converted with
  \<open>try_into().unwrap()\<close> before anything else is looked at, so that any machine on the network
  can bring the kernel down with one well-formed frame of, for instance, IPv6.\<close>

theorem eth_rx_unknown_type_panics:
  assumes "mbuf_ok m" "mb_data m = mac @ src @ u16_bytes (toggle_endian16 ty) @ rest" "length mac = 6" "length src = 6"
    "ty \<noteq> 0x0800" "ty \<noteq> 0x0806"
  shows "net_rx m n = None"
proof -
  have n14: "unat ETH_HEADER_SIZE = 14" by (simp add: ETH_HEADER_SIZE_def)
  have le: "unat ETH_HEADER_SIZE \<le> unat (mb_len m)"
    using length_mb_data [OF assms(1)] assms(2-4) n14 by simp
  obtain m' where m': "mbuf_pop ETH_HEADER_SIZE m = Some (mb_head m, m')" "mbuf_ok m'" "mb_off m' = mb_off m + unat ETH_HEADER_SIZE"
    "mb_addr m' = mb_addr m" "mb_buf m' = mb_buf m" "mb_data m' = drop (unat ETH_HEADER_SIZE) (mb_data m)"
    "unat (mb_len m') = unat (mb_len m) - unat ETH_HEADER_SIZE" "mbuf_read (mb_head m) (unat ETH_HEADER_SIZE) m' = Some (take (unat ETH_HEADER_SIZE) (mb_data m))"
    by (rule mbuf_pop_ok [OF assms(1) le]) (rule that, assumption+)
  have "le_u16 (\<lambda>i. take 14 (mb_data m) ! i) 12 = toggle_endian16 ty"
    using assms(2-4) by (intro le_u16_nth) simp_all
  then show ?thesis
    using m'(1,8) n14 assms(5,6) by (simp add: net_rx_def eth_rx_def eth_type_of_def)
qed

theorem eth_rx_unknown_type_panics_witness:
  "net_rx \<lparr>mb_addr = 4096, mb_head = 4096, mb_len = 14, mb_buf = replicate 6 255 @ replicate 6 1 @ [0x86, 0xdd] @ replicate 2034 0\<rparr> demo_net = None"
proof -
  define z :: "u8 list" where "z = replicate 2034 0"
  let ?m = "\<lparr>mb_addr = 4096, mb_head = 4096, mb_len = 14, mb_buf = replicate 6 255 @ replicate 6 1 @ [0x86, 0xdd] @ z\<rparr>"
  have z: "length z = 2034" by (simp add: z_def)
  have "u16_bytes (toggle_endian16 0x86dd) = [0x86, 0xdd]" by code_simp
  then have "mb_data ?m = replicate 6 255 @ replicate 6 1 @ u16_bytes (toggle_endian16 0x86dd) @ []"
    by (simp add: mb_data_def mb_off_def)
  moreover have "mbuf_ok ?m" using z by (simp add: mbuf_ok_def mb_off_def MBUF_SIZE_def)
  ultimately have "net_rx ?m demo_net = None"
    using eth_rx_unknown_type_panics [OF _ _ length_replicate length_replicate, of ?m 255 1 "0x86dd"] by force
  then show ?thesis by (simp only: z_def)
qed

text \<open>C34: a write of 2007 to 2048 bytes to a socket leaves the packet buffer.  The buffer has 2048 bytes, of
  which 42 are kept free for the headers, but \<open>append\<close> compares the length with the size
  of the buffer and not with the room after the head, so that the bytes of the user go past the end of the buffer into
  the heap, whatever the state of the socket.\<close>

theorem socket_write_overflows_buffer:
  fixes n :: "'z net_scheme"
  assumes "2006 < unat len" "unat len \<le> 2048" "fetch (unat len) = (Ok (), bs)" "length bs = unat len"
    "unat (buf_addr n (buf_allocs n)) + MBUF_SIZE < 2 ^ 64"
  shows "\<exists>m p m'. mbuf_alloc (buf_addr n (buf_allocs n)) (ETH_HEADER_SIZE + IP_HEADER_SIZE + UDP_HEADER_SIZE) = Some m \<and>
    mbuf_append len m = Some (p, m') \<and> \<not> in_buf (get_buf_head m') (length bs) m' \<and>
    socket_write fetch \<lparr>so_cb_idx = i, so_typ = Sock_UDP\<rparr> len n = None"
proof -
  define h where "h = ETH_HEADER_SIZE + IP_HEADER_SIZE + UDP_HEADER_SIZE"
  have h: "unat h = 42" by (simp add: h_def ETH_HEADER_SIZE_def IP_HEADER_SIZE_def UDP_HEADER_SIZE_def)
  obtain m where m: "mbuf_alloc (buf_addr n (buf_allocs n)) h = Some m" "mbuf_ok m" "mb_off m = unat h" "mb_len m = 0"
    "mb_addr m = buf_addr n (buf_allocs n)" "mb_data m = []" "mb_buf m = replicate MBUF_SIZE 0"
    by (rule mbuf_alloc_ok [of h]) (use h assms(5) that in \<open>auto simp: MBUF_SIZE_def\<close>)
  have "sint len = int (unat len)" using assms(2) by (intro sint_small) simp
  then have m1: "mbuf_append len m = Some (mb_head m, m\<lparr>mb_len := len\<rparr>)"
    using assms(2) m(4) of_nat_le_iff [of "unat len" 2048, where 'a = int] by (simp add: mbuf_append_def Let_def MBUF_SIZE_def)
  have nb: "\<not> in_buf (mb_head m) (length bs) (m\<lparr>mb_len := len\<rparr>)"
    using m(3) h assms(1,4) by (simp add: in_buf_def mb_off_def MBUF_SIZE_def)
  then have "socket_write fetch \<lparr>so_cb_idx = i, so_typ = Sock_UDP\<rparr> len n = None"
    using m(1) m1 assms(3) by (simp add: socket_write_def new_mbuf_def h_def [symmetric] mbuf_write_def get_buf_head_def)
  then show ?thesis using m(1) m1 nb by (simp add: h_def get_buf_head_def)
qed

theorem socket_write_overflows_buffer_witness:
  "socket_write (\<lambda>k. (Ok (), replicate k 1)) \<lparr>so_cb_idx = 0, so_typ = Sock_UDP\<rparr> 2048 demo_net = None"
proof -
  have "unat (buf_addr demo_net (buf_allocs demo_net)) + MBUF_SIZE < 2 ^ 64"
    by (simp add: demo_net_def MBUF_SIZE_def)
  moreover have "2006 < unat (2048 :: usize)" "unat (2048 :: usize) \<le> 2048" by simp_all
  ultimately show ?thesis
    using socket_write_overflows_buffer [where fetch = "\<lambda>k. (Ok (), replicate k 1)", OF _ _ refl length_replicate] by blast
qed

end
