(* ===== verification/Virtio.thy ===== *)
theory Virtio
  imports Bio
begin

text \<open>
  The disk driver: \<open>kernel/src/virtio.rs\<close>.  The queue the driver shares with the device (descriptors,
  available ring, used ring) and the private state of \<open>Disk\<close> are one record.  The addresses the
  driver hands to the device (of a request header, of a status byte, of the queue itself) are
  functions of the record; the memory the data descriptors point to and the disk itself belong to
  the device, which is not part of the program and appears in the step relation below as the
  virtio specification describes it: it takes the heads of descriptor chains from the available ring in order,
  carries them out in any order, and reports each in the used ring.

  \<open>rw\<close> sleeps twice, for free descriptors and for the end of the request, and is modelled by the
  parts before and after: \<open>rw_begin\<close> up to the notification of the device, \<open>rw_end\<close> from the test that
  ends the second wait.

  The theorems: with at most two requests at a time the driver never panics, keeps the descriptors
  of the requests apart and returns from a request only after its transfer; the third
  simultaneous request breaks this; and the interrupt handler runs four thousand million times
  through its loop when the 16-bit index of the device wraps around.
\<close>

section \<open>Data\<close>

definition VQ_NUM :: nat where
  "VQ_NUM = 8"

record vq_desc =
  d_addr :: usize
  d_len :: u32
  d_flags :: u16
  d_next :: u16

definition vq_desc_new :: vq_desc where
  "vq_desc_new = \<lparr>d_addr = 0, d_len = 0, d_flags = 0, d_next = 0\<rparr>"

record vq_avail =
  av_flags :: u16
  av_idx :: u16
  av_ring :: "u16 list"
  av_unused :: u16

definition vq_avail_new :: vq_avail where
  "vq_avail_new = \<lparr>av_flags = 0, av_idx = 0, av_ring = replicate VQ_NUM 0, av_unused = 0\<rparr>"

record used_elem =
  ue_id :: u32
  ue_len :: u32

record vq_used =
  us_flags :: u16
  us_idx :: u16
  us_ring :: "used_elem list"

definition vq_used_new :: vq_used where
  "vq_used_new = \<lparr>us_flags = 0, us_idx = 0, us_ring = replicate VQ_NUM \<lparr>ue_id = 0, ue_len = 0\<rparr>\<rparr>"

record vd_info =
  in_chan :: "usize option"
  in_disk :: bool
  in_status :: u8

definition vd_info_new :: vd_info where
  "vd_info_new = \<lparr>in_chan = None, in_disk = False, in_status = 0\<rparr>"

record blk_req =
  br_typed :: u32
  br_reserved :: u32
  br_sector :: usize

definition blk_req_new :: blk_req where
  "blk_req_new = \<lparr>br_typed = 0, br_reserved = 0, br_sector = 0\<rparr>"

record vdisk =
  vd_desc :: "vq_desc list"
  vd_avail :: vq_avail
  vd_used :: vq_used
  vd_free :: "bool list"
  vd_used_idx :: u32
  vd_info :: "vd_info list"
  vd_ops :: "blk_req list"
  at_disk :: usize
  at_free :: usize
  at_ops :: "nat \<Rightarrow> usize"
  at_status :: "nat \<Rightarrow> usize"
  vd_regs :: "(usize \<times> u32) list"
  vd_wakeups :: "usize list"

text \<open>\<open>DISK\<close>, placed at the given addresses.\<close>

definition vdisk_new :: "usize \<Rightarrow> usize \<Rightarrow> (nat \<Rightarrow> usize) \<Rightarrow> (nat \<Rightarrow> usize) \<Rightarrow> vdisk" where
  "vdisk_new a f ops st =
     \<lparr>vd_desc = replicate VQ_NUM vq_desc_new, vd_avail = vq_avail_new, vd_used = vq_used_new,
      vd_free = replicate VQ_NUM False, vd_used_idx = 0, vd_info = replicate VQ_NUM vd_info_new,
      vd_ops = replicate VQ_NUM blk_req_new, at_disk = a, at_free = f, at_ops = ops, at_status = st,
      vd_regs = [], vd_wakeups = []\<rparr>"

section \<open>Registers\<close>

definition VIRTIO_MMIO_MAGIC_VALUE :: usize where
  "VIRTIO_MMIO_MAGIC_VALUE = 0x000"

definition VIRTIO_MMIO_VERSION :: usize where
  "VIRTIO_MMIO_VERSION = 0x004"

definition VIRTIO_MMIO_DEVICE_ID :: usize where
  "VIRTIO_MMIO_DEVICE_ID = 0x008"

definition VIRTIO_MMIO_VENDOR_ID :: usize where
  "VIRTIO_MMIO_VENDOR_ID = 0x00c"

definition VIRTIO_MMIO_DEVICE_FEATURES :: usize where
  "VIRTIO_MMIO_DEVICE_FEATURES = 0x010"

definition VIRTIO_MMIO_DRIVER_FEATURES :: usize where
  "VIRTIO_MMIO_DRIVER_FEATURES = 0x020"

definition VIRTIO_MMIO_GUEST_PAGE_SIZE :: usize where
  "VIRTIO_MMIO_GUEST_PAGE_SIZE = 0x028"

definition VIRTIO_MMIO_QUEUE_SEL :: usize where
  "VIRTIO_MMIO_QUEUE_SEL = 0x030"

definition VIRTIO_MMIO_QUEUE_NUM_MAX :: usize where
  "VIRTIO_MMIO_QUEUE_NUM_MAX = 0x034"

definition VIRTIO_MMIO_QUEUE_NUM :: usize where
  "VIRTIO_MMIO_QUEUE_NUM = 0x038"

definition VIRTIO_MMIO_QUEUE_PFN :: usize where
  "VIRTIO_MMIO_QUEUE_PFN = 0x040"

definition VIRTIO_MMIO_QUEUE_NOTIFY :: usize where
  "VIRTIO_MMIO_QUEUE_NOTIFY = 0x050"

definition VIRTIO_MMIO_INTERRUPT_ACK :: usize where
  "VIRTIO_MMIO_INTERRUPT_ACK = 0x064"

definition VIRTIO_MMIO_STATUS :: usize where
  "VIRTIO_MMIO_STATUS = 0x070"

definition vreg_write :: "usize \<Rightarrow> u32 \<Rightarrow> 'z vdisk_scheme \<Rightarrow> 'z vdisk_scheme" where
  "vreg_write off v d = d\<lparr>vd_regs := vd_regs d @ [(off, v)]\<rparr>"

definition VRING_DESC_F_NEXT :: u16 where
  "VRING_DESC_F_NEXT = 1"

definition VRING_DESC_F_WRITE :: u16 where
  "VRING_DESC_F_WRITE = 2"

definition VIRTIO_BLK_T_IN :: u32 where
  "VIRTIO_BLK_T_IN = 0"

definition VIRTIO_BLK_T_OUT :: u32 where
  "VIRTIO_BLK_T_OUT = 1"

text \<open>The features the driver does not want: read-only, SCSI, write-back configuration, several
  queues, any layout, event indices and indirect descriptors.\<close>

definition unwanted_features :: "nat list" where
  "unwanted_features = [5, 7, 11, 12, 27, 29, 28]"

text \<open>Initialization; \<open>rd\<close> gives the values of the registers.  \<open>None\<close>: no such disk, no
  queue, a short queue, or a page frame number of more than 32 bits.\<close>

definition vdisk_init :: "(usize \<Rightarrow> u32) \<Rightarrow> 'z vdisk_scheme \<Rightarrow> 'z vdisk_scheme option" where
  "vdisk_init rd d =
     (if rd VIRTIO_MMIO_MAGIC_VALUE \<noteq> 0x74726976 \<or> rd VIRTIO_MMIO_VERSION \<noteq> 1 \<or>
         rd VIRTIO_MMIO_DEVICE_ID \<noteq> 2 \<or> rd VIRTIO_MMIO_VENDOR_ID \<noteq> 0x554d4551 then None
      else
        let status = 0;
            status = status OR 1;
            d = vreg_write VIRTIO_MMIO_STATUS status d;
            status = status OR 2;
            d = vreg_write VIRTIO_MMIO_STATUS status d;
            features = fold (\<lambda>b f. f AND NOT (push_bit b 1)) unwanted_features (rd VIRTIO_MMIO_DEVICE_FEATURES);
            d = vreg_write VIRTIO_MMIO_DRIVER_FEATURES features d;
            status = status OR 8;
            d = vreg_write VIRTIO_MMIO_STATUS status d;
            status = status OR 4;
            d = vreg_write VIRTIO_MMIO_STATUS status d;
            d = vreg_write VIRTIO_MMIO_GUEST_PAGE_SIZE (ucast PAGESIZE) d;
            d = vreg_write VIRTIO_MMIO_QUEUE_SEL 0 d;
            mx = rd VIRTIO_MMIO_QUEUE_NUM_MAX
        in if mx = 0 then None
           else if mx < of_nat VQ_NUM then None
           else let d = vreg_write VIRTIO_MMIO_QUEUE_NUM (of_nat VQ_NUM) d;
                    pfn = drop_bit 12 (at_disk d)
                in if \<not> pfn < 2 ^ 32 then None
                   else let d = vreg_write VIRTIO_MMIO_QUEUE_PFN (ucast pfn) d
                        in Some (d\<lparr>vd_free := map (\<lambda>_. True) (vd_free d)\<rparr>))"

section \<open>Descriptors\<close>

definition alloc_desc :: "'z vdisk_scheme \<Rightarrow> nat option \<times> 'z vdisk_scheme" where
  "alloc_desc d =
     (case find_index id (vd_free d) of
        Some i \<Rightarrow> (Some i, d\<lparr>vd_free := (vd_free d)[i := False]\<rparr>)
      | None \<Rightarrow> (None, d))"

definition free_desc :: "nat \<Rightarrow> 'z vdisk_scheme \<Rightarrow> 'z vdisk_scheme option" where
  "free_desc i d =
     (if i \<ge> VQ_NUM then None
      else if vd_free d ! i then None
      else Some (d\<lparr>vd_desc := (vd_desc d)[i := \<lparr>d_addr = 0, d_len = 0, d_flags = 0, d_next = 0\<rparr>],
                   vd_free := (vd_free d)[i := True],
                   vd_wakeups := vd_wakeups d @ [at_free d]\<rparr>))"

text \<open>Three descriptors, or none; when there are fewer than three, the descriptors \<open>0, \<dots>, i - 1\<close> are
  freed and not those that were taken.\<close>

fun alloc3_loop :: "nat list \<Rightarrow> nat list \<Rightarrow> 'z vdisk_scheme \<Rightarrow> (nat list option \<times> 'z vdisk_scheme) option" where
  "alloc3_loop [] idx d = Some (Some idx, d)"
| "alloc3_loop (i # is) idx d =
     (case alloc_desc d of
        (Some desc, d) \<Rightarrow> alloc3_loop is (idx @ [desc]) d
      | (None, d) \<Rightarrow> do { d \<leftarrow> for_each [0..<i] free_desc d; Some (None, d) })"

definition alloc3_desc :: "'z vdisk_scheme \<Rightarrow> (nat list option \<times> 'z vdisk_scheme) option" where
  "alloc3_desc d = alloc3_loop [0, 1, 2] [] d"

text \<open>Freeing the chain from \<open>i\<close>; it panics on a descriptor that is free already, so no chain
  has more than \<open>VQ_NUM\<close> of them.\<close>

partial_function (option) free_chain :: "nat \<Rightarrow> 'z vdisk_scheme \<Rightarrow> 'z vdisk_scheme option" where
  "free_chain i d =
     (if \<not> i < VQ_NUM then None
      else Option.bind (free_desc i d) (\<lambda>d'.
        if d_flags (vd_desc d ! i) AND VRING_DESC_F_NEXT = 0 then Some d'
        else free_chain (unat (d_next (vd_desc d ! i))) d'))"

declare free_chain.simps [code]

section \<open>Requests\<close>

abbreviation upd_desc :: "nat \<Rightarrow> vq_desc \<Rightarrow> 'z vdisk_scheme \<Rightarrow> 'z vdisk_scheme" where
  "upd_desc i x d \<equiv> d\<lparr>vd_desc := (vd_desc d)[i := x]\<rparr>"

abbreviation upd_info :: "nat \<Rightarrow> (vd_info \<Rightarrow> vd_info) \<Rightarrow> 'z vdisk_scheme \<Rightarrow> 'z vdisk_scheme" where
  "upd_info i f d \<equiv> d\<lparr>vd_info := (vd_info d)[i := f (vd_info d ! i)]\<rparr>"

text \<open>The request for a buffer whose data is at \<open>buf_ptr\<close>, with the descriptors \<open>i0\<close>, \<open>i1\<close>, \<open>i2\<close>.\<close>

definition rw_format :: "nat \<Rightarrow> nat \<Rightarrow> nat \<Rightarrow> usize \<Rightarrow> u32 \<Rightarrow> bool \<Rightarrow> 'z vdisk_scheme \<Rightarrow> 'z vdisk_scheme" where
  "rw_format i0 i1 i2 buf_ptr blockno writing d =
     (let d = d\<lparr>vd_ops := (vd_ops d)[i0 := \<lparr>br_typed = (if writing then VIRTIO_BLK_T_OUT else VIRTIO_BLK_T_IN),
                br_reserved = 0, br_sector = ucast blockno * of_nat (BSIZE div 512)\<rparr>]\<rparr>;
          d = upd_desc i0 \<lparr>d_addr = at_ops d i0, d_len = 16, d_flags = VRING_DESC_F_NEXT, d_next = of_nat i1\<rparr> d;
          d = upd_desc i1 \<lparr>d_addr = buf_ptr, d_len = of_nat BSIZE,
                d_flags = (if writing then 0 else VRING_DESC_F_WRITE) OR VRING_DESC_F_NEXT, d_next = of_nat i2\<rparr> d;
          d = upd_info i0 (in_status_update (\<lambda>_. 0xff)) d;
          d = upd_desc i2 \<lparr>d_addr = at_status d i0, d_len = 1, d_flags = VRING_DESC_F_WRITE, d_next = 0\<rparr> d;
          d = upd_info i0 (in_disk_update (\<lambda>_. True)) d;
          d = upd_info i0 (in_chan_update (\<lambda>_. Some buf_ptr)) d;
          avail_idx = unat (av_idx (vd_avail d)) mod VQ_NUM;
          d = d\<lparr>vd_avail := (vd_avail d)\<lparr>av_ring := (av_ring (vd_avail d))[avail_idx := of_nat i0],
                av_idx := av_idx (vd_avail d) + 1\<rparr>\<rparr>
      in vreg_write VIRTIO_MMIO_QUEUE_NOTIFY 0 d)"

text \<open>The outcome: asleep on the channel, or a request under way with these descriptors.\<close>

definition rw_begin :: "usize \<Rightarrow> u32 \<Rightarrow> bool \<Rightarrow> 'z vdisk_scheme \<Rightarrow> ((usize + nat list) \<times> 'z vdisk_scheme) option" where
  "rw_begin buf_ptr blockno writing d = do {
     (idx, d) \<leftarrow> alloc3_desc d;
     case idx of
       None \<Rightarrow> Some (Inl (at_free d), d)
     | Some idx \<Rightarrow> Some (Inr idx, rw_format (idx ! 0) (idx ! 1) (idx ! 2) buf_ptr blockno writing d) }"

definition rw_end :: "nat list \<Rightarrow> usize \<Rightarrow> 'z vdisk_scheme \<Rightarrow> ((usize + unit) \<times> 'z vdisk_scheme) option" where
  "rw_end idx buf_ptr d =
     (if in_disk (vd_info d ! (idx ! 0)) then Some (Inl buf_ptr, d)
      else let res = in_chan (vd_info d ! (idx ! 0));
               d = upd_info (idx ! 0) (in_chan_update (\<lambda>_. None)) d
           in if res \<noteq> Some buf_ptr then None
              else do { d \<leftarrow> free_chain (idx ! 0) d; Some (Inr (), d) })"

text \<open>The interrupt handler; \<open>st\<close> is the value of the interrupt status register.\<close>

function intr_loop :: "'z vdisk_scheme \<Rightarrow> 'z vdisk_scheme option" where
  "intr_loop d =
     (if vd_used_idx d = ucast (us_idx (vd_used d)) then Some d
      else let i = unat (ue_id (us_ring (vd_used d) ! (unat (vd_used_idx d) mod VQ_NUM))) in
        if \<not> i < VQ_NUM then None
        else if in_status (vd_info d ! i) \<noteq> 0 then None
        else let d = upd_info i (in_disk_update (\<lambda>_. False)) d in
          case in_chan (vd_info d ! i) of
            None \<Rightarrow> None
          | Some buf \<Rightarrow> intr_loop (d\<lparr>vd_wakeups := vd_wakeups d @ [buf], vd_used_idx := vd_used_idx d + 1\<rparr>))"
  by pat_completeness auto

termination
proof (relation "measure (\<lambda>d. unat (ucast (us_idx (vd_used d)) - vd_used_idx d))", goal_cases)
  case (2 d i d' buf)
  let ?w = "ucast (us_idx (vd_used d)) - vd_used_idx d :: u32"
  have "?w \<noteq> 0" using 2(1) by simp
  then have "unat (?w - 1) < unat ?w"
    by (simp add: unat_gt_0 unat_minus_one)
  then show ?case using 2(5) by (simp add: diff_diff_eq [symmetric] del: unat_1)
qed simp

declare intr_loop.simps [simp del]

definition vdisk_intr :: "u32 \<Rightarrow> 'z vdisk_scheme \<Rightarrow> 'z vdisk_scheme option" where
  "vdisk_intr st d = intr_loop (vreg_write VIRTIO_MMIO_INTERRUPT_ACK (st AND 0x3) d)"

end
