(* ===== verification/Virtio_Laws.thy ===== *)
theory Virtio_Laws
  imports Virtio
begin

text \<open>
  Properties of the disk driver: the driver, the processes waiting in \<open>rw\<close> and the device as a
  transition system, its invariant, and what happens outside of the conditions under which it holds.
\<close>

section \<open>Driver, processes and device\<close>

text \<open>A process in the second wait of \<open>rw\<close>: its descriptors and buffer are local variables of \<open>rw\<close>;
  \<open>w_done\<close> says that the device has carried out the transfer since the request was made.\<close>

record waiter =
  w_idx :: "nat list"
  w_buf :: usize
  w_sector :: usize
  w_write :: bool
  w_done :: bool

text \<open>The device has taken \<open>n_fetch\<close> entries of the available ring, of which those in \<open>dev_todo\<close> are
  not done.  \<open>n_sub\<close>, \<open>n_rep\<close> and \<open>n_srv\<close> count the requests made, reported in the used ring and
  seen by the interrupt handler.\<close>

record vsys = vdisk +
  waiters :: "waiter list"
  platter :: "usize \<Rightarrow> block"
  bufmem :: "usize \<Rightarrow> block"
  dev_todo :: "nat list"
  n_sub :: nat
  n_fetch :: nat
  n_rep :: nat
  n_srv :: nat

definition mark_done :: "usize \<Rightarrow> usize \<Rightarrow> bool \<Rightarrow> waiter list \<Rightarrow> waiter list" where
  "mark_done buf sector writing =
     map (\<lambda>w. if w_buf w = buf \<and> w_sector w = sector \<and> w_write w = writing then w\<lparr>w_done := True\<rparr> else w)"

definition push_used :: "nat \<Rightarrow> vsys \<Rightarrow> vsys" where
  "push_used h s = s\<lparr>vd_used := (vd_used s)
     \<lparr>us_ring := (us_ring (vd_used s))[unat (us_idx (vd_used s)) mod VQ_NUM := \<lparr>ue_id = of_nat h, ue_len = 0\<rparr>],
      us_idx := us_idx (vd_used s) + 1\<rparr>\<rparr>"

inductive vstep :: "vsys \<Rightarrow> vsys \<Rightarrow> bool" where
  submit: "length (waiters s) < 2 \<Longrightarrow> n_sub s < 65535 \<Longrightarrow> rw_begin buf bn writing s = Some (Inr idx, s') \<Longrightarrow>
    vstep s (s'\<lparr>waiters := waiters s @ [\<lparr>w_idx = idx, w_buf = buf, w_sector = ucast bn * 8, w_write = writing, w_done = False\<rparr>],
                n_sub := Suc (n_sub s)\<rparr>)"
| fetch: "of_nat (n_fetch s) \<noteq> av_idx (vd_avail s) \<Longrightarrow>
    vstep s (s\<lparr>dev_todo := dev_todo s @ [unat (av_ring (vd_avail s) ! (n_fetch s mod VQ_NUM))], n_fetch := Suc (n_fetch s)\<rparr>)"
| transfer: "h \<in> set (dev_todo s) \<Longrightarrow>
    d0 = vd_desc s ! h \<Longrightarrow> d1 = vd_desc s ! unat (d_next d0) \<Longrightarrow> d2 = vd_desc s ! unat (d_next d1) \<Longrightarrow>
    k < VQ_NUM \<Longrightarrow> d_addr d0 = at_ops s k \<Longrightarrow> j < VQ_NUM \<Longrightarrow> d_addr d2 = at_status s j \<Longrightarrow>
    sector = br_sector (vd_ops s ! k) \<Longrightarrow> writing = (br_typed (vd_ops s ! k) = VIRTIO_BLK_T_OUT) \<Longrightarrow> buf = d_addr d1 \<Longrightarrow>
    s1 = (if writing then s\<lparr>platter := (platter s)(sector := bufmem s buf)\<rparr>
          else s\<lparr>bufmem := (bufmem s)(buf := platter s sector)\<rparr>) \<Longrightarrow>
    s2 = upd_info j (in_status_update (\<lambda>_. 0)) (push_used h s1) \<Longrightarrow>
    vstep s (s2\<lparr>waiters := mark_done buf sector writing (waiters s), dev_todo := remove1 h (dev_todo s), n_rep := Suc (n_rep s)\<rparr>)"
| intr: "vdisk_intr st s = Some s' \<Longrightarrow> vstep s (s'\<lparr>n_srv := n_rep s\<rparr>)"
| finish: "waiters s = ws1 @ w # ws2 \<Longrightarrow> rw_end (w_idx w) (w_buf w) s = Some (Inr (), s') \<Longrightarrow>
    vstep s (s'\<lparr>waiters := ws1 @ ws2\<rparr>)"

text \<open>The system after \<open>init\<close>.\<close>

definition vsys_of :: "vdisk \<Rightarrow> (usize \<Rightarrow> block) \<Rightarrow> (usize \<Rightarrow> block) \<Rightarrow> vsys" where
  "vsys_of d p b = vdisk.extend d
     \<lparr>waiters = [], platter = p, bufmem = b, dev_todo = [], n_sub = 0, n_fetch = 0, n_rep = 0, n_srv = 0\<rparr>"

section \<open>Invariant\<close>

definition ring_queued :: "vsys \<Rightarrow> nat list" where
  "ring_queued s = map (\<lambda>k. unat (av_ring (vd_avail s) ! (k mod 8))) [n_fetch s..<n_sub s]"

definition ring_reported :: "vsys \<Rightarrow> nat list" where
  "ring_reported s = map (\<lambda>k. unat (ue_id (us_ring (vd_used s) ! (k mod 8)))) [n_srv s..<n_rep s]"

definition pipeline :: "vsys \<Rightarrow> nat list" where
  "pipeline s = ring_queued s @ dev_todo s @ ring_reported s"

abbreviation w_head :: "waiter \<Rightarrow> nat" where
  "w_head w \<equiv> w_idx w ! 0"

definition taken :: "vsys \<Rightarrow> nat list" where
  "taken s = concat (map w_idx (waiters s))"

definition chain_ok :: "vsys \<Rightarrow> waiter \<Rightarrow> bool" where
  "chain_ok s w \<longleftrightarrow> (\<exists>a b c. w_idx w = [a, b, c] \<and> a < 8 \<and> b < 8 \<and> c < 8 \<and>
     d_addr (vd_desc s ! a) = at_ops s a \<and> d_flags (vd_desc s ! a) = 1 \<and> d_next (vd_desc s ! a) = of_nat b \<and>
     d_addr (vd_desc s ! b) = w_buf w \<and> d_flags (vd_desc s ! b) AND 1 = 1 \<and> d_next (vd_desc s ! b) = of_nat c \<and>
     d_addr (vd_desc s ! c) = at_status s a \<and> d_flags (vd_desc s ! c) = 2 \<and>
     br_sector (vd_ops s ! a) = w_sector w \<and> (br_typed (vd_ops s ! a) = VIRTIO_BLK_T_OUT \<longleftrightarrow> w_write w) \<and>
     in_chan (vd_info s ! a) = Some (w_buf w))"

definition shape_ok :: "vsys \<Rightarrow> bool" where
  "shape_ok s \<longleftrightarrow> length (vd_desc s) = 8 \<and> length (vd_free s) = 8 \<and> length (vd_info s) = 8 \<and> length (vd_ops s) = 8 \<and>
     length (av_ring (vd_avail s)) = 8 \<and> length (us_ring (vd_used s)) = 8 \<and>
     inj_on (at_ops s) {..<8} \<and> inj_on (at_status s) {..<8}"

definition counters_ok :: "vsys \<Rightarrow> bool" where
  "counters_ok s \<longleftrightarrow> n_sub s \<le> 65535 \<and> n_fetch s \<le> n_sub s \<and> n_rep s + length (dev_todo s) = n_fetch s \<and> n_srv s \<le> n_rep s \<and>
     av_idx (vd_avail s) = of_nat (n_sub s) \<and> us_idx (vd_used s) = of_nat (n_rep s) \<and> vd_used_idx s = of_nat (n_srv s)"

definition vinv :: "vsys \<Rightarrow> bool" where
  "vinv s \<longleftrightarrow> shape_ok s \<and> counters_ok s \<and> length (waiters s) \<le> 2 \<and> (\<forall>w \<in> set (waiters s). chain_ok s w) \<and>
     distinct (taken s) \<and> (\<forall>i < 8. vd_free s ! i \<longleftrightarrow> i \<notin> set (taken s)) \<and>
     distinct (pipeline s) \<and> set (pipeline s) = w_head ` {w \<in> set (waiters s). in_disk (vd_info s ! w_head w)} \<and>
     (\<forall>w \<in> set (waiters s). w_head w \<in> set (ring_reported s) \<or> \<not> in_disk (vd_info s ! w_head w) \<longrightarrow> w_done w) \<and>
     (\<forall>h \<in> set (ring_reported s). in_status (vd_info s ! h) = 0)"

section \<open>The operations on their own\<close>

lemma alloc_desc_ok:
  assumes "vd_free d ! i" "i < length (vd_free d)"
  obtains a where "alloc_desc d = (Some a, d\<lparr>vd_free := (vd_free d)[a := False]\<rparr>)" "a < length (vd_free d)" "vd_free d ! a"
proof -
  obtain a where "find_index id (vd_free d) = Some a"
    using find_index_ex [OF assms(2), of id] assms(1) by auto
  with find_index_SomeD [OF this] show thesis
    using that [of a] by (simp add: alloc_desc_def)
qed

lemma alloc3_ok:
  assumes "length (vd_free d) = 8" "3 \<le> card {i. i < 8 \<and> vd_free d ! i}"
  obtains a b c where "alloc3_desc d = Some (Some [a, b, c], d\<lparr>vd_free := (vd_free d)[a := False, b := False, c := False]\<rparr>)"
    "a < 8" "b < 8" "c < 8" "distinct [a, b, c]" "vd_free d ! a" "vd_free d ! b" "vd_free d ! c"
proof -
  let ?F = "{i. i < 8 \<and> vd_free d ! i}"
  have fin: "finite ?F" by simp
  have ex: "\<exists>i. i \<in> ?F \<and> i \<notin> set xs" if "length xs < 3" for xs
  proof (rule ccontr)
    assume "\<nexists>i. i \<in> ?F \<and> i \<notin> set xs"
    then have "?F \<subseteq> set xs" by blast
    then have "card ?F \<le> card (set xs)" by (simp add: card_mono)
    with card_length [of xs] that assms(2) show False by simp
  qed
  obtain i where i: "vd_free d ! i" "i < length (vd_free d)" using ex [of "[]"] assms(1) by auto
  obtain a where a: "alloc_desc d = (Some a, d\<lparr>vd_free := (vd_free d)[a := False]\<rparr>)" "a < length (vd_free d)" "vd_free d ! a"
    by (rule alloc_desc_ok [OF i])
  let ?d1 = "d\<lparr>vd_free := (vd_free d)[a := False]\<rparr>"
  obtain i where "i \<in> ?F" "i \<noteq> a" using ex [of "[a]"] by auto
  then have i: "vd_free ?d1 ! i" "i < length (vd_free ?d1)" using assms(1) by simp_all
  obtain b where b: "alloc_desc ?d1 = (Some b, ?d1\<lparr>vd_free := (vd_free ?d1)[b := False]\<rparr>)" "b < length (vd_free ?d1)" "vd_free ?d1 ! b"
    by (rule alloc_desc_ok [OF i])
  let ?d2 = "d\<lparr>vd_free := (vd_free d)[a := False, b := False]\<rparr>"
  have ab: "b \<noteq> a" "vd_free d ! b" using b a(2) assms(1) by (auto simp: nth_list_update split: if_splits)
  obtain i where "i \<in> ?F" "i \<noteq> a" "i \<noteq> b" using ex [of "[a, b]"] by auto
  then have i: "vd_free ?d2 ! i" "i < length (vd_free ?d2)" using assms(1) by simp_all
  obtain c where c: "alloc_desc ?d2 = (Some c, ?d2\<lparr>vd_free := (vd_free ?d2)[c := False]\<rparr>)" "c < length (vd_free ?d2)" "vd_free ?d2 ! c"
    by (rule alloc_desc_ok [OF i])
  have "c \<noteq> a" "c \<noteq> b" "vd_free d ! c" using c a(2) b(2) assms(1) by (auto simp: nth_list_update split: if_splits)
  then show thesis
    using that [of a b c] a b c ab assms(1) by (simp add: alloc3_desc_def)
qed

lemma free_desc_ok:
  assumes "i < 8" "\<not> vd_free d ! i"
  shows "free_desc i d = Some (d\<lparr>vd_desc := (vd_desc d)[i := vq_desc_new], vd_free := (vd_free d)[i := True],
    vd_wakeups := vd_wakeups d @ [at_free d]\<rparr>)"
  using assms by (simp add: free_desc_def VQ_NUM_def vq_desc_new_def)

lemma free_chain_ok:
  assumes "a < 8" "b < 8" "c < 8" "distinct [a, b, c]" "length (vd_desc d) = 8" "length (vd_free d) = 8"
    "\<not> vd_free d ! a" "\<not> vd_free d ! b" "\<not> vd_free d ! c"
    "d_flags (vd_desc d ! a) = 1" "d_next (vd_desc d ! a) = of_nat b"
    "d_flags (vd_desc d ! b) AND 1 = 1" "d_next (vd_desc d ! b) = of_nat c" "d_flags (vd_desc d ! c) = 2"
  shows "free_chain a d = Some (d\<lparr>vd_desc := (vd_desc d)[a := vq_desc_new, b := vq_desc_new, c := vq_desc_new],
    vd_free := (vd_free d)[a := True, b := True, c := True], vd_wakeups := vd_wakeups d @ [at_free d, at_free d, at_free d]\<rparr>)"
proof -
  let ?d1 = "d\<lparr>vd_desc := (vd_desc d)[a := vq_desc_new], vd_free := (vd_free d)[a := True], vd_wakeups := vd_wakeups d @ [at_free d]\<rparr>"
  let ?d2 = "?d1\<lparr>vd_desc := (vd_desc ?d1)[b := vq_desc_new], vd_free := (vd_free ?d1)[b := True], vd_wakeups := vd_wakeups ?d1 @ [at_free d]\<rparr>"
  have u: "unat (of_nat b :: u16) = b" "unat (of_nat c :: u16) = c" using assms(2,3) by (simp_all add: unat_of_nat)
  have "free_chain a d = free_chain b ?d1"
    by (subst free_chain.simps)
      (use assms u in \<open>simp add: free_desc_ok VQ_NUM_def VRING_DESC_F_NEXT_def\<close>)
  also have "free_chain b ?d1 = free_chain c ?d2"
    by (subst free_chain.simps)
      (use assms u in \<open>simp add: free_desc_ok VQ_NUM_def VRING_DESC_F_NEXT_def\<close>)
  also have "\<dots> = Some (d\<lparr>vd_desc := (vd_desc d)[a := vq_desc_new, b := vq_desc_new, c := vq_desc_new],
    vd_free := (vd_free d)[a := True, b := True, c := True], vd_wakeups := vd_wakeups d @ [at_free d, at_free d, at_free d]\<rparr>)"
    by (subst free_chain.simps)
      (use assms in \<open>simp add: free_desc_ok VQ_NUM_def VRING_DESC_F_NEXT_def\<close>)
  finally show ?thesis .
qed

lemma avail_push:
  assumes "length r = 8" "m \<le> n" "n - m < 8"
  shows "map (\<lambda>k. f (r[n mod 8 := x] ! (k mod 8))) [m..<Suc n] = map (\<lambda>k. f (r ! (k mod 8))) [m..<n] @ [f x]"
proof -
  have "k mod 8 \<noteq> n mod 8" if "m \<le> k" "k < n" for k
  proof
    assume "k mod 8 = n mod 8"
    then have "n mod 8 = k mod 8" by simp
    then have "8 dvd n - k" using that by (subst (asm) mod_eq_dvd_iff_nat) simp_all
    then show False using that assms(3) by (auto dest: dvd_imp_le)
  qed
  then have "n mod 8 \<noteq> k mod 8" if "k \<in> {m..<n}" for k using that by (metis atLeastLessThan_iff)
  then show ?thesis using assms by simp
qed

lemma used_index_words:
  assumes "n < 65536"
  shows "unat (of_nat n :: u32) = n" "unat (of_nat n :: u16) = n" "(ucast (of_nat n :: u16) :: u32) = of_nat n"
proof -
  show u: "unat (of_nat n :: u32) = n" "unat (of_nat n :: u16) = n"
    using assms by (simp_all add: unat_of_nat)
  show "(ucast (of_nat n :: u16) :: u32) = of_nat n"
    using u assms by (simp add: word_unat_eq_iff unsigned_ucast_eq take_bit_nat_eq_self)
qed

lemma intr_loop_ok:
  fixes d :: "'z vdisk_scheme"
  assumes "m \<le> n" "n < 65536" "vd_used_idx d = of_nat m" "us_idx (vd_used d) = of_nat n" "length (vd_info d) = 8"
    "H = (\<lambda>k. unat (ue_id (us_ring (vd_used d) ! (k mod 8))))"
    "\<forall>k. m \<le> k \<and> k < n \<longrightarrow> H k < 8 \<and> in_status (vd_info d ! H k) = 0 \<and> in_chan (vd_info d ! H k) \<noteq> None"
  obtains inf wk where "intr_loop d = Some (d\<lparr>vd_info := inf, vd_wakeups := vd_wakeups d @ wk, vd_used_idx := of_nat n\<rparr>)"
    "length inf = 8" "\<forall>i < 8. inf ! i = (if i \<in> H ` {m..<n} then (vd_info d ! i)\<lparr>in_disk := False\<rparr> else vd_info d ! i)"
  using assms
proof (induction "n - m" arbitrary: m d thesis)
  case 0
  then have "m = n" by simp
  with 0 show thesis
    using 0(2) [where inf = "vd_info d" and wk = "[]"] by (simp add: intr_loop.simps [of d] used_index_words)
next
  case (Suc l)
  define h where "h = H m"
  have mn: "m < n" using Suc(2) by simp
  then have h: "h < 8" "in_status (vd_info d ! h) = 0" "in_chan (vd_info d ! h) \<noteq> None"
    using Suc.prems(8) unfolding h_def by auto
  then obtain buf where buf: "in_chan (vd_info d ! h) = Some buf" by blast
  define d' where "d' = d\<lparr>vd_info := (vd_info d)[h := (vd_info d ! h)\<lparr>in_disk := False\<rparr>],
    vd_wakeups := vd_wakeups d @ [buf], vd_used_idx := of_nat (Suc m)\<rparr>"
  have "of_nat m \<noteq> (of_nat n :: u32)"
    using mn Suc.prems(3) used_index_words(1) [of m] used_index_words(1) [of n] by auto
  moreover have "unat (ue_id (us_ring (vd_used d) ! (unat (of_nat m :: u32) mod 8))) = h"
    using mn Suc.prems(3,7) used_index_words(1) [of m] by (simp add: h_def)
  ultimately have step: "intr_loop d = intr_loop d'"
    using Suc.prems(3-6) h buf
    by (subst intr_loop.simps) (simp add: Let_def VQ_NUM_def d'_def used_index_words add.commute)
  have info': "vd_info d' ! i = (if i = h then (vd_info d ! i)\<lparr>in_disk := False\<rparr> else vd_info d ! i)" if "i < 8" for i
    using h(1) Suc.prems(6) that by (simp add: d'_def)
  have pr: "l = n - Suc m" "Suc m \<le> n" "vd_used_idx d' = of_nat (Suc m)" "us_idx (vd_used d') = of_nat n" "length (vd_info d') = 8"
    "H = (\<lambda>k. unat (ue_id (us_ring (vd_used d') ! (k mod 8))))"
    using Suc(2) mn Suc.prems(4-7) by (simp_all add: d'_def)
  have pr7: "\<forall>k. Suc m \<le> k \<and> k < n \<longrightarrow> H k < 8 \<and> in_status (vd_info d' ! H k) = 0 \<and> in_chan (vd_info d' ! H k) \<noteq> None"
  proof (intro allI impI)
    fix k
    assume "Suc m \<le> k \<and> k < n"
    then have "H k < 8 \<and> in_status (vd_info d ! H k) = 0 \<and> in_chan (vd_info d ! H k) \<noteq> None"
      using Suc.prems(8) by simp
    with info' [of "H k"] show "H k < 8 \<and> in_status (vd_info d' ! H k) = 0 \<and> in_chan (vd_info d' ! H k) \<noteq> None" by auto
  qed
  obtain inf wk where r: "intr_loop d' = Some (d'\<lparr>vd_info := inf, vd_wakeups := vd_wakeups d' @ wk, vd_used_idx := of_nat n\<rparr>)"
    "length inf = 8" "\<forall>i < 8. inf ! i = (if i \<in> H ` {Suc m..<n} then (vd_info d' ! i)\<lparr>in_disk := False\<rparr> else vd_info d' ! i)"
    by (rule Suc(1) [OF pr(1) _ pr(2) Suc.prems(3) pr(3-6) pr7])
  have "{m..<n} = insert m {Suc m..<n}" using mn by auto
  then have "\<forall>i < 8. inf ! i = (if i \<in> H ` {m..<n} then (vd_info d ! i)\<lparr>in_disk := False\<rparr> else vd_info d ! i)"
    using r(3) info' by (auto simp: h_def)
  moreover have "intr_loop d = Some (d\<lparr>vd_info := inf, vd_wakeups := vd_wakeups d @ (buf # wk), vd_used_idx := of_nat n\<rparr>)"
    unfolding step r(1) by (simp add: d'_def)
  ultimately show thesis using Suc.prems(1) r(2) by blast
qed

section \<open>The invariant is kept\<close>

lemma vinvD:
  assumes "vinv s"
  shows "shape_ok s" "counters_ok s" "length (waiters s) \<le> 2" "\<And>w. w \<in> set (waiters s) \<Longrightarrow> chain_ok s w"
    "distinct (taken s)" "\<And>i. i < 8 \<Longrightarrow> vd_free s ! i \<longleftrightarrow> i \<notin> set (taken s)" "distinct (pipeline s)"
    "set (pipeline s) = w_head ` {w \<in> set (waiters s). in_disk (vd_info s ! w_head w)}"
    "\<And>w. w \<in> set (waiters s) \<Longrightarrow> w_head w \<in> set (ring_reported s) \<or> \<not> in_disk (vd_info s ! w_head w) \<Longrightarrow> w_done w"
    "\<And>h. h \<in> set (ring_reported s) \<Longrightarrow> in_status (vd_info s ! h) = 0"
  using assms unfolding vinv_def by blast+

lemma chain_okE:
  assumes "chain_ok s w"
  obtains a b c where "w_idx w = [a, b, c]" "a < 8" "b < 8" "c < 8"
    "d_addr (vd_desc s ! a) = at_ops s a" "d_flags (vd_desc s ! a) = 1" "d_next (vd_desc s ! a) = of_nat b"
    "d_addr (vd_desc s ! b) = w_buf w" "d_flags (vd_desc s ! b) AND 1 = 1" "d_next (vd_desc s ! b) = of_nat c"
    "d_addr (vd_desc s ! c) = at_status s a" "d_flags (vd_desc s ! c) = 2"
    "br_sector (vd_ops s ! a) = w_sector w" "br_typed (vd_ops s ! a) = VIRTIO_BLK_T_OUT \<longleftrightarrow> w_write w"
    "in_chan (vd_info s ! a) = Some (w_buf w)"
  using assms by (auto simp: chain_ok_def)

text \<open>A chain is the same in a state that agrees on its descriptors and its head.\<close>

lemma chain_ok_cong:
  assumes "chain_ok s w" "w_idx w' = w_idx w" "w_buf w' = w_buf w" "w_sector w' = w_sector w" "w_write w' = w_write w"
    "\<forall>i \<in> set (w_idx w). vd_desc s' ! i = vd_desc s ! i"
    "vd_ops s' ! w_head w = vd_ops s ! w_head w" "in_chan (vd_info s' ! w_head w) = in_chan (vd_info s ! w_head w)"
    "at_ops s' = at_ops s" "at_status s' = at_status s"
  shows "chain_ok s' w'"
proof -
  obtain a b c where "w_idx w = [a, b, c]" using assms(1) by (rule chain_okE)
  then show ?thesis using assms by (simp add: chain_ok_def)
qed

lemma head_taken:
  assumes "vinv s" "w \<in> set (waiters s)"
  shows "w_head w \<in> set (w_idx w)" "set (w_idx w) \<subseteq> set (taken s)" "w_head w < 8" "length (w_idx w) = 3"
proof -
  obtain a b c where "w_idx w = [a, b, c]" "a < 8" using vinvD(4) [OF assms] by (rule chain_okE)
  then show "w_head w \<in> set (w_idx w)" "w_head w < 8" "length (w_idx w) = 3" by simp_all
  show "set (w_idx w) \<subseteq> set (taken s)" using assms(2) by (auto simp: taken_def)
qed

lemma taken_less: "vinv s \<Longrightarrow> i \<in> set (taken s) \<Longrightarrow> i < 8"
  by (auto simp: taken_def dest!: vinvD(4) elim!: chain_okE)

lemma pipeline_taken: "vinv s \<Longrightarrow> h \<in> set (pipeline s) \<Longrightarrow> h \<in> set (taken s)"
  using head_taken by (fastforce simp: vinvD(8))

lemma length_taken: "vinv s \<Longrightarrow> length (taken s) = 3 * length (waiters s)"
proof -
  assume v: "vinv s"
  have "length (concat (map w_idx ws)) = 3 * length ws" if "set ws \<subseteq> set (waiters s)" for ws
    using that by (induction ws) (use head_taken(4) [OF v] in auto)
  then show ?thesis by (simp add: taken_def)
qed

lemma card_free:
  assumes "vinv s"
  shows "card {i. i < 8 \<and> vd_free s ! i} = 8 - 3 * length (waiters s)"
proof -
  have "{i. i < 8 \<and> vd_free s ! i} = {..<8} - set (taken s)"
    using vinvD(6) [OF assms] by auto
  moreover have "set (taken s) \<subseteq> {..<8}" using taken_less [OF assms] by auto
  ultimately show ?thesis
    using length_taken [OF assms] distinct_card [OF vinvD(5) [OF assms]] by (simp add: card_Diff_subset)
qed

lemma length_pipeline:
  assumes "vinv s"
  shows "length (pipeline s) \<le> length (waiters s)"
proof -
  have "length (pipeline s) = card (set (pipeline s))"
    using distinct_card [OF vinvD(7) [OF assms]] by simp
  also have "set (pipeline s) \<subseteq> w_head ` set (waiters s)" unfolding vinvD(8) [OF assms] by auto
  then have "card (set (pipeline s)) \<le> card (w_head ` set (waiters s))" by (simp add: card_mono)
  also have "\<dots> \<le> length (waiters s)" by (rule order_trans [OF card_image_le card_length]) simp
  finally show ?thesis .
qed

lemma windows_small:
  assumes "vinv s"
  shows "n_sub s - n_fetch s \<le> length (waiters s)" "n_rep s - n_srv s \<le> length (waiters s)" "length (dev_todo s) \<le> length (waiters s)"
  using length_pipeline [OF assms] by (simp_all add: pipeline_def ring_queued_def ring_reported_def)

lemma distinct_heads:
  assumes "vinv s" "w \<in> set (waiters s)" "w' \<in> set (waiters s)" "w_head w = w_head w'"
  shows "w = w'"
proof (rule ccontr)
  assume ne: "w \<noteq> w'"
  from split_list [OF assms(2)] obtain xs ys where ws: "waiters s = xs @ w # ys" by blast
  with assms(3) ne have "w' \<in> set (xs @ ys)" by auto
  then have "set (w_idx w) \<inter> set (w_idx w') = {}"
    using vinvD(5) [OF assms(1)] unfolding taken_def ws by auto
  then show False using head_taken(1) [OF assms(1,2)] head_taken(1) [OF assms(1,3)] assms(4) by auto
qed

lemma rw_begin_ok:
  assumes "vinv s" "length (waiters s) < 2"
  obtains a b c where "rw_begin buf bn wr s = Some (Inr [a, b, c],
      rw_format a b c buf bn wr (s\<lparr>vd_free := (vd_free s)[a := False, b := False, c := False]\<rparr>))"
    "a < 8" "b < 8" "c < 8" "distinct [a, b, c]" "a \<notin> set (taken s)" "b \<notin> set (taken s)" "c \<notin> set (taken s)"
proof -
  have cf: "3 \<le> card {i. i < 8 \<and> vd_free s ! i}" using card_free [OF assms(1)] assms(2) by simp
  have lf: "length (vd_free s) = 8" using vinvD(1) [OF assms(1)] by (simp add: shape_ok_def)
  obtain a b c where "alloc3_desc s = Some (Some [a, b, c], s\<lparr>vd_free := (vd_free s)[a := False, b := False, c := False]\<rparr>)"
    "a < 8" "b < 8" "c < 8" "distinct [a, b, c]" "vd_free s ! a" "vd_free s ! b" "vd_free s ! c"
    by (rule alloc3_ok [OF lf cf]) (rule that, assumption+)
  then show thesis using that [of a b c] vinvD(6) [OF assms(1)] by (simp add: rw_begin_def)
qed

lemma vinv_submit:
  assumes v: "vinv s" and l: "length (waiters s) < 2" and n: "n_sub s < 65535"
    and b: "rw_begin buf bn writing s = Some (Inr idx, s')"
  shows "vinv (s'\<lparr>waiters := waiters s @ [\<lparr>w_idx = idx, w_buf = buf, w_sector = ucast bn * 8, w_write = writing, w_done = False\<rparr>],
                n_sub := Suc (n_sub s)\<rparr>)"
proof -
  define t where "t = s'\<lparr>waiters := waiters s @ [\<lparr>w_idx = idx, w_buf = buf, w_sector = ucast bn * 8, w_write = writing, w_done = False\<rparr>],
    n_sub := Suc (n_sub s)\<rparr>"
  obtain a b c where r: "rw_begin buf bn writing s = Some (Inr [a, b, c],
      rw_format a b c buf bn writing (s\<lparr>vd_free := (vd_free s)[a := False, b := False, c := False]\<rparr>))"
    and abc: "a < 8" "b < 8" "c < 8" "distinct [a, b, c]" "a \<notin> set (taken s)" "b \<notin> set (taken s)" "c \<notin> set (taken s)"
    using v l by (rule rw_begin_ok)
  have s': "s' = rw_format a b c buf bn writing (s\<lparr>vd_free := (vd_free s)[a := False, b := False, c := False]\<rparr>)" and idx: "idx = [a, b, c]"
    using b r by simp_all
  note D = vinvD [OF v]
  have sh: "length (vd_desc s) = 8" "length (vd_free s) = 8" "length (vd_info s) = 8" "length (vd_ops s) = 8"
     "length (av_ring (vd_avail s)) = 8" "length (us_ring (vd_used s)) = 8"
    using D(1) by (simp_all add: shape_ok_def)
  let ?w = "\<lparr>w_idx = [a, b, c], w_buf = buf, w_sector = ucast bn * 8, w_write = writing, w_done = False\<rparr>"
  have desc: "\<forall>i. i \<notin> {a, b, c} \<longrightarrow> vd_desc t ! i = vd_desc s ! i"
    and info: "vd_info t = (vd_info s)[a := (vd_info s ! a)\<lparr>in_status := 0xff, in_disk := True, in_chan := Some buf\<rparr>]"
    and ops: "\<forall>i. i \<noteq> a \<longrightarrow> vd_ops t ! i = vd_ops s ! i"
    and av: "av_ring (vd_avail t) = (av_ring (vd_avail s))[unat (av_idx (vd_avail s)) mod 8 := of_nat a]"
      "av_idx (vd_avail t) = av_idx (vd_avail s) + 1"
    and same: "vd_used t = vd_used s" "vd_used_idx t = vd_used_idx s" "at_ops t = at_ops s" "at_status t = at_status s"
      "n_fetch t = n_fetch s" "n_rep t = n_rep s" "n_srv t = n_srv s" "dev_todo t = dev_todo s" "n_sub t = Suc (n_sub s)"
    and fr: "vd_free t = (vd_free s)[a := False, b := False, c := False]"
    and ws: "waiters t = waiters s @ [?w]"
    using abc sh by (simp_all add: t_def s' idx rw_format_def Let_def vreg_write_def VQ_NUM_def)
  have shape: "shape_ok t"
    using D(1) by (simp add: t_def s' rw_format_def Let_def vreg_write_def shape_ok_def)
  have cnt: "counters_ok t"
    using D(2) n by (simp add: counters_ok_def same av)
  have new: "chain_ok t ?w"
    using abc sh by (simp add: chain_ok_def t_def s' rw_format_def Let_def vreg_write_def BSIZE_def VRING_DESC_F_NEXT_def
        VRING_DESC_F_WRITE_def VIRTIO_BLK_T_OUT_def VIRTIO_BLK_T_IN_def)
  have na: "w_head w \<noteq> a" if "w \<in> set (waiters s)" for w using head_taken(1,2) [OF v that] abc(5) by blast
  have old: "chain_ok t w" if "w \<in> set (waiters s)" for w
  proof -
    have "\<forall>i \<in> set (w_idx w). vd_desc t ! i = vd_desc s ! i"
    proof
      fix i
      assume "i \<in> set (w_idx w)"
      then have "i \<in> set (taken s)" using head_taken(2) [OF v that] by blast
      then have "i \<notin> {a, b, c}" using abc by auto
      then show "vd_desc t ! i = vd_desc s ! i" using desc by blast
    qed
    then show ?thesis
      using chain_ok_cong [OF D(4) [OF that] refl refl refl refl, of t] na [OF that] ops info same by simp
  qed
  have tk: "taken t = taken s @ [a, b, c]" by (simp add: taken_def ws)
  have qd: "ring_queued t = ring_queued s @ [a]"
  proof -
    have "unat (av_idx (vd_avail s)) = n_sub s" using D(2) n by (simp add: counters_ok_def used_index_words)
    moreover have "n_fetch s \<le> n_sub s" using D(2) by (simp add: counters_ok_def)
    moreover have "n_sub s - n_fetch s < 8" using windows_small(1) [OF v] l by simp
    moreover have "unat (of_nat a :: u16) = a" using abc(1) by (simp add: unat_of_nat)
    ultimately show ?thesis
      using avail_push [OF sh(5), of "n_fetch s" "n_sub s" unat "of_nat a"] by (simp add: ring_queued_def av same del: upt_Suc)
  qed
  have rp: "ring_reported t = ring_reported s" by (simp add: ring_reported_def same)
  have rpp: "h \<in> set (pipeline s)" if "h \<in> set (ring_reported s)" for h using that by (simp add: pipeline_def)
  have anp: "a \<notin> set (pipeline s)" using pipeline_taken [OF v] abc(5) by blast
  have inf: "vd_info t ! w_head w = vd_info s ! w_head w" if "w \<in> set (waiters s)" for w using na [OF that] info by simp
  have "set (pipeline t) = insert a (set (pipeline s))" "distinct (pipeline t)"
    using D(7) anp by (auto simp: pipeline_def qd rp same)
  moreover have "insert a (set (pipeline s)) = w_head ` {w \<in> set (waiters t). in_disk (vd_info t ! w_head w)}"
  proof -
    have "in_disk (vd_info t ! w_head ?w)" using info abc(1) sh(3) by simp
    then have "{w \<in> set (waiters t). in_disk (vd_info t ! w_head w)} = insert ?w {w \<in> set (waiters s). in_disk (vd_info s ! w_head w)}"
      unfolding ws using inf by auto
    then show ?thesis unfolding D(8) by simp
  qed
  moreover have "w_done w" if "w \<in> set (waiters t)" "w_head w \<in> set (ring_reported t) \<or> \<not> in_disk (vd_info t ! w_head w)" for w
  proof -
    have "w \<in> set (waiters s)"
      using that anp rpp abc(1) sh(3) unfolding ws rp info by auto
    then show ?thesis using D(9) inf that(2) rp by auto
  qed
  moreover have "in_status (vd_info t ! h) = 0" if "h \<in> set (ring_reported t)" for h
  proof -
    have "h \<noteq> a" using that rpp anp unfolding rp by blast
    then show ?thesis using that D(10) [of h] unfolding rp info by simp
  qed
  moreover have "\<forall>i < 8. vd_free t ! i \<longleftrightarrow> i \<notin> set (taken t)"
    unfolding fr tk using abc sh(2) D(6) by (auto simp: nth_list_update)
  moreover have "distinct (taken t)" unfolding tk using D(5) abc by auto
  moreover have "length (waiters t) \<le> 2" "\<forall>w \<in> set (waiters t). chain_ok t w" unfolding ws using l new old by auto
  ultimately have "vinv t" using shape cnt unfolding vinv_def by (intro conjI) (assumption | simp)+
  then show ?thesis by (simp only: t_def)
qed

lemma chain_ok_same:
  assumes "vd_desc t = vd_desc s" "vd_ops t = vd_ops s" "\<forall>i < 8. in_chan (vd_info t ! i) = in_chan (vd_info s ! i)"
    "at_ops t = at_ops s" "at_status t = at_status s" "w_idx w' = w_idx w" "w_buf w' = w_buf w" "w_sector w' = w_sector w" "w_write w' = w_write w"
    "chain_ok s w"
  shows "chain_ok t w'"
proof -
  obtain a b c where "w_idx w = [a, b, c]" "a < 8" using assms(10) by (rule chain_okE)
  then show ?thesis using chain_ok_cong [OF assms(10,6-9), of t] assms(1-5) by simp
qed

lemma vinv_fetch:
  assumes v: "vinv s" and ne: "of_nat (n_fetch s) \<noteq> av_idx (vd_avail s)"
  shows "vinv (s\<lparr>dev_todo := dev_todo s @ [unat (av_ring (vd_avail s) ! (n_fetch s mod VQ_NUM))], n_fetch := Suc (n_fetch s)\<rparr>)"
proof -
  note D = vinvD [OF v]
  define h where "h = unat (av_ring (vd_avail s) ! (n_fetch s mod 8))"
  define t where "t = s\<lparr>dev_todo := dev_todo s @ [h], n_fetch := Suc (n_fetch s)\<rparr>"
  have lt: "n_fetch s < n_sub s" using D(2) ne by (cases "n_fetch s = n_sub s") (auto simp: counters_ok_def)
  have same: "vd_desc t = vd_desc s" "vd_ops t = vd_ops s" "vd_info t = vd_info s" "at_ops t = at_ops s" "at_status t = at_status s"
    "waiters t = waiters s" "vd_free t = vd_free s" "ring_reported t = ring_reported s" "taken t = taken s"
    by (simp_all add: t_def ring_reported_def taken_def)
  have "ring_queued s = h # ring_queued t"
    using lt by (simp add: ring_queued_def t_def h_def upt_conv_Cons)
  then have "set (pipeline t) = set (pipeline s)" "distinct (pipeline t) = distinct (pipeline s)"
    by (auto simp: pipeline_def t_def ring_reported_def)
  moreover have "counters_ok t" using D(2) lt by (simp add: counters_ok_def t_def)
  moreover have "shape_ok t" using D(1) by (simp add: shape_ok_def t_def)
  moreover have "chain_ok t w" if "w \<in> set (waiters s)" for w
    by (rule chain_ok_same [of t s w w]) (simp_all add: same D(4) [OF that])
  ultimately have "vinv t"
    using D unfolding vinv_def same by simp
  then show ?thesis by (simp add: t_def h_def VQ_NUM_def)
qed

lemma vinv_transfer:
  assumes v: "vinv s" and h: "h \<in> set (dev_todo s)"
    and d: "d0 = vd_desc s ! h" "d1 = vd_desc s ! unat (d_next d0)" "d2 = vd_desc s ! unat (d_next d1)"
      "k < VQ_NUM" "d_addr d0 = at_ops s k" "j < VQ_NUM" "d_addr d2 = at_status s j"
      "sector = br_sector (vd_ops s ! k)" "writing = (br_typed (vd_ops s ! k) = VIRTIO_BLK_T_OUT)" "buf = d_addr d1"
    and s1: "s1 = (if writing then s\<lparr>platter := (platter s)(sector := bufmem s buf)\<rparr>
          else s\<lparr>bufmem := (bufmem s)(buf := platter s sector)\<rparr>)"
    and s2: "s2 = upd_info j (in_status_update (\<lambda>_. 0)) (push_used h s1)"
  shows "vinv (s2\<lparr>waiters := mark_done buf sector writing (waiters s), dev_todo := remove1 h (dev_todo s), n_rep := Suc (n_rep s)\<rparr>)"
proof -
  note D = vinvD [OF v]
  have hp: "h \<in> set (pipeline s)" using h by (simp add: pipeline_def)
  then obtain w where w: "w \<in> set (waiters s)" "w_head w = h" unfolding D(8) by auto
  obtain a b c where c: "w_idx w = [a, b, c]" "a < 8" "b < 8" "c < 8"
    "d_addr (vd_desc s ! a) = at_ops s a" "d_flags (vd_desc s ! a) = 1" "d_next (vd_desc s ! a) = of_nat b"
    "d_addr (vd_desc s ! b) = w_buf w" "d_flags (vd_desc s ! b) AND 1 = 1" "d_next (vd_desc s ! b) = of_nat c"
    "d_addr (vd_desc s ! c) = at_status s a" "d_flags (vd_desc s ! c) = 2"
    "br_sector (vd_ops s ! a) = w_sector w" "br_typed (vd_ops s ! a) = VIRTIO_BLK_T_OUT \<longleftrightarrow> w_write w"
    "in_chan (vd_info s ! a) = Some (w_buf w)"
    using D(4) [OF w(1)] by (rule chain_okE)
  have ha: "h = a" using w(2) c(1) by simp
  have u: "unat (of_nat b :: u16) = b" "unat (of_nat c :: u16) = c" using c(3,4) by (simp_all add: unat_of_nat)
  have inj: "inj_on (at_ops s) {..<8}" "inj_on (at_status s) {..<8}" using D(1) by (simp_all add: shape_ok_def)
  have "k = a" using inj(1) d(1,4,5) c(2,5) ha by (auto simp: VQ_NUM_def dest: inj_onD)
  have "j = a" using inj(2) d(1-3,6,7) c(2,7,10,11) ha u by (auto simp: VQ_NUM_def dest: inj_onD)
  have data: "sector = w_sector w" "writing = w_write w" "buf = w_buf w"
    using d(1,2,8-10) c(7,8,13,14) ha u \<open>k = a\<close> by simp_all
  define g :: "waiter \<Rightarrow> waiter" where "g = (\<lambda>w. if w_buf w = buf \<and> w_sector w = sector \<and> w_write w = writing then w\<lparr>w_done := True\<rparr> else w)"
  have g: "w_idx (g x) = w_idx x" "w_buf (g x) = w_buf x" "w_sector (g x) = w_sector x" "w_write (g x) = w_write x"
    "w_done x \<Longrightarrow> w_done (g x)" for x by (simp_all add: g_def)
  have gw: "w_done (g w)" using data by (simp add: g_def)
  define t where "t = s2\<lparr>waiters := mark_done buf sector writing (waiters s), dev_todo := remove1 h (dev_todo s), n_rep := Suc (n_rep s)\<rparr>"
  have ws: "waiters t = map g (waiters s)" by (simp add: t_def mark_done_def g_def)
  have same: "vd_desc t = vd_desc s" "vd_ops t = vd_ops s" "at_ops t = at_ops s" "at_status t = at_status s" "vd_avail t = vd_avail s"
    "vd_free t = vd_free s" "vd_used_idx t = vd_used_idx s" "n_sub t = n_sub s" "n_fetch t = n_fetch s" "n_srv t = n_srv s"
    "n_rep t = Suc (n_rep s)" "dev_todo t = remove1 h (dev_todo s)"
    and info: "vd_info t = (vd_info s)[a := (vd_info s ! a)\<lparr>in_status := 0\<rparr>]"
    and us: "us_idx (vd_used t) = us_idx (vd_used s) + 1"
      "us_ring (vd_used t) = (us_ring (vd_used s))[unat (us_idx (vd_used s)) mod 8 := \<lparr>ue_id = of_nat h, ue_len = 0\<rparr>]"
    by (simp_all add: t_def s2 s1 push_used_def \<open>j = a\<close> VQ_NUM_def)
  have la: "length (vd_info s) = 8" "length (us_ring (vd_used s)) = 8" using D(1) by (simp_all add: shape_ok_def)
  have it: "in_disk (vd_info t ! i) = in_disk (vd_info s ! i)" "in_chan (vd_info t ! i) = in_chan (vd_info s ! i)" if "i < 8" for i
    using that c(2) la(1) by (simp_all add: info nth_list_update)
  have tk: "taken t = taken s" by (simp add: taken_def ws g(1) comp_def)
  have todo: "0 < length (dev_todo s)" using h by auto
  have rep: "ring_reported t = ring_reported s @ [h]"
  proof -
    have "n_rep s < 65536" using D(2) by (simp add: counters_ok_def)
    then have "unat (us_idx (vd_used s)) = n_rep s" using D(2) by (simp add: counters_ok_def used_index_words)
    moreover have "n_srv s \<le> n_rep s" using D(2) by (simp add: counters_ok_def)
    moreover have "n_rep s - n_srv s < 8" using windows_small(2) [OF v] D(3) by simp
    moreover have "unat (of_nat h :: u32) = h" using c(2) ha by (simp add: unat_of_nat)
    ultimately show ?thesis
      using avail_push [OF la(2), of "n_srv s" "n_rep s" "\<lambda>e. unat (ue_id e)" "\<lparr>ue_id = of_nat h, ue_len = 0\<rparr>"]
      by (simp add: ring_reported_def us same del: upt_Suc)
  qed
  have qd: "ring_queued t = ring_queued s" by (simp add: ring_queued_def same)
  have pl: "set (pipeline t) = set (pipeline s)" "distinct (pipeline t)"
    using D(7) h by (auto simp: pipeline_def qd rep same distinct_remove1 set_remove1_eq dest: notin_set_remove1)
  have w8: "w_head x < 8" if "x \<in> set (waiters s)" for x using head_taken(3) [OF v that] .
  have "set (pipeline t) = w_head ` {w \<in> set (waiters t). in_disk (vd_info t ! w_head w)}"
  proof -
    have "{w \<in> set (waiters t). in_disk (vd_info t ! w_head w)} = g ` {w \<in> set (waiters s). in_disk (vd_info s ! w_head w)}"
      unfolding ws using w8 it(1) by (auto simp: g(1))
    then show ?thesis unfolding pl D(8) by (simp add: image_image g(1))
  qed
  moreover have "w_done y" if y: "y \<in> set (waiters t)" "w_head y \<in> set (ring_reported t) \<or> \<not> in_disk (vd_info t ! w_head y)" for y
  proof -
    obtain x where x: "x \<in> set (waiters s)" "y = g x" using y(1) unfolding ws by auto
    show ?thesis
    proof (cases "x = w")
      case True
      then show ?thesis using gw x(2) by simp
    next
      case False
      then have "w_head x \<noteq> h" using distinct_heads [OF v x(1) w(1)] w(2) by auto
      then have "w_done x" using y(2) D(9) [OF x(1)] w8 [OF x(1)] it(1) unfolding rep x(2) g(1) by auto
      then show ?thesis using g(5) x(2) by simp
    qed
  qed
  moreover have "in_status (vd_info t ! i) = 0" if "i \<in> set (ring_reported t)" for i
    using that D(10) c(2) la(1) ha unfolding rep info by (cases "i = a") auto
  moreover have "chain_ok t y" if y: "y \<in> set (waiters t)" for y
  proof -
    obtain x where x: "x \<in> set (waiters s)" "y = g x" using y unfolding ws by auto
    show ?thesis unfolding x(2)
      by (rule chain_ok_same [of t s "g x" x]) (simp_all add: same it g D(4) [OF x(1)])
  qed
  moreover have "counters_ok t"
  proof -
    have "Suc (length (remove1 h (dev_todo s))) = length (dev_todo s)"
      using h todo by (simp add: length_remove1)
    then show ?thesis using D(2) by (auto simp: counters_ok_def same us)
  qed
  moreover have "shape_ok t" using D(1) by (simp add: shape_ok_def same info us)
  moreover have "length (waiters t) \<le> 2" using D(3) by (simp add: ws)
  ultimately have "vinv t" using D(5,6) pl unfolding vinv_def tk same by blast
  then show ?thesis by (simp only: t_def)
qed

lemma vdisk_intr_ok:
  assumes v: "vinv s"
  obtains inf wk where "vdisk_intr st s = Some (s\<lparr>vd_regs := vd_regs s @ [(VIRTIO_MMIO_INTERRUPT_ACK, st AND 0x3)], vd_info := inf,
      vd_wakeups := vd_wakeups s @ wk, vd_used_idx := of_nat (n_rep s)\<rparr>)"
    "length inf = 8"
    "\<forall>i < 8. inf ! i = (if i \<in> set (ring_reported s) then (vd_info s ! i)\<lparr>in_disk := False\<rparr> else vd_info s ! i)"
proof -
  note D = vinvD [OF v]
  define H where "H = (\<lambda>k. unat (ue_id (us_ring (vd_used s) ! (k mod 8))))"
  have rp: "set (ring_reported s) = H ` {n_srv s..<n_rep s}" by (simp add: ring_reported_def H_def)
  let ?d = "vreg_write VIRTIO_MMIO_INTERRUPT_ACK (st AND 0x3) s"
  have pr: "n_srv s \<le> n_rep s" "n_rep s < 65536" "vd_used_idx ?d = of_nat (n_srv s)" "us_idx (vd_used ?d) = of_nat (n_rep s)"
    "length (vd_info ?d) = 8" "H = (\<lambda>k. unat (ue_id (us_ring (vd_used ?d) ! (k mod 8))))"
    using D(1,2) by (simp_all add: shape_ok_def counters_ok_def vreg_write_def H_def)
  have pr7: "\<forall>k. n_srv s \<le> k \<and> k < n_rep s \<longrightarrow> H k < 8 \<and> in_status (vd_info ?d ! H k) = 0 \<and> in_chan (vd_info ?d ! H k) \<noteq> None"
  proof (intro allI impI)
    fix k
    assume "n_srv s \<le> k \<and> k < n_rep s"
    then have k: "H k \<in> set (ring_reported s)" unfolding rp by simp
    then have "H k \<in> set (pipeline s)" by (simp add: pipeline_def)
    then obtain w where w: "w \<in> set (waiters s)" "H k = w_head w" unfolding D(8) by blast
    obtain a b c where "w_idx w = [a, b, c]" "in_chan (vd_info s ! a) = Some (w_buf w)" using D(4) [OF w(1)] by (rule chain_okE)
    then show "H k < 8 \<and> in_status (vd_info ?d ! H k) = 0 \<and> in_chan (vd_info ?d ! H k) \<noteq> None"
      using head_taken(3) [OF v w(1)] D(10) [OF k] w(2) by (simp add: vreg_write_def)
  qed
  obtain inf wk where "intr_loop ?d = Some (?d\<lparr>vd_info := inf, vd_wakeups := vd_wakeups ?d @ wk, vd_used_idx := of_nat (n_rep s)\<rparr>)"
    "length inf = 8" "\<forall>i < 8. inf ! i = (if i \<in> H ` {n_srv s..<n_rep s} then (vd_info ?d ! i)\<lparr>in_disk := False\<rparr> else vd_info ?d ! i)"
    by (rule intr_loop_ok [OF pr pr7]) (rule that, assumption+)
  then show thesis using that [where inf = inf and wk = wk] unfolding rp vdisk_intr_def by (simp add: vreg_write_def)
qed

lemma vinv_intr:
  assumes v: "vinv s" and i: "vdisk_intr st s = Some s'"
  shows "vinv (s'\<lparr>n_srv := n_rep s\<rparr>)"
proof -
  note D = vinvD [OF v]
  obtain inf wk where r: "vdisk_intr st s = Some (s\<lparr>vd_regs := vd_regs s @ [(VIRTIO_MMIO_INTERRUPT_ACK, st AND 0x3)], vd_info := inf,
      vd_wakeups := vd_wakeups s @ wk, vd_used_idx := of_nat (n_rep s)\<rparr>)"
    "length inf = 8"
    "\<forall>i < 8. inf ! i = (if i \<in> set (ring_reported s) then (vd_info s ! i)\<lparr>in_disk := False\<rparr> else vd_info s ! i)"
    using v by (rule vdisk_intr_ok)
  define t where "t = s'\<lparr>n_srv := n_rep s\<rparr>"
  have same: "vd_desc t = vd_desc s" "vd_ops t = vd_ops s" "at_ops t = at_ops s" "at_status t = at_status s" "waiters t = waiters s"
    "vd_avail t = vd_avail s" "vd_used t = vd_used s" "vd_free t = vd_free s" "n_sub t = n_sub s" "n_fetch t = n_fetch s"
    "n_rep t = n_rep s" "n_srv t = n_rep s" "dev_todo t = dev_todo s" "vd_used_idx t = of_nat (n_rep s)" "vd_info t = inf" "taken t = taken s"
    using i r(1) by (simp_all add: t_def taken_def) (auto simp: taken_def)
  have rep: "ring_reported t = []" by (simp add: ring_reported_def same)
  have qd: "ring_queued t = ring_queued s" by (simp add: ring_queued_def same)
  have w8: "w_head x < 8" if "x \<in> set (waiters s)" for x using head_taken(3) [OF v that] .
  have it: "in_chan (inf ! i) = in_chan (vd_info s ! i)" "in_disk (inf ! i) \<longleftrightarrow> in_disk (vd_info s ! i) \<and> i \<notin> set (ring_reported s)" if "i < 8" for i
    using r(3) that by auto
  have "set (pipeline t) = set (pipeline s) - set (ring_reported s)" "distinct (pipeline t)"
    using D(7) by (auto simp: pipeline_def rep qd same)
  moreover have "set (pipeline s) - set (ring_reported s) = w_head ` {w \<in> set (waiters s). in_disk (inf ! w_head w)}"
    unfolding D(8) using w8 it(2) by auto
  moreover have "w_done w" if "w \<in> set (waiters s)" "\<not> in_disk (inf ! w_head w)" for w
    using D(9) [OF that(1)] that(2) it(2) [OF w8 [OF that(1)]] by blast
  moreover have "chain_ok t w" if "w \<in> set (waiters s)" for w
    by (rule chain_ok_same [of t s w w]) (simp_all add: same it D(4) [OF that])
  moreover have "counters_ok t" using D(2) by (simp add: counters_ok_def same)
  moreover have "shape_ok t" using D(1) r(2) by (simp add: shape_ok_def same)
  ultimately have "vinv t" using D(3,5,6) unfolding vinv_def same rep by simp
  then show ?thesis by (simp only: t_def)
qed

lemma rw_end_ok:
  assumes v: "vinv s" and w: "w \<in> set (waiters s)" "w_idx w = [a, b, c]" and nd: "\<not> in_disk (vd_info s ! w_head w)"
  shows "rw_end (w_idx w) (w_buf w) s = Some (Inr (),
    s\<lparr>vd_info := (vd_info s)[a := (vd_info s ! a)\<lparr>in_chan := None\<rparr>],
      vd_desc := (vd_desc s)[a := vq_desc_new, b := vq_desc_new, c := vq_desc_new],
      vd_free := (vd_free s)[a := True, b := True, c := True],
      vd_wakeups := vd_wakeups s @ [at_free s, at_free s, at_free s]\<rparr>)"
proof -
  note D = vinvD [OF v]
  have c: "a < 8" "b < 8" "c < 8" "d_flags (vd_desc s ! a) = 1" "d_next (vd_desc s ! a) = of_nat b"
    "d_flags (vd_desc s ! b) AND 1 = 1" "d_next (vd_desc s ! b) = of_nat c" "d_flags (vd_desc s ! c) = 2"
    "in_chan (vd_info s ! a) = Some (w_buf w)"
    using D(4) [OF w(1)] w(2) by (auto elim: chain_okE)
  have "{a, b, c} \<subseteq> set (taken s)" using head_taken(2) [OF v w(1)] w(2) by auto
  then have fr: "\<not> vd_free s ! a" "\<not> vd_free s ! b" "\<not> vd_free s ! c" using D(6) c(1-3) by auto
  from split_list [OF w(1)] obtain xs ys where "waiters s = xs @ w # ys" by blast
  then have dis: "distinct [a, b, c]" using D(5) w(2) by (auto simp: taken_def)
  let ?d = "s\<lparr>vd_info := (vd_info s)[a := (vd_info s ! a)\<lparr>in_chan := None\<rparr>]\<rparr>"
  have "length (vd_desc ?d) = 8" "length (vd_free ?d) = 8" using D(1) by (simp_all add: shape_ok_def)
  from free_chain_ok [OF c(1-3) dis this] fr c(4-8)
  show ?thesis using nd w(2) c(9) by (simp add: rw_end_def)
qed

lemma vinv_finish:
  assumes v: "vinv s" and ws: "waiters s = ws1 @ w # ws2" and e: "rw_end (w_idx w) (w_buf w) s = Some (Inr (), s')"
  shows "vinv (s'\<lparr>waiters := ws1 @ ws2\<rparr>)"
proof -
  note D = vinvD [OF v]
  have w: "w \<in> set (waiters s)" by (simp add: ws)
  obtain a b c where idx: "w_idx w = [a, b, c]" "a < 8" "b < 8" "c < 8" using D(4) [OF w] by (rule chain_okE)
  have nd: "\<not> in_disk (vd_info s ! w_head w)" using e by (auto simp: rw_end_def)
  define t where "t = s'\<lparr>waiters := ws1 @ ws2\<rparr>"
  have same: "vd_ops t = vd_ops s" "at_ops t = at_ops s" "at_status t = at_status s" "vd_avail t = vd_avail s" "vd_used t = vd_used s"
    "vd_used_idx t = vd_used_idx s" "n_sub t = n_sub s" "n_fetch t = n_fetch s" "n_rep t = n_rep s" "n_srv t = n_srv s"
    "dev_todo t = dev_todo s" "waiters t = ws1 @ ws2"
    and desc: "vd_desc t = (vd_desc s)[a := vq_desc_new, b := vq_desc_new, c := vq_desc_new]"
    and info: "vd_info t = (vd_info s)[a := (vd_info s ! a)\<lparr>in_chan := None\<rparr>]"
    and fr: "vd_free t = (vd_free s)[a := True, b := True, c := True]"
    using e rw_end_ok [OF v w idx(1) nd] by (auto simp: t_def)
  have rings: "ring_reported t = ring_reported s" "ring_queued t = ring_queued s" "pipeline t = pipeline s"
    by (simp_all add: ring_reported_def ring_queued_def pipeline_def same)
  have sub: "x \<in> set (waiters s)" "x \<noteq> w" "set (w_idx x) \<inter> {a, b, c} = {}" if "x \<in> set (ws1 @ ws2)" for x
  proof -
    show "x \<in> set (waiters s)" using that by (auto simp: ws)
    show d: "set (w_idx x) \<inter> {a, b, c} = {}" using D(5) that idx(1) by (auto simp: taken_def ws)
    show "x \<noteq> w" using d idx(1) by auto
  qed
  have ha: "w_head x \<noteq> a" if "x \<in> set (ws1 @ ws2)" for x
    using sub(3) [OF that] head_taken(1) [OF v sub(1) [OF that]] by auto
  have it: "vd_info t ! w_head x = vd_info s ! w_head x" if "x \<in> set (ws1 @ ws2)" for x
    unfolding info using ha [OF that] by (intro nth_list_update_neq) simp
  have "chain_ok t x" if "x \<in> set (ws1 @ ws2)" for x
  proof (rule chain_ok_cong [OF D(4) [OF sub(1) [OF that]] refl refl refl refl])
    show "\<forall>i \<in> set (w_idx x). vd_desc t ! i = vd_desc s ! i"
    proof
      fix i
      assume "i \<in> set (w_idx x)"
      then have "i \<noteq> a" "i \<noteq> b" "i \<noteq> c" using sub(3) [OF that] by auto
      then show "vd_desc t ! i = vd_desc s ! i" by (simp add: desc)
    qed
  qed (use it [OF that] in \<open>simp_all add: same\<close>)
  moreover have "set (taken t) = set (taken s) - {a, b, c}" "distinct (taken t)"
    using D(5) idx(1) by (auto simp: taken_def ws same)
  moreover have "\<forall>i < 8. vd_free t ! i \<longleftrightarrow> i \<notin> set (taken s) - {a, b, c}"
    using D(1,6) idx by (auto simp: fr nth_list_update shape_ok_def)
  moreover have "set (pipeline s) = w_head ` {w \<in> set (ws1 @ ws2). in_disk (vd_info t ! w_head w)}"
  proof -
    have "{w \<in> set (ws1 @ ws2). in_disk (vd_info t ! w_head w)} = {w \<in> set (waiters s). in_disk (vd_info s ! w_head w)}"
      using it nd unfolding ws by auto
    then show ?thesis using D(8) by simp
  qed
  moreover have "w_done x" if "x \<in> set (ws1 @ ws2)" "w_head x \<in> set (ring_reported s) \<or> \<not> in_disk (vd_info t ! w_head x)" for x
    using D(9) [OF sub(1) [OF that(1)]] that(2) it [OF that(1)] by simp
  moreover have "in_status (vd_info t ! h) = 0" if "h \<in> set (ring_reported s)" for h
    using D(10) [OF that] by (cases "h = a") (use idx(2) D(1) in \<open>simp_all add: info shape_ok_def\<close>)
  moreover have "counters_ok t" using D(2) by (simp add: counters_ok_def same)
  moreover have "shape_ok t" using D(1) by (simp add: shape_ok_def same desc info fr)
  ultimately have "vinv t" using D(3,7) ws unfolding vinv_def rings same by simp
  then show ?thesis by (simp only: t_def)
qed

lemma vinv_step: "vstep s t \<Longrightarrow> vinv s \<Longrightarrow> vinv t"
proof (induction rule: vstep.induct)
  case submit
  then show ?case by (intro vinv_submit)
next
  case fetch
  then show ?case by (intro vinv_fetch)
next
  case transfer
  then show ?case by (intro vinv_transfer)
next
  case intr
  then show ?case by (intro vinv_intr)
next
  case finish
  then show ?case by (intro vinv_finish)
qed

lemma vdisk_init_free:
  assumes "vdisk_init rd d = Some d'"
  shows "\<exists>regs. d' = d\<lparr>vd_regs := regs, vd_free := map (\<lambda>_. True) (vd_free d)\<rparr>"
  using assms by (auto simp: vdisk_init_def vreg_write_def Let_def split: if_splits)

lemma vinv_init:
  assumes "vdisk_init rd (vdisk_new a f ops st) = Some d" "inj_on ops {..<8}" "inj_on st {..<8}"
  shows "vinv (vsys_of d p b)"
proof -
  obtain regs where d: "d = (vdisk_new a f ops st)\<lparr>vd_regs := regs, vd_free := map (\<lambda>_. True) (vd_free (vdisk_new a f ops st))\<rparr>"
    using vdisk_init_free [OF assms(1)] by blast
  show ?thesis
    unfolding d using assms(2,3)
    by (simp add: vinv_def vsys_of_def vdisk.defs vdisk_new_def shape_ok_def counters_ok_def taken_def pipeline_def
        ring_queued_def ring_reported_def VQ_NUM_def vq_avail_new_def vq_used_new_def)
qed

text \<open>C28: with at most two requests at a time, and fewer than 65536 in all, the disk driver is
  sound under every interleaving of processes, device and interrupts.  No reachable state lets the
  interrupt handler panic; the descriptors of the requests under way are disjoint and exactly the others are free; a
  further request can always be made while there are fewer than two; and a process that waits
  for its request either keeps waiting or returns, in the latter case after the device has made the
  transfer between its buffer and its sector.\<close>

theorem virtio_two_requests:
  assumes "vdisk_init rd (vdisk_new a f ops st) = Some d" "inj_on ops {..<8}" "inj_on st {..<8}" "vstep\<^sup>*\<^sup>* (vsys_of d p b) s"
  shows "(\<forall>v. \<exists>s'. vdisk_intr v s = Some s') \<and>
    distinct (concat (map w_idx (waiters s))) \<and> (\<forall>i < 8. vd_free s ! i \<longleftrightarrow> i \<notin> set (concat (map w_idx (waiters s)))) \<and>
    (length (waiters s) < 2 \<longrightarrow> (\<forall>buf bn wr. \<exists>idx s'. rw_begin buf bn wr s = Some (Inr idx, s'))) \<and>
    (\<forall>w \<in> set (waiters s). rw_end (w_idx w) (w_buf w) s = Some (Inl (w_buf w), s) \<or>
       w_done w \<and> (\<exists>s'. rw_end (w_idx w) (w_buf w) s = Some (Inr (), s')))"
proof -
  have v: "vinv s"
    using assms(4) by (induction rule: rtranclp_induct) (auto intro: vinv_init [OF assms(1-3)] vinv_step)
  have "\<exists>s'. vdisk_intr x s = Some s'" for x using v by (rule vdisk_intr_ok) blast
  moreover have "\<exists>idx s'. rw_begin buf bn wr s = Some (Inr idx, s')" if "length (waiters s) < 2" for buf bn wr
    using v that by (rule rw_begin_ok) blast
  moreover have "rw_end (w_idx w) (w_buf w) s = Some (Inl (w_buf w), s) \<or>
       w_done w \<and> (\<exists>s'. rw_end (w_idx w) (w_buf w) s = Some (Inr (), s'))" if w: "w \<in> set (waiters s)" for w
  proof (cases "in_disk (vd_info s ! w_head w)")
    case True
    then show ?thesis by (simp add: rw_end_def)
  next
    case False
    obtain a b c where "w_idx w = [a, b, c]" using vinvD(4) [OF v w] by (rule chain_okE)
    from rw_end_ok [OF v w this False] show ?thesis using vinvD(9) [OF v w] False by blast
  qed
  ultimately show ?thesis using vinvD(5,6) [OF v] by (simp add: taken_def)
qed

definition demo_regs :: "usize \<Rightarrow> u32" where
  "demo_regs r = (if r = 0 then 0x74726976 else if r = 4 then 1 else if r = 8 then 2 else if r = 0xc then 0x554d4551
     else if r = 0x34 then 1024 else 0)"

theorem virtio_two_requests_witness:
  "\<exists>d s. vdisk_init demo_regs (vdisk_new 0x80010000 0x80010100 (\<lambda>i. 0x80010200 + of_nat (16 * i)) (\<lambda>i. 0x80010300 + of_nat (16 * i))) = Some d \<and>
     vstep\<^sup>*\<^sup>* (vsys_of d (\<lambda>_ _. 0) (\<lambda>_ _. 1)) s \<and> length (waiters s) = 1 \<and> (\<forall>v. \<exists>s'. vdisk_intr v s = Some s') \<and>
     (\<forall>buf bn wr. \<exists>idx s'. rw_begin buf bn wr s = Some (Inr idx, s'))"
proof -
  let ?n = "vdisk_new 0x80010000 0x80010100 (\<lambda>i. 0x80010200 + of_nat (16 * i)) (\<lambda>i. 0x80010300 + of_nat (16 * i))"
  have inj: "inj_on (\<lambda>i. x + of_nat (16 * i) :: usize) {..<8}" for x
  proof (rule inj_onI)
    fix i j :: nat
    assume "i \<in> {..<8}" "j \<in> {..<8}" "x + of_nat (16 * i) = (x + of_nat (16 * j) :: usize)"
    then have "unat (of_nat (16 * i) :: usize) = unat (of_nat (16 * j) :: usize)" "i < 8" "j < 8" by simp_all
    then show "i = j" by (simp only: unat_of_nat) simp
  qed
  have "drop_bit 12 (0x80010000 :: usize) < 2 ^ 32" by code_simp
  then obtain d where d: "vdisk_init demo_regs ?n = Some d"
    by (simp add: vdisk_init_def demo_regs_def VIRTIO_MMIO_MAGIC_VALUE_def VIRTIO_MMIO_VERSION_def VIRTIO_MMIO_DEVICE_ID_def
        VIRTIO_MMIO_VENDOR_ID_def VIRTIO_MMIO_QUEUE_NUM_MAX_def VQ_NUM_def vdisk_new_def vreg_write_def Let_def)
  let ?s = "vsys_of d (\<lambda>_ _. 0) (\<lambda>_ _. 1)"
  have w: "waiters ?s = []" "n_sub ?s = 0" by (simp_all add: vsys_of_def vdisk.defs)
  have "length (waiters ?s) < 2" by (simp add: w)
  with virtio_two_requests [OF d inj inj rtranclp.rtrancl_refl] obtain idx s' where "rw_begin 7 3 True ?s = Some (Inr idx, s')"
    by blast
  then have st: "vstep ?s (s'\<lparr>waiters := waiters ?s @ [\<lparr>w_idx = idx, w_buf = 7, w_sector = ucast (3 :: u32) * 8, w_write = True, w_done = False\<rparr>],
      n_sub := Suc (n_sub ?s)\<rparr>)" (is "vstep ?s ?t")
    by (intro vstep.submit) (simp_all add: w)
  have l: "length (waiters ?t) = 1" by (simp add: w)
  have "length (waiters ?t) < 2" unfolding l by simp
  with virtio_two_requests [OF d inj inj r_into_rtranclp, OF st] d r_into_rtranclp [of vstep, OF st] l show ?thesis
    by blast
qed

section \<open>Outside of its conditions\<close>

lemma rw_format_free [simp]: "vd_free (rw_format i j k buf bn wr d) = vd_free d" "at_free (rw_format i j k buf bn wr d) = at_free d"
  by (simp_all add: rw_format_def Let_def vreg_write_def)

text \<open>C29: three simultaneous disk requests bring the kernel down.  On an idle driver two requests take the
  descriptors 0 to 5.  The third finds only 6 and 7, and gives back the descriptors 0 and 1
  instead of these (\<open>free_desc(j)\<close> for \<open>free_desc(idx[j])\<close>).  It sleeps, and when the first request is over,
  its process panics because descriptor 0 is free already.\<close>

theorem virtio_third_request_panics:
  fixes d :: "'z vdisk_scheme"
  assumes "vd_free d = replicate 8 True"
  shows "\<exists>i1 d1 i2 d2 d3. rw_begin b1 n1 w1 d = Some (Inr i1, d1) \<and> rw_begin b2 n2 w2 d1 = Some (Inr i2, d2) \<and>
    rw_begin b3 n3 w3 d2 = Some (Inl (at_free d), d3) \<and> vd_free d3 = [True, True] @ replicate 6 False \<and>
    (\<forall>d4 :: 'z vdisk_scheme. vd_free d4 = vd_free d3 \<and> \<not> in_disk (vd_info d4 ! (i1 ! 0)) \<longrightarrow> rw_end i1 b1 d4 = None)"
proof -
  define d1 where "d1 = rw_format 0 1 2 b1 n1 w1 (d\<lparr>vd_free := [False, False, False, True, True, True, True, True]\<rparr>)"
  define d2 where "d2 = rw_format 3 4 5 b2 n2 w2 (d1\<lparr>vd_free := [False, False, False, False, False, False, True, True]\<rparr>)"
  have r: "replicate 8 True = [True, True, True, True, True, True, True, True]" by (simp add: eval_nat_numeral)
  have 1: "rw_begin b1 n1 w1 d = Some (Inr [0, 1, 2], d1)"
    using assms unfolding r by (simp add: rw_begin_def alloc3_desc_def alloc_desc_def d1_def eval_nat_numeral)
  have f1: "vd_free d1 = [False, False, False, True, True, True, True, True]" "at_free d1 = at_free d" by (simp_all add: d1_def)
  have 2: "rw_begin b2 n2 w2 d1 = Some (Inr [3, 4, 5], d2)"
    using f1 by (simp add: rw_begin_def alloc3_desc_def alloc_desc_def d2_def eval_nat_numeral)
  have f2: "vd_free d2 = [False, False, False, False, False, False, True, True]" "at_free d2 = at_free d" using f1 by (simp_all add: d2_def)
  have 3: "\<exists>d3. rw_begin b3 n3 w3 d2 = Some (Inl (at_free d), d3) \<and> vd_free d3 = [True, True] @ replicate 6 False"
    using f2 by (simp add: rw_begin_def alloc3_desc_def alloc_desc_def free_desc_def VQ_NUM_def upt_rec eval_nat_numeral)
  then obtain d3 where d3: "rw_begin b3 n3 w3 d2 = Some (Inl (at_free d), d3)" "vd_free d3 = [True, True] @ replicate 6 False" by blast
  have "rw_end [0, 1, 2] b1 d4 = None" if "vd_free d4 = vd_free d3 \<and> \<not> in_disk (vd_info d4 ! ([0, 1, 2] ! 0))" for d4 :: "'z vdisk_scheme"
    using that d3(2) by (simp add: rw_end_def free_chain.simps [of 0] free_desc_def)
  then show ?thesis using 1 2 d3 by blast
qed

theorem virtio_third_request_panics_witness:
  "\<exists>i1 d1 i2 d2 d3. rw_begin 7 1 True ((vdisk_new 0 0 of_nat of_nat)\<lparr>vd_free := replicate 8 True\<rparr>) = Some (Inr i1, d1) \<and>
    rw_begin 8 2 True d1 = Some (Inr i2, d2) \<and> rw_begin 9 3 True d2 = Some (Inl 0, d3) \<and>
    vd_free d3 = [True, True] @ replicate 6 False \<and>
    (\<forall>d4 :: vdisk. vd_free d4 = vd_free d3 \<and> \<not> in_disk (vd_info d4 ! (i1 ! 0)) \<longrightarrow> rw_end i1 7 d4 = None)"
proof -
  let ?d = "(vdisk_new 0 0 of_nat of_nat)\<lparr>vd_free := replicate 8 True\<rparr>"
  have "at_free ?d = 0" by (simp add: vdisk_new_def)
  with virtio_third_request_panics [of ?d 7 1 True 8 2 True 9 3 True] show ?thesis by simp
qed

lemma intr_loop_constant:
  fixes d :: "'z vdisk_scheme"
  assumes "length (us_ring (vd_used d)) = 8" "\<forall>e \<in> set (us_ring (vd_used d)). ue_id e = of_nat h" "h < 8" "length (vd_info d) = 8"
    "in_status (vd_info d ! h) = 0" "in_chan (vd_info d ! h) = Some buf"
  shows "\<exists>d'. intr_loop d = Some d' \<and>
    vd_wakeups d' = vd_wakeups d @ replicate (unat (ucast (us_idx (vd_used d)) - vd_used_idx d)) buf"
  using assms
proof (induction "unat (ucast (us_idx (vd_used d)) - vd_used_idx d)" arbitrary: d)
  case 0
  then have "vd_used_idx d = ucast (us_idx (vd_used d))" by (simp add: unat_eq_0)
  then show ?case by (simp add: intr_loop.simps [of d])
next
  case (Suc l)
  have ne: "vd_used_idx d \<noteq> ucast (us_idx (vd_used d))" using Suc(2) by auto
  have "us_ring (vd_used d) ! (unat (vd_used_idx d) mod 8) \<in> set (us_ring (vd_used d))" using Suc.prems(1) by simp
  then have i: "unat (ue_id (us_ring (vd_used d) ! (unat (vd_used_idx d) mod 8))) = h"
    using Suc.prems(2,3) by (simp add: unat_of_nat)
  define d' where "d' = d\<lparr>vd_info := (vd_info d)[h := (vd_info d ! h)\<lparr>in_disk := False\<rparr>],
    vd_wakeups := vd_wakeups d @ [buf], vd_used_idx := vd_used_idx d + 1\<rparr>"
  have step: "intr_loop d = intr_loop d'"
    using ne i Suc.prems(3-6) by (subst intr_loop.simps) (simp add: Let_def VQ_NUM_def d'_def)
  let ?x = "ucast (us_idx (vd_used d)) - vd_used_idx d :: u32"
  have "unat (?x - 1) = unat ?x - 1" using ne by (intro unat_minus_one) simp
  moreover have "?x - 1 = ucast (us_idx (vd_used d')) - vd_used_idx d'" by (simp add: d'_def)
  ultimately have l: "l = unat (ucast (us_idx (vd_used d')) - vd_used_idx d')"
    using Suc(2) by (metis diff_Suc_1)
  obtain e where "intr_loop d' = Some e" "vd_wakeups e = vd_wakeups d' @ replicate l buf"
    using Suc(1) [OF l] Suc.prems l by (auto simp: d'_def)
  then show ?case unfolding step Suc(2) [symmetric] by (simp add: d'_def)
qed

text \<open>C30: the interrupt handler compares its own 32-bit index with the 16-bit index of the device.  When one
  request after the other is made, all with the same head, the 65536th completion brings the
  index of the device back to 0, and the handler runs through its loop until its own index has wrapped
  around too, 4294901761 times, with the lock of the disk held and interrupts off, for the one request that ended.\<close>

theorem virtio_index_wraps:
  fixes d :: "'z vdisk_scheme"
  assumes "length (us_ring (vd_used d)) = 8" "\<forall>e \<in> set (us_ring (vd_used d)). ue_id e = of_nat h" "h < 8" "length (vd_info d) = 8"
    "in_status (vd_info d ! h) = 0" "in_chan (vd_info d ! h) = Some buf" "vd_used_idx d = 65535" "us_idx (vd_used d) = 0"
  shows "\<exists>d'. vdisk_intr v d = Some d' \<and> vd_wakeups d' = vd_wakeups d @ replicate 4294901761 buf"
proof -
  let ?d = "vreg_write VIRTIO_MMIO_INTERRUPT_ACK (v AND 0x3) d"
  have eq: "vd_used ?d = vd_used d" "vd_info ?d = vd_info d" "vd_used_idx ?d = 65535" "vd_wakeups ?d = vd_wakeups d"
    using assms(7) by (simp_all add: vreg_write_def)
  have "unat (ucast (us_idx (vd_used ?d)) - vd_used_idx ?d) = 4294901761" by (simp add: eq assms(8))
  moreover have "\<exists>d'. intr_loop ?d = Some d' \<and>
      vd_wakeups d' = vd_wakeups ?d @ replicate (unat (ucast (us_idx (vd_used ?d)) - vd_used_idx ?d)) buf"
    by (rule intr_loop_constant [of ?d h]) (simp_all add: eq assms)
  ultimately show ?thesis by (simp add: vdisk_intr_def eq)
qed

theorem virtio_index_wraps_witness:
  "\<exists>d'. vdisk_intr 1 ((vdisk_new 0 0 of_nat of_nat)\<lparr>vd_used_idx := 65535,
      vd_info := replicate 8 \<lparr>in_chan = Some 7, in_disk = True, in_status = 0\<rparr>\<rparr>) = Some d' \<and>
    vd_wakeups d' = [] @ replicate 4294901761 7"
proof -
  let ?d = "(vdisk_new 0 0 of_nat of_nat)\<lparr>vd_used_idx := 65535, vd_info := replicate 8 \<lparr>in_chan = Some 7, in_disk = True, in_status = 0\<rparr>\<rparr>"
  have "length (us_ring (vd_used ?d)) = 8" "\<forall>e \<in> set (us_ring (vd_used ?d)). ue_id e = of_nat 0" "length (vd_info ?d) = 8"
    "in_status (vd_info ?d ! 0) = 0" "in_chan (vd_info ?d ! 0) = Some 7" "vd_used_idx ?d = 65535" "us_idx (vd_used ?d) = 0"
    "vd_wakeups ?d = []"
    by (simp_all add: vdisk_new_def vq_used_new_def VQ_NUM_def)
  then show ?thesis using virtio_index_wraps [of ?d 0 7 1] by (simp only: zero_less_numeral simp_thms)
qed

end
