(* ===== verification/User_Heap.thy ===== *)
theory User_Heap
  imports Kalloc
begin

text \<open>
  The heap of user programs: \<open>user/src/allocator.rs\<close>, a second \<open>GlobalAlloc\<close> with a free list of its own that
  grows with the system call \<open>sbrk\<close>.  The list is kept like that of the kernel heap; the functions the two
  allocators have in common are shown to be the same.  The system call is an argument of the operations; its state
  is the field \<open>u_brk\<close>.

  \<open>alloc\<close> calls itself after growing the heap, which need not end: it is a partial function, and
  \<open>None\<close> is a panic or not returning.
\<close>

section \<open>Definitions\<close>

record 'b uheap =
  u_regions :: "list_node list"
  u_init :: bool
  u_brk :: 'b

definition uheap_new :: "'b \<Rightarrow> 'b uheap" where
  "uheap_new b = \<lparr>u_regions = [], u_init = False, u_brk = b\<rparr>"

definition u_end_addr :: "list_node \<Rightarrow> usize" where
  "u_end_addr r = node_start r + node_size r"

definition u_align_up :: "usize \<Rightarrow> usize \<Rightarrow> usize" where
  "u_align_up addr align = (addr + align - 1) AND NOT (align - 1)"

text \<open>\<open>add_free_region\<close>, with its assertions.\<close>

definition u_add_free_region :: "list_node list \<Rightarrow> usize \<Rightarrow> usize \<Rightarrow> list_node list option" where
  "u_add_free_region rs addr sz =
     (let aligned_addr = u_align_up addr alignof_ListNode;
          size_reduction = aligned_addr - addr
      in if \<not> sz > size_reduction then None
         else if \<not> sz - size_reduction \<ge> sizeof_ListNode then None
         else let adjusted_size = sz - size_reduction
              in Some (\<lparr>node_start = aligned_addr, node_size = adjusted_size\<rparr> # rs))"

text \<open>The same as it is written out in \<open>alloc\<close> and \<open>dealloc\<close>: a region that is too small is dropped.\<close>

definition push_region :: "list_node list \<Rightarrow> usize \<Rightarrow> usize \<Rightarrow> list_node list" where
  "push_region rs addr sz =
     (let aligned_addr = u_align_up addr alignof_ListNode;
          size_reduction = aligned_addr - addr
      in if sz > size_reduction \<and> sz - size_reduction \<ge> sizeof_ListNode
         then \<lparr>node_start = aligned_addr, node_size = sz - size_reduction\<rparr> # rs
         else rs)"

definition u_alloc_from_region :: "list_node \<Rightarrow> usize \<Rightarrow> usize \<Rightarrow> unit + usize" where
  "u_alloc_from_region region sz align =
     (let alloc_start = u_align_up (node_start region) align
      in case checked_add alloc_start sz of
           None \<Rightarrow> Err ()
         | Some alloc_end \<Rightarrow>
             if alloc_end > u_end_addr region then Err ()
             else let excess_size = u_end_addr region - alloc_end
                  in if excess_size > 0 \<and> excess_size < sizeof_ListNode then Err ()
                     else Ok alloc_start)"

fun u_find_region :: "list_node list \<Rightarrow> usize \<Rightarrow> usize \<Rightarrow> ((list_node \<times> usize) \<times> list_node list) option" where
  "u_find_region [] sz align = None"
| "u_find_region (region # rs) sz align =
     (case u_alloc_from_region region sz align of
        Inr alloc_start \<Rightarrow> Some ((region, alloc_start), rs)
      | Inl _ \<Rightarrow> map_option (\<lambda>(found, rs'). (found, region # rs')) (u_find_region rs sz align))"

definition u_size_align :: "layout \<Rightarrow> (usize \<times> usize) option" where
  "u_size_align l =
     (let align = max (lalign l) alignof_ListNode
      in if unat (lsize l) > 2 ^ 63 - unat align then None
         else let padded = (lsize l + align - 1) AND NOT (align - 1)
              in Some (max padded sizeof_ListNode, align))"

definition u_init_heap :: "(u32 \<Rightarrow> 'b \<Rightarrow> usize \<times> 'b) \<Rightarrow> 'b uheap \<Rightarrow> 'b uheap option" where
  "u_init_heap sbrk s =
     (if u_init s then Some s
      else let (heap_start, b) = sbrk 4096 (u_brk s) in
        do { rs \<leftarrow> u_add_free_region (u_regions s) heap_start 4096;
             Some \<lparr>u_regions = rs, u_init = True, u_brk = b\<rparr> })"

definition round_pages :: "usize \<Rightarrow> usize" where
  "round_pages sz = (sz + 4096 - 1) div 4096 * 4096"

definition u_grow_heap :: "(u32 \<Rightarrow> 'b \<Rightarrow> usize \<times> 'b) \<Rightarrow> usize \<Rightarrow> 'b uheap \<Rightarrow> ((unit + unit) \<times> 'b uheap) option" where
  "u_grow_heap sbrk sz s =
     (let alloc_size = round_pages sz; (addr, b) = sbrk (ucast alloc_size) (u_brk s) in
      if addr = 0 then Some (Err (), s\<lparr>u_brk := b\<rparr>)
      else do { rs \<leftarrow> u_add_free_region (u_regions s) addr alloc_size;
                Some (Ok (), s\<lparr>u_regions := rs, u_brk := b\<rparr>) })"

text \<open>The parts of \<open>alloc\<close>: the first call sets the heap up, a region is looked for, the heap grows.\<close>

definition u_first :: "(u32 \<Rightarrow> 'b \<Rightarrow> usize \<times> 'b) \<Rightarrow> 'b uheap \<Rightarrow> 'b uheap" where
  "u_first sbrk s =
     (if u_init s then s
      else let (heap_start, b) = sbrk 4096 (u_brk s) in
        \<lparr>u_regions = push_region (u_regions s) heap_start 4096, u_init = True, u_brk = b\<rparr>)"

definition u_take :: "usize \<Rightarrow> usize \<Rightarrow> list_node list \<Rightarrow> (usize \<times> list_node list) option option" where
  "u_take sz align rs =
     (case u_find_region rs sz align of
        None \<Rightarrow> Some None
      | Some ((region, alloc_start), rs') \<Rightarrow> do {
          alloc_end \<leftarrow> checked_add alloc_start sz;
          let excess_size = u_end_addr region - alloc_end;
          Some (Some (alloc_start, if excess_size > 0 then push_region rs' alloc_end excess_size else rs')) })"

partial_function (option) user_alloc ::
  "(u32 \<Rightarrow> 'b \<Rightarrow> usize \<times> 'b) \<Rightarrow> layout \<Rightarrow> 'b uheap \<Rightarrow> (usize \<times> 'b uheap) option" where
  "user_alloc sbrk l s0 =
     (let s = u_first sbrk s0 in
      Option.bind (u_size_align l) (\<lambda>(sz, align).
      Option.bind (u_take sz align (u_regions s)) (\<lambda>found.
        case found of
          Some (p, rs) \<Rightarrow> Some (p, s\<lparr>u_regions := rs\<rparr>)
        | None \<Rightarrow>
            let alloc_size = round_pages sz; (addr, b) = sbrk (ucast alloc_size) (u_brk s) in
            if addr = 0 then Some (0, s\<lparr>u_brk := b\<rparr>)
            else user_alloc sbrk l (s\<lparr>u_regions := push_region (u_regions s) addr alloc_size, u_brk := b\<rparr>))))"

declare user_alloc.simps [code]

definition user_dealloc :: "usize \<Rightarrow> layout \<Rightarrow> 'b uheap \<Rightarrow> 'b uheap option" where
  "user_dealloc p l s = do {
     (sz, _) \<leftarrow> u_size_align l;
     Some (s\<lparr>u_regions := push_region (u_regions s) p sz\<rparr>) }"

section \<open>The same as in the kernel\<close>

lemma user_same:
  "u_end_addr = end_addr" "u_align_up = ll_align_up" "u_add_free_region = add_free_region"
  "u_alloc_from_region = alloc_from_region" "u_find_region = find_region" "u_size_align = size_align"
proof -
  show e: "u_end_addr = end_addr" "u_align_up = ll_align_up"
    by (simp_all add: fun_eq_iff u_end_addr_def end_addr_def u_align_up_def ll_align_up_def)
  show "u_add_free_region = add_free_region" and a: "u_alloc_from_region = alloc_from_region" and "u_size_align = size_align"
    unfolding u_add_free_region_def add_free_region_def u_alloc_from_region_def alloc_from_region_def
        u_size_align_def size_align_def e by (rule refl)+
  have "u_find_region rs sz align = find_region rs sz align" for rs sz align
    by (induction rs) (simp_all add: a split: sum.splits)
  then show "u_find_region = find_region" by (simp add: fun_eq_iff)
qed

text \<open>On regions that pass the assertions of the kernel the two ways to add one agree.\<close>

lemma push_region_eq: "add_free_region rs a sz = Some rs' \<Longrightarrow> push_region rs a sz = rs'"
  by (auto simp: push_region_def add_free_region_def user_same Let_def split: if_splits)

lemma u_take_kalloc:
  assumes "wf_free rs" "valid_layout l" "size_align l = Some (sz, align)" "kalloc rs l = Some (p, rs')"
  shows "u_take sz align rs = Some (if p = 0 then None else Some (p, rs'))"
proof (cases "find_region rs sz align")
  case None
  then show ?thesis using assms(3,4) by (simp add: u_take_def user_same kalloc_def)
next
  case (Some f)
  obtain region start rest where f: "f = ((region, start), rest)" by (metis prod.exhaust)
  have sz: "sz = of_nat (block_size l)" "align = max (lalign l) 8"
    using assms(3) size_align_align by (simp_all add: block_size_def)
  then have "p \<noteq> 0" using kalloc_null_iff [OF assms(1,2,4)] Some by simp
  moreover from assms(3,4) Some f obtain e where "checked_add start sz = Some e" "p = start"
    "rs' = (if end_addr region - e > 0 then push_region rest e (end_addr region - e) else rest)"
    by (auto simp: kalloc_def Let_def dest: push_region_eq split: bind_splits if_splits)
  ultimately show ?thesis using Some f by (simp add: u_take_def user_same)
qed

section \<open>Growing\<close>

lemma unat_round_pages:
  assumes "unat sz \<le> 2 ^ 63"
  shows "unat (round_pages sz) = (unat sz + 4095) div 4096 * 4096"
proof -
  have "sz + 4096 - 1 = 4095 + sz" by simp
  moreover have "unat (4095 + sz) = unat (4095 :: usize) + unat sz"
    using assms by (intro unat_plus_no_overflow) simp
  ultimately have a: "unat (sz + 4096 - 1) = unat sz + 4095" by simp
  have "unat ((sz + 4096 - 1) div 4096) = (unat sz + 4095) div 4096"
    unfolding unat_div a by simp
  moreover have "(unat sz + 4095) div 4096 * 4096 \<le> unat sz + 4095" by simp
  ultimately show ?thesis
    unfolding round_pages_def using assms by (subst unat_mult_lem [THEN iffD1]) simp_all
qed

lemma push_region_page:
  assumes "4096 dvd unat a" "16 \<le> unat n"
  shows "push_region rs a n = \<lparr>node_start = a, node_size = n\<rparr> # rs"
proof (rule push_region_eq, rule add_free_region_aligned)
  have "(8 :: nat) dvd 4096" by simp
  then show "8 dvd unat a" using assms(1) by (rule dvd_trans)
qed (rule assms(2))

lemma user_alloc_found:
  assumes "u_init s" "u_size_align l = Some (sz, align)" "u_take sz align (u_regions s) = Some (Some (p, rs))"
  shows "user_alloc sbrk l s = Some (p, s\<lparr>u_regions := rs\<rparr>)"
  using assms by (subst user_alloc.simps) (simp add: u_first_def)

lemma user_alloc_grow:
  assumes "u_init s" "u_size_align l = Some (sz, align)" "u_take sz align (u_regions s) = Some None"
    "sbrk (ucast (round_pages sz)) (u_brk s) = (a, b)" "a \<noteq> 0"
  shows "user_alloc sbrk l s = user_alloc sbrk l (s\<lparr>u_regions := push_region (u_regions s) a (round_pages sz), u_brk := b\<rparr>)"
  by (subst user_alloc.simps) (simp add: u_first_def assms)

lemma round_4096:
  assumes "8 dvd n" "n mod 4096 \<noteq> 4088"
  shows "(n + 4095) div 4096 * 4096 = n \<or> n + 16 \<le> (n + 4095) div 4096 * (4096 :: nat)"
proof -
  define d r where "d = n div 4096" and "r = n mod 4096"
  have n: "n = 4096 * d + r" "r < 4096" by (simp_all add: d_def r_def)
  have "8 dvd r" using assms(1) by (simp add: r_def dvd_mod)
  then obtain q where q: "r = 8 * q" by auto
  show ?thesis
  proof (cases "r = 0")
    case True
    then show ?thesis using n by simp
  next
    case False
    then have "(n + 4095) div 4096 = Suc d" using n by (intro div_nat_eqI) simp_all
    moreover have "r \<le> 4080" using q n(2) assms(2) by (simp add: r_def)
    ultimately show ?thesis using n by simp
  qed
qed

text \<open>A new run of pages can hold the block unless exactly eight bytes would be left over.\<close>

lemma new_pages_hold:
  assumes "valid_layout l" "size_align l = Some (sz, align)" "unat (lalign l) \<le> 4096" "4096 dvd unat a"
    "block_size l mod 4096 \<noteq> 4088"
  shows "can_hold \<lparr>node_start = a, node_size = round_pages sz\<rparr> (block_size l) (unat align)"
proof -
  obtain sz' align' where v: "size_align l = Some (sz', align')" "is_power_of_two align'" "8 dvd unat sz'" "unat sz' \<le> 2 ^ 63"
    "block_size l = unat sz'" by (rule size_align_valid [OF assms(1)])
  then have eq: "sz' = sz" "align' = align" using assms(2) by simp_all
  have "align = max (lalign l) 8" using assms(2) by (rule size_align_align)
  then have "align \<le> 4096" using assms(3) by (simp add: max_def word_le_nat_alt)
  moreover have "is_power_of_two 4096" by (auto simp: is_power_of_two_iff intro!: exI [of _ 12])
  ultimately have "unat align dvd unat (4096 :: usize)" using v(2) eq by (intro power_of_two_dvd) simp_all
  then have "unat align dvd unat a" using assms(4) by (simp add: dvd_trans)
  then have p: "(unat a + unat align - 1) div unat align * unat align = unat a"
    using v(2) eq by (intro nat_round_up_dvd power_of_two_pos) simp_all
  have n: "unat (round_pages sz) = (unat sz + 4095) div 4096 * 4096" using v(4) eq by (intro unat_round_pages) simp
  have "(unat sz + 4095) div 4096 * 4096 = unat sz \<or> unat sz + 16 \<le> (unat sz + 4095) div 4096 * 4096"
    using assms(5) v(3) unfolding v(5) eq by (intro round_4096)
  then show ?thesis unfolding can_hold_def Let_def by (auto simp: p [unfolded One_nat_def] n v(5) eq)
qed

lemma wf_free_new:
  assumes "wf_free rs" "4096 dvd unat a" "a \<noteq> 0" "unat a + unat n \<le> 2 ^ 63" "16 \<le> unat n"
    "{unat a ..< unat a + unat n} \<inter> free_bytes rs = {}"
  shows "wf_free (\<lparr>node_start = a, node_size = n\<rparr> # rs)"
proof -
  have "(8 :: nat) dvd 4096" by simp
  then have "8 dvd unat a" using assms(2) by (rule dvd_trans)
  then show ?thesis
    using assms by (auto simp: wf_free_def wf_region_def free_bytes_def region_bytes_def unat_gt_0)
qed



section \<open>Not returning\<close>

lemma page_rest_8:
  assumes "n mod 4096 = (4088 :: nat)"
  shows "(n + 4095) div 4096 * 4096 = n + 8"
proof -
  have "n = 4096 * (n div 4096) + 4088" using assms div_mult_mod_eq [of n 4096] by simp
  then obtain d where "n = 4096 * d + 4088" by blast
  then show ?thesis by simp
qed

text \<open>Neither a new run of pages nor the region that a failing \<open>sbrk\<close> makes the allocator add at address 0 can hold the block.\<close>

lemma useless_region:
  assumes "size_align l = Some (sz, 8)" "unat sz mod 4096 = 4088" "unat sz + 4096 \<le> 2 ^ 63"
    "a = -1 \<or> 4096 dvd unat a \<and> a \<noteq> 0 \<and> unat a + unat (round_pages sz) \<le> 2 ^ 63"
  obtains r where "push_region rs a (round_pages sz) = r # rs" "alloc_from_region r sz 8 = Err ()"
proof -
  have n: "unat (round_pages sz) = unat sz + 8"
    using assms(2,3) by (simp add: unat_round_pages page_rest_8)
  have ge: "4088 \<le> unat sz" using assms(2) mod_less_eq_dividend [of "unat sz" 4096] by simp
  have rp: "round_pages sz = sz + 8" using n assms(3) by (simp add: word_unat_eq_iff unat_plus_no_overflow)
  show thesis
  proof (cases "a = -1")
    case True
    have u: "u_align_up (-1) 8 = 0" by (simp add: u_align_up_def)
    let ?r = "\<lparr>node_start = 0, node_size = round_pages sz - 1\<rparr>"
    have m: "unat (round_pages sz - 1) = unat sz + 7" using n by (subst unat_minus_no_underflow) simp_all
    have "push_region rs a (round_pages sz) = ?r # rs"
      using True u n m ge by (simp add: push_region_def Let_def word_less_nat_alt word_le_nat_alt)
    moreover have "alloc_from_region ?r sz 8 = Err ()"
      using assms(3) rp by (simp add: alloc_from_region_def checked_add_def ll_align_up_def end_addr_def Let_def word_less_nat_alt)
    ultimately show thesis by (rule that)
  next
    case False
    then have a: "4096 dvd unat a" "a \<noteq> 0" "unat a + unat (round_pages sz) \<le> 2 ^ 63" using assms(4) by auto
    let ?r = "\<lparr>node_start = a, node_size = round_pages sz\<rparr>"
    have "wf_free (?r # [])" using wf_free_new [of "[]", OF _ a] n ge by (simp add: wf_free_def free_bytes_def)
    then have wf: "wf_region ?r" by (simp add: wf_free_def)
    have "8 dvd unat a" using dvd_trans [of 8 4096, OF _ a(1)] by simp
    then have "(unat a + 8 - 1) div 8 * 8 = unat a" by (intro nat_round_up_dvd) simp_all
    then have "\<not> can_hold ?r (unat sz) (unat (8 :: usize))" by (simp add: can_hold_def Let_def n)
    then have "alloc_from_region ?r sz 8 = Err ()" using alloc_from_region_Err_iff [OF wf, of 8] by simp
    moreover have "push_region rs a (round_pages sz) = ?r # rs" using a(1) n ge by (intro push_region_page) simp_all
    ultimately show thesis using that by blast
  qed
qed

text \<open>C32: an allocation of a size that leaves exactly eight bytes of its last page (4088 bytes, for instance) does not
  return once no block on the free list can hold it.  Eight bytes are too few for a list node, so
  the new pages are refused like the regions before them, and \<open>alloc\<close> calls itself again, without end: also when
  \<open>sbrk\<close> fails, since the allocator compares its result with 0 while a system call that fails gives -1.\<close>

theorem user_alloc_never_returns:
  assumes "size_align l = Some (sz, 8)" "unat sz mod 4096 = 4088" "unat sz + 4096 \<le> 2 ^ 63"
    "\<forall>b. fst (sbrk (ucast (round_pages sz)) b) = -1 \<or> 4096 dvd unat (fst (sbrk (ucast (round_pages sz)) b)) \<and>
       fst (sbrk (ucast (round_pages sz)) b) \<noteq> 0 \<and> unat (fst (sbrk (ucast (round_pages sz)) b)) + unat (round_pages sz) \<le> 2 ^ 63"
    "u_init s" "\<forall>r \<in> set (u_regions s). alloc_from_region r sz 8 = Err ()"
  shows "user_alloc sbrk l s = None"
proof (rule ccontr)
  assume "user_alloc sbrk l s \<noteq> None"
  then obtain y where "user_alloc sbrk l s = Some y" by blast
  then have "size_align l = Some (sz, 8) \<longrightarrow> (\<forall>b. fst (sbrk (ucast (round_pages sz)) b) = -1 \<or>
      4096 dvd unat (fst (sbrk (ucast (round_pages sz)) b)) \<and>
      fst (sbrk (ucast (round_pages sz)) b) \<noteq> 0 \<and> unat (fst (sbrk (ucast (round_pages sz)) b)) + unat (round_pages sz) \<le> 2 ^ 63) \<longrightarrow>
      u_init s \<longrightarrow> (\<exists>r \<in> set (u_regions s). alloc_from_region r sz 8 \<noteq> Err ())"
  proof (induction rule: user_alloc.raw_induct [rotated, consumes 1, case_names step])
    case (step f sbrk l s y)
    show ?case
    proof (intro impI)
      assume l: "size_align l = Some (sz, 8)" and sane: "\<forall>b. fst (sbrk (ucast (round_pages sz)) b) = -1 \<or>
          4096 dvd unat (fst (sbrk (ucast (round_pages sz)) b)) \<and>
          fst (sbrk (ucast (round_pages sz)) b) \<noteq> 0 \<and> unat (fst (sbrk (ucast (round_pages sz)) b)) + unat (round_pages sz) \<le> 2 ^ 63"
        and init: "u_init s"
      show "\<exists>r \<in> set (u_regions s). alloc_from_region r sz 8 \<noteq> Err ()"
      proof (rule ccontr)
        assume "\<not> (\<exists>r \<in> set (u_regions s). alloc_from_region r sz 8 \<noteq> Err ())"
        then have none: "\<forall>r \<in> set (u_regions s). alloc_from_region r sz 8 = Err ()" by blast
        then have "find_region (u_regions s) sz 8 = None" unfolding find_region_None .
        then have take: "u_take sz 8 (u_regions s) = Some None" by (simp add: u_take_def user_same)
        obtain a b where ab: "sbrk (ucast (round_pages sz)) (u_brk s) = (a, b)" by force
        have a: "a = -1 \<or> 4096 dvd unat a \<and> a \<noteq> 0 \<and> unat a + unat (round_pages sz) \<le> 2 ^ 63"
          using sane [THEN spec, of "u_brk s"] unfolding ab by simp
        let ?t = "s\<lparr>u_regions := push_region (u_regions s) a (round_pages sz), u_brk := b\<rparr>"
        have "a \<noteq> 0" using a by auto
        then have "f sbrk l ?t = Some y"
          using step(2) l take ab init by (simp add: user_same u_first_def)
        from step(1) [OF this] l sane init obtain r where r: "r \<in> set (push_region (u_regions s) a (round_pages sz))"
          "alloc_from_region r sz 8 \<noteq> Err ()" by auto
        obtain r' where "push_region (u_regions s) a (round_pages sz) = r' # u_regions s" "alloc_from_region r' sz 8 = Err ()"
          by (rule useless_region [OF l assms(2,3) a])
        then show False using r none by auto
      qed
    qed
  qed
  then show False using assms by blast
qed

theorem user_alloc_never_returns_witness:
  "user_alloc (\<lambda>n b. if b < 0x100000 then (b - b mod 4096 + 4096, b + ucast n) else (-1, b)) \<lparr>lsize = 4088, lalign = 8\<rparr>
     \<lparr>u_regions = [], u_init = True, u_brk = 0x4000 :: usize\<rparr> = None"
proof -
  let ?f = "\<lambda>(n :: u32) (b :: usize). if b < 0x100000 then (b - b mod 4096 + 4096, b + ucast n) else (-1, b)"
  have sa: "size_align \<lparr>lsize = 4088, lalign = 8\<rparr> = Some (4088, 8)" by (simp add: size_align_def Let_def)
  have n: "round_pages 4088 = 4096" by code_simp
  have sane: "4096 dvd unat (b - b mod 4096 + 4096) \<and> b - b mod 4096 + 4096 \<noteq> 0 \<and> unat (b - b mod 4096 + 4096) + 4096 \<le> 2 ^ 63"
    if "b < 0x100000" for b :: usize
  proof -
    have u: "unat b < 0x100000" using that by (simp add: word_less_nat_alt)
    have "unat (b - b mod 4096) = unat b - unat b mod 4096"
      by (subst unat_minus_no_underflow) (simp_all add: unat_mod)
    then have "unat (b - b mod 4096 + 4096) = unat b - unat b mod 4096 + 4096"
      using u by (subst unat_plus_no_overflow) simp_all
    moreover have "4096 dvd unat b - unat b mod 4096 + 4096" by (intro dvd_add dvd_minus_mod dvd_refl)
    ultimately show ?thesis using u by (auto simp: word_unat_eq_iff)
  qed
  show ?thesis
    by (rule user_alloc_never_returns [OF sa]) (use sane in \<open>auto simp: n\<close>)
qed

end
