(* ===== verification/Proc.thy ===== *)
theory Proc
  imports Fs Console Pipe Net Sched Kvm "HOL-Library.List_Lexorder"
begin

text \<open>
  Processes as the system calls see them: the structures of \<open>kernel/src/proc.rs\<close> and
  \<open>kernel/src/file.rs\<close>, the state of the whole kernel, and the helpers that fetch the arguments of a
  system call.

  The state \<open>kernel\<close> extends the file system by the memory, the console, the pipes, the network, the
  open files and the process table.  An \<open>Arc<File>\<close> is an index into \<open>k_files\<close>, where \<open>f_refs\<close> is its
  reference count; an \<open>Arc<SpinLock<FilePipe>>\<close> is an index into \<open>k_pipes\<close>.  These objects are not
  charged to the kernel heap: allocating one succeeds.

  An operation is a function from the state to an outcome and a state, or \<open>None\<close> where the kernel
  panics or waits for a lock or for the log.  An operation that puts its process to sleep ends with
  \<open>Blocked\<close>: it is modelled up to there.  Addresses the linker, the allocator or the compiler choose
  are the fields of \<open>image\<close>.
\<close>

section \<open>Operations on a state\<close>

datatype 'a outcome = Done "'a result" | Blocked | Exited

type_synonym ('k, 'a) sys = "'k \<Rightarrow> ('a outcome \<times> 'k) option"

definition sys_ok :: "'a \<Rightarrow> ('k, 'a) sys" where
  "sys_ok x k = Some (Done (Ok x), k)"

definition sys_err :: "string \<Rightarrow> ('k, 'a) sys" where
  "sys_err e k = Some (Done (Err e), k)"

definition sys_panic :: "('k, 'a) sys" where
  "sys_panic k = None"

text \<open>The operator \<open>?\<close>: errors return to the caller.\<close>

definition sys_then :: "('k, 'a) sys \<Rightarrow> ('a \<Rightarrow> ('k, 'b) sys) \<Rightarrow> ('k, 'b) sys" where
  "sys_then m f k = do {
     (r, k) \<leftarrow> m k;
     case r of
       Done (Ok x) \<Rightarrow> f x k
     | Done (Err e) \<Rightarrow> Some (Done (Err e), k)
     | Blocked \<Rightarrow> Some (Blocked, k)
     | Exited \<Rightarrow> Some (Exited, k) }"

definition sys_seq :: "('k, 'a) sys \<Rightarrow> ('k, 'b) sys \<Rightarrow> ('k, 'b) sys" where
  "sys_seq m m' = sys_then m (\<lambda>_. m')"

text \<open>\<open>or_else\<close>: a handler for the error of an operation.\<close>

definition sys_catch :: "('k, 'a) sys \<Rightarrow> (string \<Rightarrow> ('k, 'a) sys) \<Rightarrow> ('k, 'a) sys" where
  "sys_catch m h k = do {
     (r, k) \<leftarrow> m k;
     case r of Done (Err e) \<Rightarrow> h e k | _ \<Rightarrow> Some (r, k) }"

definition sys_get :: "('k \<Rightarrow> 'a) \<Rightarrow> ('k, 'a) sys" where
  "sys_get f k = Some (Done (Ok (f k)), k)"

definition sys_upd :: "('k \<Rightarrow> 'k) \<Rightarrow> ('k, unit) sys" where
  "sys_upd f k = Some (Done (Ok ()), f k)"

text \<open>Operations of the components, which panic or return a value.\<close>

definition sys_run :: "('k \<Rightarrow> 'k option) \<Rightarrow> ('k, unit) sys" where
  "sys_run f k = map_option (Pair (Done (Ok ()))) (f k)"

definition sys_val :: "('k \<Rightarrow> ('a \<times> 'k) option) \<Rightarrow> ('k, 'a) sys" where
  "sys_val f k = map_option (apfst (\<lambda>x. Done (Ok x))) (f k)"

definition sys_unwrap :: "'a option \<Rightarrow> ('k, 'a) sys" where
  "sys_unwrap v = (case v of None \<Rightarrow> sys_panic | Some x \<Rightarrow> sys_ok x)"

definition sys_of :: "'a result \<Rightarrow> ('k, 'a) sys" where
  "sys_of r k = Some (Done r, k)"

primrec sys_each :: "'i list \<Rightarrow> ('i \<Rightarrow> ('k, unit) sys) \<Rightarrow> ('k, unit) sys" where
  "sys_each [] body = sys_ok ()"
| "sys_each (i # is) body = sys_seq (body i) (sys_each is body)"

section \<open>Structures\<close>

definition MAXARG :: nat where
  "MAXARG = 16"

definition MAXARGLEN :: nat where
  "MAXARGLEN = 64"

record proc_context =
  ctx_ra :: usize
  ctx_sp :: usize
  ctx_s :: "usize list"

definition context_new :: proc_context where
  "context_new = \<lparr>ctx_ra = 0, ctx_sp = 0, ctx_s = replicate 12 0\<rparr>"

text \<open>\<open>clear\<close> leaves \<open>s0\<close> alone.\<close>

definition context_clear :: "proc_context \<Rightarrow> proc_context" where
  "context_clear c = c\<lparr>ctx_ra := 0, ctx_sp := 0, ctx_s := take 1 (ctx_s c) @ replicate 11 0\<rparr>"

datatype tf_reg =
    TF_kernel_satp | TF_kernel_sp | TF_kernel_trap | TF_epc | TF_kernel_hartid | TF_ra | TF_sp | TF_gp | TF_tp
  | TF_t0 | TF_t1 | TF_t2 | TF_s0 | TF_s1
  | TF_a0 | TF_a1 | TF_a2 | TF_a3 | TF_a4 | TF_a5 | TF_a6 | TF_a7
  | TF_s2 | TF_s3 | TF_s4 | TF_s5 | TF_s6 | TF_s7 | TF_s8 | TF_s9 | TF_s10 | TF_s11
  | TF_t3 | TF_t4 | TF_t5 | TF_t6

type_synonym trap_frame = "tf_reg \<Rightarrow> usize"

record vma =
  vma_start :: usize
  vma_end :: usize
  vma_size :: usize
  vma_prot :: usize
  vma_flags :: usize
  vma_fd :: u32

definition MAP_SHARED :: usize where "MAP_SHARED = 1"
definition MAP_PRIVATE :: usize where "MAP_PRIVATE = 2"
definition MAP_ANONYMOUNS :: usize where "MAP_ANONYMOUNS = 4"

text \<open>\<open>BTreeMap<String, String>\<close>: the entries in the order of their keys.\<close>

type_synonym env = "(u8 list \<times> u8 list) list"

fun env_insert :: "u8 list \<Rightarrow> u8 list \<Rightarrow> env \<Rightarrow> env" where
  "env_insert n v [] = [(n, v)]"
| "env_insert n v ((n', v') # e) =
     (if n = n' then (n, v) # e else if n < n' then (n, v) # (n', v') # e else (n', v') # env_insert n v e)"

definition env_remove :: "u8 list \<Rightarrow> env \<Rightarrow> env" where
  "env_remove n e = filter (\<lambda>(n', v). n' \<noteq> n) e"

record proc_data =
  pd_kstack :: usize
  pd_sz :: usize
  pd_table :: "usize option"
  pd_trapframe :: usize
  pd_regs :: trap_frame
  pd_context :: proc_context
  pd_cwd :: "inode option"
  pd_ofiles :: "nat option list"
  pd_vmas :: "vma option list"
  pd_cur_max :: usize
  pd_env :: "env option"

definition proc_data_new :: proc_data where
  "proc_data_new = \<lparr>pd_kstack = 0, pd_sz = 0, pd_table = None, pd_trapframe = 0, pd_regs = (\<lambda>_. 0),
     pd_context = context_new, pd_cwd = None, pd_ofiles = replicate NOFILE None, pd_vmas = replicate 100 None,
     pd_cur_max = MAXVA - 2 * PAGESIZE, pd_env = None\<rparr>"

datatype file_inner = FI_Inode inode usize | FI_Device inode u16 | FI_Pipe nat | FI_Socket socket

record open_file =
  f_readable :: bool
  f_writable :: bool
  f_inner :: file_inner
  f_refs :: nat

record kernel = fs_state +
  k_vm :: vm
  k_console :: console
  k_pipes :: "pipe list"
  k_net :: net
  k_files :: "open_file list"
  k_inner :: "proc_inner list"
  k_data :: "proc_data list"
  k_parents :: "nat option list"
  k_pid :: usize
  k_first :: bool
  k_ticks :: usize

type_synonym 'a ksys = "(kernel, 'a) sys"

record image =
  im_trampoline :: usize
  im_forkret :: usize
  im_usertrap :: usize
  im_kernel_table :: usize
  im_proc :: "nat \<Rightarrow> usize"
  im_pipe :: "nat \<Rightarrow> pipe_chan \<Rightarrow> usize"
  im_console :: usize
  im_udp :: "nat \<Rightarrow> usize"
  im_pad :: "u8 list"

definition upd_proc :: "nat \<Rightarrow> (proc_data \<Rightarrow> proc_data) \<Rightarrow> kernel \<Rightarrow> kernel" where
  "upd_proc p f k = k\<lparr>k_data := (k_data k)[p := f (k_data k ! p)]\<rparr>"

definition upd_inner :: "nat \<Rightarrow> (proc_inner \<Rightarrow> proc_inner) \<Rightarrow> kernel \<Rightarrow> kernel" where
  "upd_inner p f k = k\<lparr>k_inner := (k_inner k)[p := f (k_inner k ! p)]\<rparr>"

definition upd_file :: "nat \<Rightarrow> (open_file \<Rightarrow> open_file) \<Rightarrow> kernel \<Rightarrow> kernel" where
  "upd_file f g k = k\<lparr>k_files := (k_files k)[f := g (k_files k ! f)]\<rparr>"

definition get_data :: "nat \<Rightarrow> proc_data ksys" where
  "get_data p = sys_get (\<lambda>k. k_data k ! p)"

definition set_reg :: "nat \<Rightarrow> tf_reg \<Rightarrow> usize \<Rightarrow> kernel \<Rightarrow> kernel" where
  "set_reg p r v = upd_proc p (pd_regs_update (\<lambda>regs. regs(r := v)))"

text \<open>\<open>sleep\<close> of process \<open>p\<close>, and \<open>wakeup\<close> called by it.\<close>

definition sys_sleep :: "nat \<Rightarrow> usize \<Rightarrow> 'a ksys" where
  "sys_sleep p chan k = Some (Blocked, k\<lparr>k_inner := sleep_on p chan (k_inner k)\<rparr>)"

definition sys_wakeup :: "nat \<Rightarrow> usize \<Rightarrow> unit ksys" where
  "sys_wakeup p chan = sys_upd (\<lambda>k. k\<lparr>k_inner := wakeup (Some p) chan (k_inner k)\<rparr>)"

section \<open>The memory of a process\<close>

definition page_root :: "nat \<Rightarrow> usize ksys" where
  "page_root p = sys_then (get_data p) (\<lambda>d. sys_unwrap (pd_table d))"

definition vm_run :: "(vm \<Rightarrow> ('a result \<times> vm) option) \<Rightarrow> 'a ksys" where
  "vm_run f k = do { (r, v) \<leftarrow> f (k_vm k); Some (Done r, k\<lparr>k_vm := v\<rparr>) }"

definition vm_do :: "(vm \<Rightarrow> vm option) \<Rightarrow> unit ksys" where
  "vm_do f = vm_run (\<lambda>v. map_option (Pair (Ok ())) (f v))"

definition user_copy_out :: "nat \<Rightarrow> usize \<Rightarrow> u8 list \<Rightarrow> unit ksys" where
  "user_copy_out p dstva src = sys_then (page_root p)
     (\<lambda>root. vm_run (\<lambda>v. Some (copy_out root dstva src (of_nat (length src)) v)))"

definition user_copy_in :: "nat \<Rightarrow> usize \<Rightarrow> usize \<Rightarrow> u8 list ksys" where
  "user_copy_in p srcva count = sys_then (page_root p)
     (\<lambda>root k. case copy_in root srcva count (k_vm k) of (Ok _, bs) \<Rightarrow> sys_ok bs k | (Err e, _) \<Rightarrow> sys_err e k)"

section \<open>Arguments of system calls\<close>

definition trap_regs :: "nat \<Rightarrow> trap_frame ksys" where
  "trap_regs p = sys_then (get_data p) (\<lambda>d. if pd_trapframe d = 0 then sys_panic else sys_ok (pd_regs d))"

definition arg_raw :: "nat \<Rightarrow> nat \<Rightarrow> usize ksys" where
  "arg_raw p n = sys_then (trap_regs p) (\<lambda>tf.
     if n = 0 then sys_ok (tf TF_a0)
     else if n = 1 then sys_ok (tf TF_a1)
     else if n = 2 then sys_ok (tf TF_a2)
     else if n = 3 then sys_ok (tf TF_a3)
     else if n = 4 then sys_ok (tf TF_a4)
     else if n = 5 then sys_ok (tf TF_a5)
     else sys_err ''arg raw'')"

definition arg_i32 :: "nat \<Rightarrow> nat \<Rightarrow> u32 ksys" where
  "arg_i32 p n = sys_then (arg_raw p n) (\<lambda>addr. sys_ok (ucast addr))"

definition arg_fd :: "nat \<Rightarrow> nat \<Rightarrow> nat ksys" where
  "arg_fd p n = sys_then (arg_i32 p n) (\<lambda>fd.
     if sint fd < 0 then sys_err ''file descriptor must be greater than or equal to 0''
     else if sint fd \<ge> int NOFILE then sys_err ''file descriptor must be less than NOFILE''
     else sys_then (get_data p) (\<lambda>d.
       if pd_ofiles d ! unat fd = None then sys_err ''file descriptor not allocated''
       else sys_ok (unat fd)))"

text \<open>\<open>fetch_str\<close> fills the slice \<open>dst\<close> and returns the position of the terminator.\<close>

definition fetch_str :: "nat \<Rightarrow> usize \<Rightarrow> u8 list \<Rightarrow> (nat \<times> u8 list) ksys" where
  "fetch_str p addr dst = sys_then (page_root p) (\<lambda>root k.
     case copy_in_str root dst addr (k_vm k) of
       Some (Some (Ok n, buf)) \<Rightarrow> sys_ok (n, buf) k
     | Some (Some (Err e, _)) \<Rightarrow> sys_err e k
     | _ \<Rightarrow> None)"

definition arg_str :: "nat \<Rightarrow> nat \<Rightarrow> u8 list \<Rightarrow> (nat \<times> u8 list) ksys" where
  "arg_str p n dst = sys_then (arg_raw p n) (\<lambda>addr. fetch_str p addr dst)"

definition alloc_fd :: "nat \<Rightarrow> nat option ksys" where
  "alloc_fd p = sys_then (get_data p) (\<lambda>d. sys_ok (find_index (\<lambda>f. f = None) (pd_ofiles d)))"

definition le_u64 :: "u8 list \<Rightarrow> u64" where
  "le_u64 bs = ucast (le_u32 (\<lambda>i. bs ! i) 0) OR push_bit 32 (ucast (le_u32 (\<lambda>i. bs ! i) 4))"

definition u64_bytes :: "u64 \<Rightarrow> u8 list" where
  "u64_bytes w = u32_bytes (ucast w) @ u32_bytes (ucast (drop_bit 32 w))"

definition fetch_addr :: "nat \<Rightarrow> usize \<Rightarrow> usize ksys" where
  "fetch_addr p addr = sys_then (get_data p) (\<lambda>d.
     if addr \<ge> pd_sz d \<or> addr + 8 > pd_sz d then sys_err ''fetch_addr size''
     else sys_then (user_copy_in p addr 8) (\<lambda>bs. sys_ok (le_u64 bs)))"

end
