(* ===== verification/Open_File.thy ===== *)
theory Open_File
  imports Proc
begin

text \<open>
  Open files: \<open>kernel/src/file.rs\<close>.  An operation is called by process \<open>p\<close>; \<open>f\<close> is the index of an
  \<open>Arc<File>\<close>.  Dropping an \<open>Inode\<close> is \<open>iput\<close>, dropping the guard of its data \<open>idata_unlock\<close>.  The page
  table of the calling process is unwrapped at the start of a transfer.
\<close>

definition O_RDONLY :: u32 where "O_RDONLY = 0"
definition O_WRONLY :: u32 where "O_WRONLY = 1"
definition O_RDWR :: u32 where "O_RDWR = 2"
definition O_CREATE :: u32 where "O_CREATE = 0x200"
definition O_TRUNC :: u32 where "O_TRUNC = 0x400"

section \<open>References\<close>

definition new_file :: "bool \<Rightarrow> bool \<Rightarrow> file_inner \<Rightarrow> nat ksys" where
  "new_file readable writable fi k =
     Some (Done (Ok (length (k_files k))),
       k\<lparr>k_files := k_files k @ [\<lparr>f_readable = readable, f_writable = writable, f_inner = fi, f_refs = 1\<rparr>]\<rparr>)"

definition get_file :: "nat \<Rightarrow> open_file ksys" where
  "get_file f = sys_get (\<lambda>k. k_files k ! f)"

definition arc_clone :: "nat \<Rightarrow> unit ksys" where
  "arc_clone f = sys_upd (upd_file f (f_refs_update Suc))"

definition net_run :: "(net \<Rightarrow> ('a \<times> net) option) \<Rightarrow> 'a ksys" where
  "net_run g k = do { (r, n) \<leftarrow> g (k_net k); Some (Done (Ok r), k\<lparr>k_net := n\<rparr>) }"

definition upd_pipe :: "nat \<Rightarrow> pipe \<Rightarrow> kernel \<Rightarrow> kernel" where
  "upd_pipe q pi k = k\<lparr>k_pipes := (k_pipes k)[q := pi]\<rparr>"

definition wake_pipe :: "image \<Rightarrow> nat \<Rightarrow> nat \<Rightarrow> pipe_chan list \<Rightarrow> unit ksys" where
  "wake_pipe im p q chans = sys_each chans (\<lambda>c. sys_wakeup p (im_pipe im q c))"

text \<open>\<open>Drop for File\<close>, with the fields dropped after it, and dropping an \<open>Arc\<close>.\<close>

definition drop_inode :: "inode \<Rightarrow> unit ksys" where
  "drop_inode ip = sys_run (iput (i_index ip))"

definition file_drop :: "image \<Rightarrow> nat \<Rightarrow> open_file \<Rightarrow> unit ksys" where
  "file_drop im p f =
     (case f_inner f of
        FI_Inode ip _ \<Rightarrow> sys_seq (sys_run begin_op) (sys_seq (drop_inode ip) (sys_run end_op))
      | FI_Device ip _ \<Rightarrow> sys_seq (sys_run begin_op) (sys_seq (drop_inode ip) (sys_run end_op))
      | FI_Pipe q \<Rightarrow> sys_then (sys_get (\<lambda>k. pipe_close (f_writable f) (k_pipes k ! q))) (\<lambda>(pi, chans).
          sys_seq (sys_upd (upd_pipe q pi)) (wake_pipe im p q chans))
      | FI_Socket so \<Rightarrow> net_run (\<lambda>n. map_option (Pair ()) (socket_drop so n)))"

definition arc_drop :: "image \<Rightarrow> nat \<Rightarrow> nat \<Rightarrow> unit ksys" where
  "arc_drop im p f =
     sys_seq (sys_upd (upd_file f (f_refs_update (\<lambda>n. n - 1))))
       (sys_then (get_file f) (\<lambda>fl. if f_refs fl = 0 then file_drop im p fl else sys_ok ()))"

section \<open>Opening\<close>

definition file_open :: "nat \<Rightarrow> u8 list \<Rightarrow> u32 \<Rightarrow> nat option ksys" where
  "file_open p path o_mode =
     sys_seq (sys_run begin_op)
     (sys_then (get_data p) (\<lambda>d.
      sys_then (if o_mode AND O_CREATE \<noteq> 0
                then sys_val (\<lambda>k. map_option (apfst Some) (create (pd_cwd d) path File 0 0 k))
                else sys_val (namei (pd_cwd d) path)) (\<lambda>ip.
      case ip of
        None \<Rightarrow> sys_seq (sys_run end_op) (sys_ok None)
      | Some ip \<Rightarrow>
          let i = i_index ip;
              readable = (o_mode AND O_WRONLY = 0);
              writable = (o_mode AND O_WRONLY \<noteq> 0 \<or> o_mode AND O_RDWR \<noteq> 0);
              unlock = sys_upd (idata_unlock i);
              finish = (\<lambda>fi. sys_seq (sys_run end_op) (sys_then (new_file readable writable fi) (\<lambda>f. sys_ok (Some f))))
          in sys_seq (sys_run (ilock ip))
            (sys_then (sys_get (get_type i)) (\<lambda>t.
             case t of
               Empty \<Rightarrow> sys_panic
             | Directory \<Rightarrow>
                 if o_mode \<noteq> O_RDONLY
                 then sys_seq unlock (sys_seq (drop_inode ip) (sys_seq (sys_run end_op) (sys_ok None)))
                 else sys_seq unlock (finish (FI_Inode ip 0))
             | File \<Rightarrow>
                 sys_seq (if o_mode AND O_TRUNC \<noteq> 0 then sys_run (itrunc i) else sys_ok ())
                   (sys_seq unlock (finish (FI_Inode ip 0)))
             | Device \<Rightarrow> sys_then (sys_get (get_major i)) (\<lambda>major. sys_seq unlock (finish (FI_Device ip major))))))))"

definition alloc_pipe :: "(nat \<times> nat) ksys" where
  "alloc_pipe =
     sys_then (sys_get (\<lambda>k. length (k_pipes k))) (\<lambda>q.
     sys_seq (sys_upd (\<lambda>k. k\<lparr>k_pipes := k_pipes k @ [pipe_new]\<rparr>))
     (sys_then (new_file True False (FI_Pipe q)) (\<lambda>rf.
      sys_then (new_file False True (FI_Pipe q)) (\<lambda>wf. sys_ok (rf, wf)))))"

definition alloc_socket :: "u16 \<Rightarrow> u8 \<Rightarrow> u8 \<Rightarrow> nat ksys" where
  "alloc_socket domain t protocol =
     sys_then (net_run (socket_new t)) (\<lambda>r.
     sys_then (sys_of r) (\<lambda>so. new_file True True (FI_Socket so)))"

section \<open>Transfers\<close>

definition user_fetch :: "usize \<Rightarrow> usize \<Rightarrow> vm \<Rightarrow> nat \<Rightarrow> u8 option" where
  "user_fetch root addr v i =
     (case copy_in root (addr + of_nat i) 1 v of (Ok _, bs) \<Rightarrow> Some (hd bs) | (Err _, _) \<Rightarrow> None)"

definition user_put :: "usize \<Rightarrow> usize \<Rightarrow> vm \<Rightarrow> nat \<Rightarrow> u8 \<Rightarrow> vm option" where
  "user_put root addr v i c =
     (case copy_out root (addr + of_nat i) [c] 1 v of (Ok _, v) \<Rightarrow> Some v | (Err _, _) \<Rightarrow> None)"

text \<open>\<open>either_copy_in\<close> and \<open>either_copy_out\<close> for the user, at an address that moves on.\<close>

definition user_source :: "usize \<Rightarrow> usize \<times> vm \<Rightarrow> nat \<Rightarrow> (u8 list \<times> usize \<times> vm) option" where
  "user_source root = (\<lambda>(addr, v) n.
     case copy_in root addr (of_nat n) v of (Ok _, bs) \<Rightarrow> Some (bs, addr + of_nat n, v) | (Err _, _) \<Rightarrow> None)"

definition user_sink :: "usize \<Rightarrow> usize \<times> vm \<Rightarrow> u8 list \<Rightarrow> (usize \<times> vm) option" where
  "user_sink root = (\<lambda>(addr, v) bs.
     case copy_out root addr bs (of_nat (length bs)) v of
       (Ok _, v) \<Rightarrow> Some (addr + of_nat (length bs), v) | (Err _, _) \<Rightarrow> None)"

definition device_write :: "nat \<Rightarrow> u16 \<Rightarrow> usize \<Rightarrow> usize \<Rightarrow> usize ksys" where
  "device_write p major addr n =
     (if major \<noteq> 1 then sys_panic
      else sys_then (page_root p) (\<lambda>root k. do {
        (r, c) \<leftarrow> console_write (user_fetch root addr (k_vm k)) (unat n) (k_console k);
        let k = k\<lparr>k_console := c\<rparr>;
        case r of None \<Rightarrow> sys_ok n k | Some (_, chan) \<Rightarrow> sys_sleep p chan k }))"

definition file_pipe_write :: "image \<Rightarrow> nat \<Rightarrow> nat \<Rightarrow> usize \<Rightarrow> usize \<Rightarrow> usize ksys" where
  "file_pipe_write im p q addr n = sys_then (page_root p) (\<lambda>root k.
     let (r, pi, chans) = pipe_write (user_fetch root addr (k_vm k)) (unat n) (k_pipes k ! q) in
     sys_seq (sys_upd (upd_pipe q pi)) (sys_seq (wake_pipe im p q chans)
       (case r of
          Sleeps c _ \<Rightarrow> sys_sleep p (im_pipe im q c)
        | Returns (Err e) \<Rightarrow> sys_err e
        | Returns (Ok i) \<Rightarrow> sys_ok (of_nat i))) k)"

definition file_inode_write :: "nat \<Rightarrow> nat \<Rightarrow> inode \<Rightarrow> usize \<Rightarrow> usize \<Rightarrow> usize \<Rightarrow> usize ksys" where
  "file_inode_write p f ip offset addr n =
     sys_seq (sys_run begin_op) (sys_seq (sys_run (ilock ip)) (sys_then (page_root p) (\<lambda>root k. do {
       let i = i_index ip;
       (r, (_, v), k) \<leftarrow> writei (user_source root) i offset n (addr, k_vm k) k;
       case r of
         Err _ \<Rightarrow> sys_err ''cannot write the file'' (idata_unlock i k)
       | Ok _ \<Rightarrow> sys_seq (sys_upd (upd_file f (f_inner_update (\<lambda>_. FI_Inode ip (offset + n)))))
           (sys_seq (sys_upd (idata_unlock i)) (sys_seq (sys_run end_op) (sys_ok n))) k })))"

definition socket_file_write :: "nat \<Rightarrow> socket \<Rightarrow> usize \<Rightarrow> usize \<Rightarrow> usize ksys" where
  "socket_file_write p so addr n = sys_then (page_root p) (\<lambda>root k.
     sys_then (net_run (socket_write (\<lambda>m. copy_in root addr (of_nat m) (k_vm k)) so n)) sys_of k)"

definition file_write :: "image \<Rightarrow> nat \<Rightarrow> nat \<Rightarrow> usize \<Rightarrow> usize \<Rightarrow> usize ksys" where
  "file_write im p f addr n = sys_then (get_file f) (\<lambda>fl.
     if \<not> f_writable fl then sys_err ''write: not writable''
     else case f_inner fl of
         FI_Device _ major \<Rightarrow> device_write p major addr n
       | FI_Pipe q \<Rightarrow> file_pipe_write im p q addr n
       | FI_Socket so \<Rightarrow> socket_file_write p so addr n
       | FI_Inode ip offset \<Rightarrow> file_inode_write p f ip offset addr n)"

text \<open>The loop over a pipe counts up to \<open>n as isize\<close>.\<close>

definition device_read :: "image \<Rightarrow> nat \<Rightarrow> u16 \<Rightarrow> usize \<Rightarrow> usize \<Rightarrow> usize ksys" where
  "device_read im p major addr n =
     (if major \<noteq> 1 then sys_panic
      else sys_then (page_root p) (\<lambda>root k. do {
        (r, v, c) \<leftarrow> console_read (user_put root addr) (unat n) (k_vm k) (k_console k);
        let k = k\<lparr>k_vm := v, k_console := c\<rparr>;
        case r of Read_Done m \<Rightarrow> sys_ok (of_nat m) k | Read_Sleeps _ \<Rightarrow> sys_sleep p (im_console im) k }))"

definition file_pipe_read :: "image \<Rightarrow> nat \<Rightarrow> nat \<Rightarrow> usize \<Rightarrow> usize \<Rightarrow> usize ksys" where
  "file_pipe_read im p q addr n = sys_then (page_root p) (\<lambda>root k.
     let (r, v, pi, chans) = pipe_read (user_put root addr) (nat (sint n)) (k_vm k) (k_pipes k ! q) in
     sys_seq (sys_upd (\<lambda>k. upd_pipe q pi (k\<lparr>k_vm := v\<rparr>))) (sys_seq (wake_pipe im p q chans)
       (case r of
          Sleeps c _ \<Rightarrow> sys_sleep p (im_pipe im q c)
        | Returns (Err e) \<Rightarrow> sys_err e
        | Returns (Ok i) \<Rightarrow> sys_ok (of_nat i))) k)"

definition file_inode_read :: "nat \<Rightarrow> nat \<Rightarrow> inode \<Rightarrow> usize \<Rightarrow> usize \<Rightarrow> usize \<Rightarrow> usize ksys" where
  "file_inode_read p f ip offset addr n =
     sys_seq (sys_run (ilock ip)) (sys_then (page_root p) (\<lambda>root k. do {
       let i = i_index ip;
       (r, (_, v), k) \<leftarrow> readi (user_sink root) i offset n (addr, k_vm k) k;
       let k = k\<lparr>k_vm := v\<rparr>;
       case r of
         Err _ \<Rightarrow> sys_err ''cannot read the file'' (idata_unlock i k)
       | Ok m \<Rightarrow> sys_seq (sys_upd (upd_file f (f_inner_update (\<lambda>_. FI_Inode ip (offset + m)))))
           (sys_seq (sys_upd (idata_unlock i)) (sys_ok m)) k }))"

definition socket_file_read :: "image \<Rightarrow> nat \<Rightarrow> socket \<Rightarrow> usize \<Rightarrow> usize \<Rightarrow> usize ksys" where
  "socket_file_read im p so addr n = sys_then (page_root p) (\<lambda>root k. do {
     (r, v, nt) \<leftarrow> socket_read (\<lambda>v bs. copy_out root addr bs (of_nat (length bs)) v) so n (k_vm k) (k_net k);
     let k = k\<lparr>k_vm := v, k_net := nt\<rparr>;
     case r of None \<Rightarrow> sys_sleep p (im_udp im (so_cb_idx so)) k | Some r \<Rightarrow> sys_of r k })"

definition file_read :: "image \<Rightarrow> nat \<Rightarrow> nat \<Rightarrow> usize \<Rightarrow> usize \<Rightarrow> usize ksys" where
  "file_read im p f addr n = sys_then (get_file f) (\<lambda>fl.
     if \<not> f_readable fl then sys_err ''read: not readable''
     else case f_inner fl of
         FI_Device _ major \<Rightarrow> device_read im p major addr n
       | FI_Inode ip offset \<Rightarrow> file_inode_read p f ip offset addr n
       | FI_Pipe q \<Rightarrow> file_pipe_read im p q addr n
       | FI_Socket so \<Rightarrow> socket_file_read im p so addr n)"

definition inode_stat :: "inode \<Rightarrow> file_stat ksys" where
  "inode_stat ip = sys_seq (sys_run (ilock ip)) (sys_then (sys_get (stati (i_index ip))) (\<lambda>st.
     sys_then (sys_unwrap st) (\<lambda>st. sys_seq (sys_upd (idata_unlock (i_index ip))) (sys_ok st))))"

definition file_stat_of :: "nat \<Rightarrow> file_stat \<Rightarrow> file_stat ksys" where
  "file_stat_of f st = sys_then (get_file f) (\<lambda>fl.
     case f_inner fl of
       FI_Inode ip _ \<Rightarrow> inode_stat ip
     | FI_Device ip _ \<Rightarrow> inode_stat ip
     | FI_Pipe _ \<Rightarrow> sys_ok st
     | FI_Socket _ \<Rightarrow> sys_ok st)"

definition get_socket :: "open_file \<Rightarrow> socket option" where
  "get_socket fl = (case f_inner fl of FI_Socket so \<Rightarrow> Some so | _ \<Rightarrow> None)"

definition file_seek :: "nat \<Rightarrow> usize \<Rightarrow> unit ksys" where
  "file_seek f offset = sys_then (get_file f) (\<lambda>fl.
     case f_inner fl of
       FI_Inode ip _ \<Rightarrow> sys_seq (sys_run (ilock ip))
         (sys_seq (sys_upd (upd_file f (f_inner_update (\<lambda>_. FI_Inode ip offset)))) (sys_upd (idata_unlock (i_index ip))))
     | _ \<Rightarrow> sys_panic)"

end
