(* ===== verification/Process.thy ===== *)
theory Process
  imports Open_File
begin

text \<open>
  The life of a process: \<open>kernel/src/process.rs\<close> and the operations of \<open>ProcData\<close> and \<open>Proc\<close> in
  \<open>kernel/src/proc.rs\<close> that create, copy, free and map its memory.  The spin locks of the table are
  held inside one operation only and are left out.
\<close>

section \<open>Memory of a process\<close>

definition init_page_table :: "image \<Rightarrow> nat \<Rightarrow> bool ksys" where
  "init_page_table im p =
     sys_then (vm_run (\<lambda>v. map_option (apfst Ok) (alloc_data_page v))) (\<lambda>tf.
     case tf of
       None \<Rightarrow> sys_ok False
     | Some tf \<Rightarrow>
         sys_seq (sys_upd (upd_proc p (\<lambda>d. d\<lparr>pd_trapframe := tf, pd_regs := (\<lambda>_. 0)\<rparr>)))
         (sys_then (vm_run (\<lambda>v. map_option (apfst Ok) (alloc_user_page_table (im_trampoline im) tf v))) (\<lambda>pgt.
          case pgt of
            None \<Rightarrow> sys_ok False
          | Some pgt \<Rightarrow> sys_seq (sys_upd (upd_proc p (pd_table_update (\<lambda>_. Some pgt)))) (sys_ok True))))"

definition init_context :: "image \<Rightarrow> proc_data \<Rightarrow> proc_data" where
  "init_context im d =
     d\<lparr>pd_context := (context_clear (pd_context d))\<lparr>ctx_ra := im_forkret im, ctx_sp := pd_kstack d + KSTACK_SIZE\<rparr>,
       pd_env := Some (case pd_env d of None \<Rightarrow> [] | Some e \<Rightarrow> e)\<rparr>"

definition INITCODE :: "u8 list" where
  "INITCODE =
    [0x17, 0x05, 0x00, 0x00, 0x13, 0x05, 0x05, 0x02, 0x97, 0x05, 0x00, 0x00, 0x93, 0x85, 0x05, 0x02,
     0x9d, 0x48, 0x73, 0x00, 0x00, 0x00, 0x89, 0x48, 0x73, 0x00, 0x00, 0x00, 0xef, 0xf0, 0xbf, 0xff,
     0x2f, 0x69, 0x6e, 0x69, 0x74, 0x00, 0x00, 0x01, 0x20, 0x00, 0x00, 0x00, 0x00, 0x00, 0x00, 0x00,
     0x00, 0x00, 0x00]"

definition proc_user_init :: "nat \<Rightarrow> unit ksys" where
  "proc_user_init p =
     sys_then (page_root p) (\<lambda>root.
     sys_seq (vm_run (uvm_init root INITCODE))
     (sys_seq (sys_upd (upd_proc p (pd_sz_update (\<lambda>_. PAGESIZE))))
     (sys_then (trap_regs p) (\<lambda>_.
      sys_seq (sys_upd (set_reg p TF_epc 0))
      (sys_seq (sys_upd (set_reg p TF_sp PAGESIZE))
      (sys_then (sys_val (namei None [47, 0])) (\<lambda>ip.
       sys_then (sys_unwrap ip) (\<lambda>ip. sys_upd (upd_proc p (pd_cwd_update (\<lambda>_. Some ip)))))))))))"

text \<open>\<open>setup_user_ret\<close> returns the value for \<open>satp\<close>.\<close>

definition setup_user_ret :: "image \<Rightarrow> usize \<Rightarrow> usize \<Rightarrow> nat \<Rightarrow> usize ksys" where
  "setup_user_ret im satp cpu_id p =
     sys_then (trap_regs p) (\<lambda>_. sys_then (get_data p) (\<lambda>d.
       sys_seq (sys_upd (set_reg p TF_kernel_satp satp))
       (sys_seq (sys_upd (set_reg p TF_kernel_sp (pd_kstack d + KSTACK_SIZE)))
       (sys_seq (sys_upd (set_reg p TF_kernel_trap (im_usertrap im)))
       (sys_seq (sys_upd (set_reg p TF_kernel_hartid cpu_id))
       (sys_then (page_root p) (\<lambda>root. sys_ok (as_satp root))))))))"

text \<open>\<open>free\<close>: the pages mapped by \<open>mmap\<close> are unmapped one by one, where they are mapped.\<close>

definition unmap_if_mapped :: "usize \<Rightarrow> usize \<Rightarrow> unit ksys" where
  "unmap_if_mapped root va k =
     (case walk_addr root va (k_vm k) of
        Err _ \<Rightarrow> sys_ok () k
      | Ok _ \<Rightarrow> vm_run (unmap_pages root va 1 True) k)"

definition expect_sys :: "'a ksys \<Rightarrow> 'a ksys" where
  "expect_sys m = sys_catch m (\<lambda>_. sys_panic)"

definition unmap_vma :: "usize \<Rightarrow> vma option \<Rightarrow> unit ksys" where
  "unmap_vma root vm =
     (case vm of
        None \<Rightarrow> sys_ok ()
      | Some vm \<Rightarrow> sys_each (page_range (vma_start vm) (vma_end vm)) (\<lambda>va. expect_sys (unmap_if_mapped root va)))"

definition free_memory :: "nat \<Rightarrow> unit ksys" where
  "free_memory p = sys_then (get_data p) (\<lambda>d.
     case pd_table d of
       None \<Rightarrow> sys_ok ()
     | Some root \<Rightarrow>
         sys_seq (vm_do (unmap_user_page_table root (pd_sz d)))
         (sys_seq (sys_each (pd_vmas d) (unmap_vma root))
         (sys_seq (sys_upd (upd_proc p (pd_vmas_update (map (\<lambda>_. None)))))
         (vm_do (free_table 3 root)))))"

definition proc_free :: "nat \<Rightarrow> unit ksys" where
  "proc_free p = sys_then (get_data p) (\<lambda>d.
     sys_seq (if pd_trapframe d \<noteq> 0
              then sys_seq (vm_do (free_page (pd_trapframe d))) (sys_upd (upd_proc p (pd_trapframe_update (\<lambda>_. 0))))
              else sys_ok ())
     (sys_seq (free_memory p)
     (sys_seq (sys_upd (upd_proc p (\<lambda>d. d\<lparr>pd_table := None, pd_cur_max := MAXVA - 2 * PAGESIZE, pd_sz := 0,
                 pd_env := map_option (\<lambda>_. []) (pd_env d)\<rparr>)))
     (sys_upd (upd_inner p (\<lambda>i. i\<lparr>p_state := Unused, p_chan := 0, p_pid := 0, p_killed := False, p_exit_status := 0\<rparr>))))))"

section \<open>The process table\<close>

definition quad_layout :: layout where
  "quad_layout = \<lparr>lsize = 4 * PAGESIZE, lalign = PAGESIZE\<rparr>"

definition alloc_quad_page :: "vm \<Rightarrow> (usize option \<times> vm) option" where
  "alloc_quad_page s = do {
     (p, h) \<leftarrow> kalloc (heap s) quad_layout;
     if p = 0 then Some (None, s\<lparr>heap := h\<rparr>)
     else Some (Some p, s\<lparr>heap := h,
       bytes := (\<lambda>a. if unat p \<le> unat a \<and> unat a < unat p + 4 * 4096 then 0 else bytes s a)\<rparr>) }"

definition process_init :: "image \<Rightarrow> unit ksys" where
  "process_init im = sys_each [0..<NPROC] (\<lambda>i.
     let va = TRAMPOLINE - (of_nat (i + 1) * (KSTACK_SIZE + PAGESIZE)) in
     sys_then (vm_run (\<lambda>v. map_option (apfst Ok) (alloc_quad_page v))) (\<lambda>pa.
     sys_then (sys_unwrap pa) (\<lambda>pa.
     sys_seq (vm_do (kvm_map (im_kernel_table im) va pa KSTACK_SIZE (PTE_READ OR PTE_WRITE)))
       (sys_upd (upd_proc i (pd_kstack_update (\<lambda>_. va)))))))"

definition alloc_pid :: "usize ksys" where
  "alloc_pid = sys_then (sys_get k_pid) (\<lambda>pid. sys_seq (sys_upd (\<lambda>k. k\<lparr>k_pid := pid + 1\<rparr>)) (sys_ok pid))"

definition alloc_proc :: "image \<Rightarrow> nat option ksys" where
  "alloc_proc im = sys_then alloc_pid (\<lambda>pid.
     sys_then (sys_get (\<lambda>k. find_index (\<lambda>i. p_state i = Unused) (k_inner k))) (\<lambda>slot.
     case slot of
       None \<Rightarrow> sys_ok None
     | Some i \<Rightarrow> sys_then (init_page_table im i) (\<lambda>done.
         if \<not> done then sys_ok None
         else sys_seq (sys_upd (upd_proc i (init_context im)))
           (sys_seq (sys_upd (upd_inner i (\<lambda>n. n\<lparr>p_pid := pid, p_state := Allocated\<rparr>))) (sys_ok (Some i))))))"

definition process_user_init :: "image \<Rightarrow> unit ksys" where
  "process_user_init im = sys_then (alloc_proc im) (\<lambda>i.
     sys_then (sys_unwrap i) (\<lambda>i.
     sys_seq (expect_sys (proc_user_init i)) (sys_upd (upd_inner i (p_state_update (\<lambda>_. Runnable))))))"

text \<open>\<open>wait\<close>, up to the point where it sleeps; woken up, it starts again.\<close>

definition proc_wait :: "image \<Rightarrow> nat \<Rightarrow> usize \<Rightarrow> usize ksys" where
  "proc_wait im p addr =
     sys_then (sys_get (\<lambda>k. find (\<lambda>i. k_parents k ! i = Some p \<and> p_state (k_inner k ! i) = Zombie) [0..<NPROC])) (\<lambda>c.
     case c of
       Some i \<Rightarrow> sys_then (sys_get (\<lambda>k. k_inner k ! i)) (\<lambda>child.
         sys_seq (if addr \<noteq> 0 then user_copy_out p addr (u32_bytes (p_exit_status child)) else sys_ok ())
         (sys_seq (proc_free i)
         (sys_seq (sys_upd (k_parents_update (\<lambda>ps. ps[i := None]))) (sys_ok (p_pid child)))))
     | None \<Rightarrow> sys_then (sys_get (\<lambda>k. (list_ex (\<lambda>i. k_parents k ! i = Some p) [0..<NPROC], p_killed (k_inner k ! p))))
         (\<lambda>(have_kids, killed).
           if \<not> have_kids \<or> killed then sys_err ''children not found'' else sys_sleep p (im_proc im p)))"

text \<open>\<open>o_files[i].take()\<close>, dropped; and \<open>o_files[i].replace(f)\<close>.\<close>

definition drop_slot :: "image \<Rightarrow> nat \<Rightarrow> nat \<Rightarrow> unit ksys" where
  "drop_slot im p i = sys_then (get_data p) (\<lambda>d.
     sys_seq (sys_upd (upd_proc p (pd_ofiles_update (\<lambda>fs. fs[i := None]))))
       (case pd_ofiles d ! i of None \<Rightarrow> sys_ok () | Some f \<Rightarrow> arc_drop im p f))"

definition replace_slot :: "image \<Rightarrow> nat \<Rightarrow> nat \<Rightarrow> nat \<Rightarrow> nat \<Rightarrow> unit ksys" where
  "replace_slot im cur p i f = sys_then (get_data p) (\<lambda>d.
     sys_seq (sys_upd (upd_proc p (pd_ofiles_update (\<lambda>fs. fs[i := Some f]))))
       (case pd_ofiles d ! i of None \<Rightarrow> sys_ok () | Some g \<Rightarrow> arc_drop im cur g))"

definition drop_cwd :: "inode option \<Rightarrow> unit ksys" where
  "drop_cwd c = (case c of None \<Rightarrow> sys_ok () | Some ip \<Rightarrow> drop_inode ip)"

definition reparent :: "image \<Rightarrow> nat \<Rightarrow> nat \<Rightarrow> unit ksys" where
  "reparent im p i = sys_then (sys_get (\<lambda>k. k_parents k ! i)) (\<lambda>q.
     if q = Some p
     then sys_seq (sys_upd (k_parents_update (\<lambda>ps. ps[i := Some 0]))) (sys_wakeup p (im_proc im 0))
     else sys_ok ())"

definition proc_exit :: "image \<Rightarrow> nat \<Rightarrow> u32 \<Rightarrow> usize ksys" where
  "proc_exit im p status =
     (if p = 0 then sys_panic
      else sys_then (get_data p) (\<lambda>d.
        sys_seq (sys_each [0..<length (pd_ofiles d)] (drop_slot im p))
        (sys_seq (sys_run begin_op)
        (sys_seq (sys_upd (upd_proc p (pd_cwd_update (\<lambda>_. None))))
        (sys_seq (drop_cwd (pd_cwd d))
        (sys_seq (sys_run end_op)
        (sys_seq (sys_each [1..<NPROC] (reparent im p))
        (sys_then (sys_get (\<lambda>k. k_parents k ! p)) (\<lambda>parent.
         sys_then (sys_unwrap parent) (\<lambda>parent.
         sys_seq (sys_wakeup p (im_proc im parent))
           (\<lambda>k. Some (Exited, upd_inner p (\<lambda>i. i\<lparr>p_exit_status := status, p_state := Zombie\<rparr>) k))))))))))))"

section \<open>Fork\<close>

definition fork_files :: "image \<Rightarrow> nat \<Rightarrow> nat \<Rightarrow> proc_data \<Rightarrow> unit ksys" where
  "fork_files im p c d = sys_each [0..<length (pd_ofiles d)] (\<lambda>i.
     case pd_ofiles d ! i of
       None \<Rightarrow> sys_ok ()
     | Some f \<Rightarrow> sys_seq (arc_clone f) (replace_slot im p c i f))"

definition fork_cwd :: "nat \<Rightarrow> proc_data \<Rightarrow> unit ksys" where
  "fork_cwd c d =
     sys_then (sys_unwrap (pd_cwd d)) (\<lambda>ip.
     sys_then (sys_val (\<lambda>k. Some (idup ip k))) (\<lambda>ip.
     sys_then (get_data c) (\<lambda>cd.
     sys_seq (sys_upd (upd_proc c (pd_cwd_update (\<lambda>_. Some ip)))) (drop_cwd (pd_cwd cd)))))"

definition fork_env :: "proc_data \<Rightarrow> proc_data \<Rightarrow> proc_data" where
  "fork_env d cd =
     (case pd_env d of
        None \<Rightarrow> cd
      | Some e \<Rightarrow> cd\<lparr>pd_env := Some (fold (\<lambda>(n, v). env_insert n v) e (case pd_env cd of None \<Rightarrow> [] | Some e \<Rightarrow> e))\<rparr>)"

definition proc_fork :: "image \<Rightarrow> nat \<Rightarrow> usize ksys" where
  "proc_fork im p =
     sys_then (alloc_proc im) (\<lambda>c.
     case c of
       None \<Rightarrow> sys_err ''cannot allocate new process''
     | Some c \<Rightarrow>
         sys_then (get_data p) (\<lambda>d.
         sys_then (page_root c) (\<lambda>croot.
         sys_then (page_root p) (\<lambda>root.
         sys_then (vm_run (\<lambda>v. map_option (apfst (\<lambda>r. Ok (isl r))) (uvm_copy root croot (pd_sz d) v))) (\<lambda>failed.
         if failed then sys_seq (proc_free c) (sys_err ''fork: cannot uvm_copy'')
         else
           sys_seq (sys_upd (upd_proc c (\<lambda>cd. cd\<lparr>pd_sz := pd_sz d, pd_regs := (pd_regs d)(TF_a0 := 0)\<rparr>)))
           (sys_seq (fork_files im p c d)
           (sys_seq (fork_cwd c d)
           (sys_seq (sys_upd (upd_proc c (fork_env d)))
           (sys_seq (sys_upd (k_parents_update (\<lambda>ps. ps[c := Some p])))
           (sys_seq (sys_upd (upd_inner c (p_state_update (\<lambda>_. Runnable))))
             (sys_get (\<lambda>k. p_pid (k_inner k ! c)))))))))))))"

section \<open>Mapped regions\<close>

definition vma_owns :: "usize \<Rightarrow> vma option \<Rightarrow> bool" where
  "vma_owns addr vm = (case vm of None \<Rightarrow> False | Some vm \<Rightarrow> vma_start vm \<le> addr \<and> addr \<le> vma_end vm)"

text \<open>The pages from \<open>addr_head\<close> to \<open>addr_tail\<close>, both included.\<close>

definition pages_through :: "usize \<Rightarrow> usize \<Rightarrow> usize list" where
  "pages_through addr_head addr_tail =
     (if addr_head \<le> addr_tail
      then map (\<lambda>i. addr_head + of_nat i * PAGESIZE) [0..<(unat addr_tail - unat addr_head) div 4096 + 1]
      else [])"

definition unmmap :: "nat \<Rightarrow> usize \<Rightarrow> usize \<Rightarrow> unit ksys" where
  "unmmap p addr len = sys_then (get_data p) (\<lambda>d.
     case find_index (vma_owns addr) (pd_vmas d) of
       None \<Rightarrow> sys_err ''lazy_mmap: the addr is not lived in VMA''
     | Some j \<Rightarrow>
         sys_then (sys_unwrap (align_down addr PAGESIZE)) (\<lambda>addr_head.
         sys_then (page_root p) (\<lambda>root.
         sys_then (sys_unwrap (align_down (addr + len) PAGESIZE)) (\<lambda>addr_tail.
         sys_seq (sys_each (pages_through addr_head addr_tail) (unmap_if_mapped root))
           (sys_upd (upd_proc p (\<lambda>d. d\<lparr>pd_cur_max := vma_end (the (pd_vmas d ! j)), pd_vmas := (pd_vmas d)[j := None]\<rparr>)))))))"

definition lazy_mmap :: "image \<Rightarrow> nat \<Rightarrow> usize \<Rightarrow> unit ksys" where
  "lazy_mmap im p fault_addr = sys_then (get_data p) (\<lambda>d.
     case find_index (vma_owns fault_addr) (pd_vmas d) of
       None \<Rightarrow> sys_err ''lazy_mmap: the addr is not lived in VMA''
     | Some j \<Rightarrow>
         let vm = the (pd_vmas d ! j) in
         sys_then (sys_unwrap (align_down fault_addr PAGESIZE)) (\<lambda>fault_addr_head.
         sys_then (page_root p) (\<lambda>root.
         sys_then (vm_run (\<lambda>v. map_option (apfst Ok) (alloc_data_page v))) (\<lambda>pa.
         sys_then (sys_unwrap pa) (\<lambda>pa.
         sys_seq (vm_run (map_pages root fault_addr_head pa PAGESIZE (PTE_READ OR PTE_WRITE OR PTE_EXEC OR PTE_USER)))
         (if sint (vma_fd vm) < 0 \<and> MAP_ANONYMOUNS AND vma_flags vm \<noteq> 0 then sys_ok ()
          else if sint (vma_fd vm) < 0 \<or> unat (vma_fd vm) \<ge> length (pd_ofiles d) then sys_panic
          else sys_then (sys_unwrap (pd_ofiles d ! unat (vma_fd vm))) (\<lambda>f.
            sys_seq (arc_clone f)
            (sys_seq (file_seek f (fault_addr_head - vma_start vm))
            (sys_seq (sys_catch (file_read im p f fault_addr_head PAGESIZE) (\<lambda>e. sys_seq (arc_drop im p f) (sys_err e)))
              (arc_drop im p f))))))))))"

end
