(* ===== verification/Elf.thy ===== *)
theory Elf
  imports Process
begin

text \<open>
  Loading a program: \<open>kernel/src/proc/elf.rs\<close>.  A header that the file does not hold completely is
  read from uninitialised memory, which has no defined behaviour.  Every early return drops the new
  page table after it has been unmapped.
\<close>

definition ELF_MAGIC :: u32 where "ELF_MAGIC = 0x464C457F"
definition PROG_LOAD :: u32 where "PROG_LOAD = 1"

record elf_header =
  eh_magic :: u32
  eh_bit_size :: u8
  eh_endian :: u8
  eh_elf_version :: u8
  eh_os_abi :: u8
  eh_abi_version :: u8
  eh_padding :: "u8 list"
  eh_typ :: u16
  eh_machine :: u16
  eh_version :: u32
  eh_entry :: u64
  eh_phoff :: u64
  eh_shoff :: u64
  eh_flags :: u32
  eh_ehsize :: u16
  eh_phentsize :: u16
  eh_phnum :: u16
  eh_shentsize :: u16
  eh_shnum :: u16
  eh_shstrndx :: u16

definition elf_header_of :: "u8 list \<Rightarrow> elf_header" where
  "elf_header_of bs =
     (let w16 = le_u16 (\<lambda>i. bs ! i); w32 = le_u32 (\<lambda>i. bs ! i); w64 = (\<lambda>off. le_u64 (drop off bs)) in
      \<lparr>eh_magic = w32 0, eh_bit_size = bs ! 4, eh_endian = bs ! 5, eh_elf_version = bs ! 6, eh_os_abi = bs ! 7,
       eh_abi_version = bs ! 8, eh_padding = take 7 (drop 9 bs), eh_typ = w16 16, eh_machine = w16 18,
       eh_version = w32 20, eh_entry = w64 24, eh_phoff = w64 32, eh_shoff = w64 40, eh_flags = w32 48,
       eh_ehsize = w16 52, eh_phentsize = w16 54, eh_phnum = w16 56, eh_shentsize = w16 58, eh_shnum = w16 60,
       eh_shstrndx = w16 62\<rparr>)"

record prog_header =
  ph_typ :: u32
  ph_flags :: u32
  ph_off :: u64
  ph_vaddr :: u64
  ph_paddr :: u64
  ph_filesz :: u64
  ph_memsz :: u64
  ph_align :: u64

definition prog_header_of :: "u8 list \<Rightarrow> prog_header" where
  "prog_header_of bs =
     (let w32 = le_u32 (\<lambda>i. bs ! i); w64 = (\<lambda>off. le_u64 (drop off bs)) in
      \<lparr>ph_typ = w32 0, ph_flags = w32 4, ph_off = w64 8, ph_vaddr = w64 16, ph_paddr = w64 24, ph_filesz = w64 32,
       ph_memsz = w64 40, ph_align = w64 48\<rparr>)"

text \<open>Reading a header of \<open>n\<close> bytes; \<open>None\<close> is an error of \<open>readi\<close>.\<close>

definition read_header :: "inode \<Rightarrow> usize \<Rightarrow> nat \<Rightarrow> u8 list option ksys" where
  "read_header ip off n k = do {
     (r, bs, k) \<leftarrow> readi kernel_sink (i_index ip) off (of_nat n) [] k;
     case r of
       Err _ \<Rightarrow> sys_ok None k
     | Ok _ \<Rightarrow> if length bs \<noteq> n then None else sys_ok (Some bs) k }"

definition close_image :: "inode \<Rightarrow> unit ksys" where
  "close_image ip = sys_seq (sys_upd (idata_unlock (i_index ip))) (sys_seq (drop_inode ip) (sys_run end_op))"

definition fail_load :: "usize \<Rightarrow> usize \<Rightarrow> inode \<Rightarrow> string \<Rightarrow> 'a ksys" where
  "fail_load pgt sz ip msg =
     sys_seq (vm_do (unmap_user_page_table pgt sz))
       (sys_seq (close_image ip) (sys_seq (vm_do (free_table 3 pgt)) (sys_err msg)))"

definition fail_args :: "usize \<Rightarrow> usize \<Rightarrow> string \<Rightarrow> 'a ksys" where
  "fail_args pgt sz msg =
     sys_seq (vm_do (unmap_user_page_table pgt sz)) (sys_seq (vm_do (free_table 3 pgt)) (sys_err msg))"

definition phys_sink :: "usize \<times> vm \<Rightarrow> u8 list \<Rightarrow> (usize \<times> vm) option" where
  "phys_sink = (\<lambda>(pa, v) bs. Some (pa + of_nat (length bs), store_bytes pa bs v))"

definition load_segment :: "usize \<Rightarrow> inode \<Rightarrow> usize \<Rightarrow> usize \<Rightarrow> usize \<Rightarrow> unit ksys" where
  "load_segment pgt ip va offset sz = sys_each (page_range 0 sz) (\<lambda>i k.
     case walk_addr pgt (va + i) (k_vm k) of
       Err e \<Rightarrow> sys_err e k
     | Ok pa \<Rightarrow> do {
         let n = min (sz - i) PAGESIZE;
         (r, (_, v), k) \<leftarrow> readi phys_sink (i_index ip) (offset + i) n (pa, k_vm k) k;
         let k = k\<lparr>k_vm := v\<rparr>;
         case r of Err _ \<Rightarrow> sys_err ''load_segment: cannot read the program segment'' k | Ok _ \<Rightarrow> sys_ok () k })"

text \<open>The loop over the program headers, whose value is the size of the image.\<close>

fun load_headers :: "inode \<Rightarrow> usize \<Rightarrow> usize list \<Rightarrow> usize \<Rightarrow> usize ksys" where
  "load_headers ip pgt [] sz = sys_ok sz"
| "load_headers ip pgt (off # offs) sz =
     sys_then (read_header ip off 56) (\<lambda>bs.
     case bs of
       None \<Rightarrow> fail_load pgt sz ip ''cannot read the program section''
     | Some bs \<Rightarrow>
         let ph = prog_header_of bs in
         if ph_typ ph \<noteq> PROG_LOAD then load_headers ip pgt offs sz
         else if ph_memsz ph = 0 then load_headers ip pgt offs sz
         else
           sys_then (sys_catch (vm_run (uvm_alloc pgt sz (ph_vaddr ph + ph_memsz ph))) (fail_load pgt sz ip)) (\<lambda>sz.
           if ph_vaddr ph mod PAGESIZE \<noteq> 0 then fail_load pgt sz ip ''program header vaddr not aligned page size''
           else sys_seq (sys_catch (load_segment pgt ip (ph_vaddr ph) (ph_off ph) (ph_filesz ph)) (fail_load pgt sz ip))
             (load_headers ip pgt offs sz)))"

text \<open>Pushing the argument strings; \<open>argc\<close> stays 0 when no entry of \<open>argv\<close> is empty.\<close>

fun push_args ::
  "usize \<Rightarrow> usize \<Rightarrow> usize \<Rightarrow> u8 list option list \<Rightarrow> nat \<Rightarrow> usize \<Rightarrow> usize list \<Rightarrow> (usize \<times> usize list \<times> nat) ksys" where
  "push_args pgt sz stackbase [] i sp ustack = sys_ok (sp, ustack, 0)"
| "push_args pgt sz stackbase (None # args) i sp ustack = sys_ok (sp, ustack, i)"
| "push_args pgt sz stackbase (Some arg # args) i sp ustack =
     sys_then (sys_unwrap (find_index (\<lambda>v. v = 0) arg)) (\<lambda>pos.
       let arg_size = pos + 1;
           sp = sp - of_nat arg_size;
           sp = sp - sp mod 16
       in if sp < stackbase then fail_args pgt sz ''pushing arguments causes stack over flow''
          else sys_seq (sys_catch (vm_run (\<lambda>v. Some (copy_out pgt sp (take arg_size arg) (of_nat arg_size) v)))
                 (fail_args pgt sz))
               (push_args pgt sz stackbase args (i + 1) sp (ustack[i := sp])))"

definition load_stack :: "nat \<Rightarrow> elf_header \<Rightarrow> usize \<Rightarrow> usize \<Rightarrow> u8 list option list \<Rightarrow> usize ksys" where
  "load_stack p hdr pgt sz argv =
     sys_then (push_args pgt sz (sz - PAGESIZE) argv 0 sz (replicate (MAXARG + 1) 0)) (\<lambda>(sp, ustack, argc).
       let ustack_size = (argc + 1) * 8;
           sp = sp - of_nat ustack_size;
           sp = sp - sp mod 16
       in if sp < sz - PAGESIZE then fail_args pgt sz ''pushing arguments causes stack over flow''
          else sys_seq (sys_catch (vm_run (\<lambda>v.
                   Some (copy_out pgt sp (take ustack_size (concat (map u64_bytes ustack))) (of_nat ustack_size) v)))
                 (fail_args pgt sz))
               (sys_then (trap_regs p) (\<lambda>_.
                sys_seq (sys_upd (set_reg p TF_a1 sp))
                (sys_then (page_root p) (\<lambda>oldpgt.
                 sys_then (get_data p) (\<lambda>d.
                 sys_seq (sys_upd (upd_proc p (\<lambda>d. d\<lparr>pd_table := Some pgt, pd_sz := sz\<rparr>)))
                 (sys_seq (sys_upd (set_reg p TF_epc (eh_entry hdr)))
                 (sys_seq (sys_upd (set_reg p TF_sp sp))
                 (sys_seq (vm_do (unmap_user_page_table oldpgt (pd_sz d)))
                 (sys_seq (vm_do (free_table 3 oldpgt)) (sys_ok (of_nat argc))))))))))))"

definition header_offsets :: "elf_header \<Rightarrow> usize list" where
  "header_offsets hdr =
     (let off_start = eh_phoff hdr; off_end = off_start + ucast (eh_phnum hdr) * 56 in
      map (\<lambda>j. off_start + of_nat j * 56) [0..<(unat off_end - unat off_start + 55) div 56])"

definition load_image :: "image \<Rightarrow> nat \<Rightarrow> inode \<Rightarrow> elf_header \<Rightarrow> u8 list option list \<Rightarrow> usize ksys" where
  "load_image im p ip hdr argv =
     sys_then (get_data p) (\<lambda>d.
     sys_then (vm_run (\<lambda>v. map_option (apfst Ok) (alloc_user_page_table (im_trampoline im) (pd_trapframe d) v))) (\<lambda>pgt.
     case pgt of
       None \<Rightarrow> sys_seq (close_image ip) (sys_err ''cannot alloc new user page table'')
     | Some pgt \<Rightarrow>
         sys_then (load_headers ip pgt (header_offsets hdr) 0) (\<lambda>sz.
         sys_seq (close_image ip)
         (sys_then (sys_unwrap (align_up sz PAGESIZE)) (\<lambda>sz.
          sys_then (sys_catch (vm_run (uvm_alloc pgt sz (sz + PAGESIZE * 2))) (fail_args pgt sz)) (\<lambda>sz.
          sys_seq (vm_do (uvm_clear pgt (sz - 2 * PAGESIZE))) (load_stack p hdr pgt sz argv)))))))"

definition elf_load :: "image \<Rightarrow> nat \<Rightarrow> u8 list \<Rightarrow> u8 list option list \<Rightarrow> usize ksys" where
  "elf_load im p path argv =
     sys_seq (sys_run begin_op)
     (sys_then (get_data p) (\<lambda>d.
      sys_then (sys_val (namei (pd_cwd d) path)) (\<lambda>ip.
      case ip of
        None \<Rightarrow> sys_seq (sys_run end_op) (sys_err ''cannot find inode by given path'')
      | Some ip \<Rightarrow>
          sys_seq (sys_run (ilock ip))
          (sys_then (read_header ip 0 64) (\<lambda>bs.
           case bs of
             None \<Rightarrow> sys_seq (close_image ip) (sys_err ''cannot read the elf file'')
           | Some bs \<Rightarrow>
               let hdr = elf_header_of bs in
               if eh_magic hdr \<noteq> ELF_MAGIC then sys_seq (close_image ip) (sys_err ''elf magic invalid'')
               else load_image im p ip hdr argv)))))"

end
