(* ===== verification/Syscall.thy ===== *)
theory Syscall
  imports Elf
begin

text \<open>
  System calls: \<open>kernel/src/proc/syscall.rs\<close> and their dispatch in \<open>kernel/src/proc.rs\<close>.  The buffers
  the source leaves uninitialised are zeroed here; only bytes copied into them are read.  The message
  that an error prints is left out.  Only a result that is returned goes to register \<open>a0\<close>.
\<close>

section \<open>Environment variables\<close>

text \<open>\<open>core::str::from_utf8\<close>.\<close>

definition utf8_cont :: "u8 \<Rightarrow> bool" where
  "utf8_cont c \<longleftrightarrow> 0x80 \<le> c \<and> c \<le> 0xBF"

definition utf8_second :: "u8 \<Rightarrow> u8 \<Rightarrow> bool" where
  "utf8_second b c \<longleftrightarrow>
     (if b = 0xE0 then 0xA0 \<le> c \<and> c \<le> 0xBF
      else if b = 0xED then 0x80 \<le> c \<and> c \<le> 0x9F
      else if b = 0xF0 then 0x90 \<le> c \<and> c \<le> 0xBF
      else if b = 0xF4 then 0x80 \<le> c \<and> c \<le> 0x8F
      else utf8_cont c)"

function utf8_ok :: "u8 list \<Rightarrow> bool" where
  "utf8_ok [] = True"
| "utf8_ok (b # bs) =
     (if b < 0x80 then utf8_ok bs
      else if 0xC2 \<le> b \<and> b \<le> 0xDF then bs \<noteq> [] \<and> utf8_cont (hd bs) \<and> utf8_ok (drop 1 bs)
      else if 0xE0 \<le> b \<and> b \<le> 0xEF
      then 2 \<le> length bs \<and> utf8_second b (bs ! 0) \<and> utf8_cont (bs ! 1) \<and> utf8_ok (drop 2 bs)
      else if 0xF0 \<le> b \<and> b \<le> 0xF4
      then 3 \<le> length bs \<and> utf8_second b (bs ! 0) \<and> utf8_cont (bs ! 1) \<and> utf8_cont (bs ! 2) \<and> utf8_ok (drop 3 bs)
      else False)"
  by pat_completeness auto
termination by (relation "measure length") auto

definition from_utf8 :: "u8 list \<Rightarrow> string \<Rightarrow> u8 list ksys" where
  "from_utf8 bs msg = (if utf8_ok bs then sys_ok bs else sys_err msg)"

definition sys_getenv :: "nat \<Rightarrow> usize ksys" where
  "sys_getenv p =
     sys_then (arg_str p 0 (replicate 128 0)) (\<lambda>(name_len, name_buf).
     sys_then (from_utf8 (take name_len name_buf) ''sys_getenv: invalid UTF-8 in name'') (\<lambda>name.
     sys_then (arg_raw p 1) (\<lambda>value_buf_addr.
     sys_then (arg_raw p 2) (\<lambda>value_buf_size.
     sys_then (get_data p) (\<lambda>d.
     case pd_env d of
       None \<Rightarrow> sys_err ''environment variables not initialized''
     | Some env_vars \<Rightarrow>
         (case map_of env_vars name of
            None \<Rightarrow> sys_err ''environment variable not found''
          | Some v \<Rightarrow>
              let bytes_to_copy = min (length v) (unat value_buf_size - 1) in
              sys_seq (if bytes_to_copy > 0
                       then sys_seq (user_copy_out p value_buf_addr (take bytes_to_copy v))
                              (user_copy_out p (value_buf_addr + of_nat bytes_to_copy) [0])
                       else sys_ok ())
                (sys_ok (of_nat (length v)))))))))"

definition sys_setenv :: "nat \<Rightarrow> usize ksys" where
  "sys_setenv p =
     sys_then (arg_str p 0 (replicate 128 0)) (\<lambda>(name_len, name_buf).
     sys_then (from_utf8 (take name_len name_buf) ''sys_setenv: invalid UTF-8 in name'') (\<lambda>name.
     sys_then (arg_str p 1 (replicate 1024 0)) (\<lambda>(value_len, value_buf).
     sys_then (from_utf8 (take value_len value_buf) ''sys_setenv: invalid UTF-8 in value'') (\<lambda>v.
     sys_then (arg_i32 p 2) (\<lambda>ow.
     sys_then (get_data p) (\<lambda>d.
       let env_vars = (case pd_env d of None \<Rightarrow> [] | Some e \<Rightarrow> e) in
       if ow = 0 \<and> map_of env_vars name \<noteq> None
       then sys_seq (sys_upd (upd_proc p (pd_env_update (\<lambda>_. Some env_vars)))) (sys_ok 0)
       else sys_seq (sys_upd (upd_proc p (pd_env_update (\<lambda>_. Some (env_insert name v env_vars))))) (sys_ok 0)))))))"

definition sys_unsetenv :: "nat \<Rightarrow> usize ksys" where
  "sys_unsetenv p =
     sys_then (arg_str p 0 (replicate 128 0)) (\<lambda>(name_len, name_buf).
     sys_then (from_utf8 (take name_len name_buf) ''sys_unsetenv: invalid UTF-8 in name'') (\<lambda>name.
     sys_then (get_data p) (\<lambda>d.
     case pd_env d of
       None \<Rightarrow> sys_err ''environment variables not initialized''
     | Some env_vars \<Rightarrow>
         if map_of env_vars name \<noteq> None
         then sys_seq (sys_upd (upd_proc p (pd_env_update (\<lambda>_. Some (env_remove name env_vars))))) (sys_ok 0)
         else sys_err ''environment variable not found'')))"

text \<open>The pieces of \<open>name=value\<close>, each checked against the size of the buffer before it is copied; the
  first one that does not fit ends the loop.\<close>

definition env_pieces :: "env \<Rightarrow> u8 list list" where
  "env_pieces e = concat (map (\<lambda>(n, v). [n, [61], v, [0]]) e)"

fun listenv_loop :: "nat \<Rightarrow> usize \<Rightarrow> usize \<Rightarrow> u8 list list \<Rightarrow> usize \<Rightarrow> usize ksys" where
  "listenv_loop p uaddr buf_size [] offset = sys_ok offset"
| "listenv_loop p uaddr buf_size (bs # pieces) offset =
     (if offset + of_nat (length bs) > buf_size then sys_ok offset
      else sys_seq (user_copy_out p (uaddr + offset) bs)
        (listenv_loop p uaddr buf_size pieces (offset + of_nat (length bs))))"

definition sys_listenv :: "nat \<Rightarrow> usize ksys" where
  "sys_listenv p =
     sys_then (arg_raw p 0) (\<lambda>uaddr.
     sys_then (arg_raw p 1) (\<lambda>buf_size.
     sys_then (get_data p) (\<lambda>d.
     case pd_env d of
       None \<Rightarrow> sys_ok 0
     | Some env_vars \<Rightarrow> listenv_loop p uaddr buf_size (env_pieces env_vars) 0)))"

section \<open>Processes and memory\<close>

definition sys_fork :: "image \<Rightarrow> nat \<Rightarrow> usize ksys" where
  "sys_fork im p = proc_fork im p"

definition sys_exit :: "image \<Rightarrow> nat \<Rightarrow> usize ksys" where
  "sys_exit im p = sys_then (arg_i32 p 0) (\<lambda>n. proc_exit im p n)"

definition sys_wait :: "image \<Rightarrow> nat \<Rightarrow> usize ksys" where
  "sys_wait im p = sys_then (arg_raw p 0) (\<lambda>addr. proc_wait im p addr)"

fun fetch_args :: "nat \<Rightarrow> usize \<Rightarrow> nat list \<Rightarrow> u8 list option list ksys" where
  "fetch_args p arg_base_addr [] = sys_ok []"
| "fetch_args p arg_base_addr (i # is) =
     sys_then (fetch_addr p (arg_base_addr + of_nat i * 8)) (\<lambda>uarg.
     if uarg = 0 then sys_ok (replicate (length (i # is)) None)
     else sys_then (fetch_str p uarg (replicate MAXARGLEN 0)) (\<lambda>(_, buf).
       sys_then (fetch_args p arg_base_addr is) (\<lambda>args. sys_ok (Some buf # args))))"

definition sys_exec :: "image \<Rightarrow> nat \<Rightarrow> usize ksys" where
  "sys_exec im p =
     sys_then (arg_str p 0 (replicate 128 0)) (\<lambda>(_, path).
     sys_then (arg_raw p 1) (\<lambda>arg_base_addr.
     sys_then (fetch_args p arg_base_addr [0..<MAXARG]) (\<lambda>argv.
     elf_load im p path argv)))"

definition sys_sbrk :: "nat \<Rightarrow> usize ksys" where
  "sys_sbrk p =
     sys_then (arg_i32 p 0) (\<lambda>n.
     sys_then (get_data p) (\<lambda>d.
       let old_sz = pd_sz d in
       sys_seq
         (if sint n > 0
          then sys_then (page_root p) (\<lambda>root.
            sys_then (vm_run (uvm_alloc root old_sz (old_sz + scast n))) (\<lambda>sz. sys_upd (upd_proc p (pd_sz_update (\<lambda>_. sz)))))
          else if sint n < 0
          then sys_then (page_root p) (\<lambda>root.
            sys_then (vm_run (uvm_dealloc root old_sz (old_sz + scast n))) (\<lambda>sz. sys_upd (upd_proc p (pd_sz_update (\<lambda>_. sz)))))
          else sys_ok ())
         (sys_ok old_sz)))"

text \<open>\<open>PteFlag::from_bits\<close> and \<open>MapFlag::from_bits\<close> refuse a bit that no flag has.\<close>

definition flags_from_bits :: "usize \<Rightarrow> usize \<Rightarrow> usize option" where
  "flags_from_bits all bits = (if bits AND NOT all = 0 then Some bits else None)"

definition sys_mmap :: "nat \<Rightarrow> usize ksys" where
  "sys_mmap p =
     sys_then (arg_i32 p 1) (\<lambda>len. let len = scast len in
     sys_then (arg_i32 p 2) (\<lambda>prot.
     case flags_from_bits 0xFF (scast prot) of
       None \<Rightarrow> sys_err ''sys_mmap: cannot parse prot''
     | Some prot \<Rightarrow>
     sys_then (arg_i32 p 3) (\<lambda>fl.
     case flags_from_bits (MAP_SHARED OR MAP_PRIVATE OR MAP_ANONYMOUNS) (scast fl) of
       None \<Rightarrow> sys_err ''sys_mmap: cannot parse flags''
     | Some fl \<Rightarrow>
     sys_then (arg_i32 p 4) (\<lambda>fd.
     sys_then (get_data p) (\<lambda>d.
     sys_seq
       (if sint fd \<noteq> -1 then
          if sint fd < 0 \<or> unat fd \<ge> length (pd_ofiles d) then sys_panic
          else (case pd_ofiles d ! unat fd of
              None \<Rightarrow> sys_err ''sys_mmap: file not found''
            | Some f \<Rightarrow> sys_then (get_file f) (\<lambda>file.
                if PTE_WRITE AND prot \<noteq> 0 \<and> \<not> f_writable file
                then sys_err ''sys_mmap: file is read-only, but mmap has write permission and flag''
                else sys_ok ()))
        else sys_ok ())
     (let addr_end = pd_cur_max d in
      sys_then (sys_unwrap (align_down (addr_end - len) PAGESIZE)) (\<lambda>addr_start.
      case find_index (\<lambda>vm. vm = None) (pd_vmas d) of
        None \<Rightarrow> sys_err ''cannot find unused vma''
      | Some j \<Rightarrow>
          sys_seq (sys_upd (upd_proc p (\<lambda>d. d\<lparr>
             pd_vmas := (pd_vmas d)[j := Some \<lparr>vma_start = addr_start, vma_end = addr_end, vma_size = len,
               vma_prot = prot, vma_flags = fl, vma_fd = fd\<rparr>],
             pd_cur_max := addr_start\<rparr>)))
          (sys_ok addr_start))))))))"

section \<open>Descriptors\<close>

definition sys_pipe :: "image \<Rightarrow> nat \<Rightarrow> usize ksys" where
  "sys_pipe im p =
     sys_then (arg_raw p 0) (\<lambda>addr.
     sys_then alloc_pipe (\<lambda>(rf, wf).
     sys_then (alloc_fd p) (\<lambda>rfd.
     case rfd of
       None \<Rightarrow> sys_seq (arc_drop im p wf) (sys_seq (arc_drop im p rf)
         (sys_err ''sys_pipe: cannot allocate fd to read the pipe''))
     | Some rfd \<Rightarrow>
         sys_seq (replace_slot im p p rfd rf)
         (sys_then (alloc_fd p) (\<lambda>wfd.
          case wfd of
            None \<Rightarrow> sys_seq (arc_drop im p wf) (sys_err ''sys_pipe: cannot allocate fd to write the pipe'')
          | Some wfd \<Rightarrow>
              sys_seq (replace_slot im p p wfd wf)
              (sys_seq (user_copy_out p addr (u64_bytes (of_nat rfd)))
              (sys_seq (user_copy_out p (addr + 8) (u64_bytes (of_nat wfd))) (sys_ok 0))))))))"

definition slot_file :: "nat \<Rightarrow> nat \<Rightarrow> string \<Rightarrow> nat ksys" where
  "slot_file p fd msg = sys_then (get_data p) (\<lambda>d.
     case pd_ofiles d ! fd of None \<Rightarrow> sys_err msg | Some f \<Rightarrow> sys_ok f)"

definition sys_read :: "image \<Rightarrow> nat \<Rightarrow> usize ksys" where
  "sys_read im p =
     sys_then (arg_fd p 0) (\<lambda>fd. sys_then (arg_raw p 1) (\<lambda>addr. sys_then (arg_i32 p 2) (\<lambda>n.
     sys_then (slot_file p fd ''sys_read'') (\<lambda>f. file_read im p f addr (scast n)))))"

definition sys_write :: "image \<Rightarrow> nat \<Rightarrow> usize ksys" where
  "sys_write im p =
     sys_then (arg_fd p 0) (\<lambda>fd. sys_then (arg_raw p 1) (\<lambda>addr. sys_then (arg_i32 p 2) (\<lambda>n.
     sys_then (slot_file p fd ''sys_write'') (\<lambda>f. file_write im p f addr (scast n)))))"

text \<open>\<open>FileStat\<close> in memory, with four bytes of padding before the last field.\<close>

definition file_stat_bytes :: "u8 list \<Rightarrow> file_stat \<Rightarrow> u8 list" where
  "file_stat_bytes pad st = u32_bytes (st_dev st) @ u32_bytes (st_inum st) @ u16_bytes (itype_code (st_typ st)) @
     u16_bytes (st_nlink st) @ pad @ u64_bytes (st_size st)"

definition sys_fstat :: "image \<Rightarrow> nat \<Rightarrow> usize ksys" where
  "sys_fstat im p =
     sys_then (arg_fd p 0) (\<lambda>fd. sys_then (arg_raw p 1) (\<lambda>addr.
     sys_then (slot_file p fd ''file not found'') (\<lambda>f.
     sys_then (file_stat_of f file_stat_uninit) (\<lambda>st.
     sys_seq (user_copy_out p addr (file_stat_bytes (im_pad im) st)) (sys_ok 0)))))"

definition sys_dup :: "image \<Rightarrow> nat \<Rightarrow> usize ksys" where
  "sys_dup im p =
     sys_then (arg_fd p 0) (\<lambda>old_fd.
     sys_then (alloc_fd p) (\<lambda>new_fd.
     case new_fd of
       None \<Rightarrow> sys_err ''sys_dup: cannot allocate new fd''
     | Some new_fd \<Rightarrow>
         sys_then (get_data p) (\<lambda>d.
         sys_then (sys_unwrap (pd_ofiles d ! old_fd)) (\<lambda>f.
         sys_seq (arc_clone f) (sys_seq (replace_slot im p p new_fd f) (sys_ok (of_nat new_fd)))))))"

definition sys_open :: "image \<Rightarrow> nat \<Rightarrow> usize ksys" where
  "sys_open im p =
     sys_then (arg_str p 0 (replicate 128 0)) (\<lambda>(null_pos, path).
     sys_then (arg_i32 p 1) (\<lambda>o_mode.
     sys_then (file_open p (take (null_pos + 1) path) o_mode) (\<lambda>f.
     case f of
       None \<Rightarrow> sys_err ''sys_open: cannot open file''
     | Some f \<Rightarrow> sys_then (alloc_fd p) (\<lambda>fd.
         case fd of
           None \<Rightarrow> sys_seq (arc_drop im p f) (sys_err ''sys_open: cannot allocate fd'')
         | Some fd \<Rightarrow> sys_seq (replace_slot im p p fd f) (sys_ok (of_nat fd))))))"

definition sys_close :: "image \<Rightarrow> nat \<Rightarrow> usize ksys" where
  "sys_close im p = sys_then (arg_fd p 0) (\<lambda>fd. sys_seq (drop_slot im p fd) (sys_ok 0))"

section \<open>Files and directories\<close>

text \<open>An error inside an operation of the log ends the operation.\<close>

definition in_op :: "'a ksys \<Rightarrow> 'a ksys" where
  "in_op m = sys_catch m (\<lambda>msg. sys_seq (sys_run end_op) (sys_err msg))"

definition sys_chdir :: "nat \<Rightarrow> usize ksys" where
  "sys_chdir p =
     sys_seq (sys_run begin_op)
     (sys_then (in_op (arg_str p 0 (replicate 128 0))) (\<lambda>(null_pos, path).
      sys_then (get_data p) (\<lambda>d.
      sys_then (sys_val (namei (pd_cwd d) (take (null_pos + 1) path))) (\<lambda>ip.
      case ip of
        None \<Rightarrow> sys_seq (sys_run end_op) (sys_err ''cannot find path'')
      | Some ip \<Rightarrow>
          let i = i_index ip in
          sys_seq (sys_run (ilock ip))
          (sys_then (sys_get (get_type i)) (\<lambda>t.
           if t \<noteq> Directory
           then sys_seq (sys_upd (idata_unlock i)) (sys_seq (drop_inode ip) (sys_seq (sys_run end_op)
                  (sys_err ''target path is not directory'')))
           else sys_seq (sys_upd (idata_unlock i))
             (sys_seq (sys_upd (upd_proc p (pd_cwd_update (\<lambda>_. Some ip))))
             (sys_then (sys_unwrap (pd_cwd d)) (\<lambda>old.
              sys_seq (drop_inode old) (sys_seq (sys_run end_op) (sys_ok 0)))))))))))"

text \<open>\<open>i32::try_into::<u16>().unwrap()\<close>.\<close>

definition i32_to_u16 :: "u32 \<Rightarrow> u16 ksys" where
  "i32_to_u16 n = (if sint n < 0 \<or> sint n \<ge> 65536 then sys_panic else sys_ok (ucast n))"

definition sys_create_at :: "nat \<Rightarrow> u8 list \<Rightarrow> inode_type \<Rightarrow> u16 \<Rightarrow> u16 \<Rightarrow> usize ksys" where
  "sys_create_at p path t major minor =
     sys_then (get_data p) (\<lambda>d.
     sys_then (sys_val (create (pd_cwd d) path t major minor)) (\<lambda>ip.
     sys_seq (drop_inode ip) (sys_seq (sys_run end_op) (sys_ok 0))))"

definition sys_mknod :: "nat \<Rightarrow> usize ksys" where
  "sys_mknod p =
     sys_seq (sys_run begin_op)
     (sys_then (in_op (arg_str p 0 (replicate 128 0))) (\<lambda>(null_pos, path).
      sys_then (in_op (arg_i32 p 1)) (\<lambda>major. sys_then (i32_to_u16 major) (\<lambda>major.
      sys_then (in_op (arg_i32 p 2)) (\<lambda>minor. sys_then (i32_to_u16 minor) (\<lambda>minor.
      sys_create_at p (take (null_pos + 1) path) Device major minor))))))"

definition sys_unlink :: "nat \<Rightarrow> usize ksys" where
  "sys_unlink p =
     sys_then (arg_str p 0 (replicate 128 0)) (\<lambda>(null_pos, path).
     sys_seq (sys_run begin_op)
     (sys_then (get_data p) (\<lambda>d.
      sys_then (sys_val (unlink (pd_cwd d) (take (null_pos + 1) path))) (\<lambda>r.
      sys_seq (in_op (sys_of r)) (sys_ok 0)))))"

definition sys_mkdir :: "nat \<Rightarrow> usize ksys" where
  "sys_mkdir p =
     sys_seq (sys_run begin_op)
     (sys_then (in_op (arg_str p 0 (replicate 128 0))) (\<lambda>(null_pos, path).
      sys_create_at p (take (null_pos + 1) path) Directory 0 0))"

section \<open>Sockets\<close>

definition sys_socket :: "image \<Rightarrow> nat \<Rightarrow> usize ksys" where
  "sys_socket im p =
     sys_then (arg_i32 p 0) (\<lambda>domain. sys_then (arg_i32 p 1) (\<lambda>t. sys_then (arg_i32 p 2) (\<lambda>protocol.
     sys_then (alloc_fd p) (\<lambda>fd.
     case fd of
       None \<Rightarrow> sys_err ''sys_socket: cannot allocate fd''
     | Some fd \<Rightarrow>
         sys_then (alloc_socket (ucast domain) (ucast t) (ucast protocol)) (\<lambda>f.
         sys_seq (replace_slot im p p fd f) (sys_ok (of_nat fd)))))))"

text \<open>A family code that the enum does not have is not a value of it.\<close>

definition sock_addr_of :: "u8 list \<Rightarrow> sock_addr option" where
  "sock_addr_of bs =
     (let c = le_u16 (\<lambda>i. bs ! i) 0;
          family = (if c = 0 then Some UNSPEC else if c = 1 then Some LOCAL else if c = 2 then Some INET else None)
      in map_option (\<lambda>f. \<lparr>sa_family = f, sa_port = le_u16 (\<lambda>i. bs ! i) 2, sa_addr = le_u32 (\<lambda>i. bs ! i) 4\<rparr>) family)"

definition socket_call ::
  "(socket \<Rightarrow> sock_addr \<Rightarrow> net \<Rightarrow> (unit result \<times> net) option) \<Rightarrow> string \<Rightarrow> string \<Rightarrow> nat \<Rightarrow> usize ksys" where
  "socket_call op not_found not_socket p =
     sys_then (arg_fd p 0) (\<lambda>fd. sys_then (arg_raw p 1) (\<lambda>addr. sys_then (arg_raw p 2) (\<lambda>addr_len.
     if addr_len \<noteq> 8 then sys_err ''addr_len invalid''
     else sys_then (user_copy_in p addr addr_len) (\<lambda>bs.
       sys_then (slot_file p fd not_found) (\<lambda>f.
       sys_then (get_file f) (\<lambda>file.
       case get_socket file of
         None \<Rightarrow> sys_err not_socket
       | Some so \<Rightarrow> sys_then (sys_unwrap (sock_addr_of bs)) (\<lambda>sa.
           sys_then (net_run (op so sa)) (\<lambda>r. sys_seq (sys_of r) (sys_ok 0)))))))))"

definition sys_bind :: "nat \<Rightarrow> usize ksys" where
  "sys_bind = socket_call socket_bind ''sys_bind: file not found'' ''sys_bind: file type must be socket''"

definition sys_connect :: "nat \<Rightarrow> usize ksys" where
  "sys_connect = socket_call socket_connect ''sys_connect: file not found'' ''sys_connect: file type must be socket''"

definition sys_listen :: "nat \<Rightarrow> usize ksys" where
  "sys_listen p = sys_ok 0"

definition sys_accept :: "nat \<Rightarrow> usize ksys" where
  "sys_accept p = sys_ok 0"

section \<open>Dispatch\<close>

definition sys_table :: "image \<Rightarrow> nat \<Rightarrow> usize \<Rightarrow> usize ksys" where
  "sys_table im p num =
     (if num = 1 then sys_fork im p
      else if num = 2 then sys_exit im p
      else if num = 3 then sys_wait im p
      else if num = 4 then sys_pipe im p
      else if num = 5 then sys_read im p
      else if num = 7 then sys_exec im p
      else if num = 8 then sys_fstat im p
      else if num = 9 then sys_chdir p
      else if num = 10 then sys_dup im p
      else if num = 12 then sys_sbrk p
      else if num = 15 then sys_open im p
      else if num = 16 then sys_write im p
      else if num = 17 then sys_mknod p
      else if num = 18 then sys_unlink p
      else if num = 20 then sys_mkdir p
      else if num = 21 then sys_close im p
      else if num = 22 then sys_socket im p
      else if num = 23 then sys_bind p
      else if num = 26 then sys_connect p
      else if num = 27 then sys_mmap p
      else if num = 28 then sys_getenv p
      else if num = 29 then sys_setenv p
      else if num = 30 then sys_unsetenv p
      else if num = 31 then sys_listenv p
      else sys_panic)"

definition syscall :: "image \<Rightarrow> nat \<Rightarrow> unit ksys" where
  "syscall im p =
     sys_then (trap_regs p) (\<lambda>tf.
     sys_seq (sys_upd (set_reg p TF_epc (tf TF_epc + 4)))
     (sys_then (sys_catch (sys_table im p (tf TF_a7)) (\<lambda>_. sys_ok (-1))) (\<lambda>ret.
      sys_upd (set_reg p TF_a0 ret))))"

end
