(* ===== verification/Kernel_Inv.thy ===== *)
theory Kernel_Inv
  imports Syscall Fs_Frame
begin

text \<open>
  Well-formedness of the kernel state, and that every system call keeps it: the tables have their
  sizes, the environments are sorted, the reference count of an open file is the number of
  descriptors that name it, and an end of a pipe is open exactly while a descriptor names it.

  \<open>hoare P m Q E\<close> is a triple with one postcondition for results and one for errors, waiting and
  exit.  Inside a system call a file may be referenced by a local variable: \<open>kernel_ok X\<close> counts the
  references of the list \<open>X\<close> too.
\<close>

section \<open>Triples\<close>

definition hoare :: "('k \<Rightarrow> bool) \<Rightarrow> ('k, 'a) sys \<Rightarrow> ('a \<Rightarrow> 'k \<Rightarrow> bool) \<Rightarrow> ('k \<Rightarrow> bool) \<Rightarrow> bool" where
  "hoare P m Q E \<longleftrightarrow>
     (\<forall>k r k'. P k \<longrightarrow> m k = Some (r, k') \<longrightarrow> (case r of Done (Ok x) \<Rightarrow> Q x k' | _ \<Rightarrow> E k'))"

lemma hoareI:
  assumes "\<And>k r k'. P k \<Longrightarrow> m k = Some (r, k') \<Longrightarrow> case r of Done (Ok x) \<Rightarrow> Q x k' | _ \<Rightarrow> E k'"
  shows "hoare P m Q E"
  using assms by (auto simp: hoare_def)

lemma hoare_then:
  assumes "hoare P m R E" "\<And>x. hoare (R x) (f x) Q E"
  shows "hoare P (sys_then m f) Q E"
proof (rule hoareI)
  fix k r k' assume k: "P k" "sys_then m f k = Some (r, k')"
  then obtain r1 k1 where m: "m k = Some (r1, k1)" by (auto simp: sys_then_def split: Option.bind_splits)
  have post: "case r1 of Done (Ok x) \<Rightarrow> R x k1 | _ \<Rightarrow> E k1" using assms(1) k(1) m by (simp add: hoare_def)
  show "case r of Done (Ok x) \<Rightarrow> Q x k' | _ \<Rightarrow> E k'"
  proof (cases "\<exists>x. r1 = Done (Ok x)")
    case True
    then obtain x where x: "r1 = Done (Ok x)" by blast
    then have "f x k1 = Some (r, k')" using k(2) m by (simp add: sys_then_def)
    then show ?thesis using assms(2) [of x] post x by (simp add: hoare_def)
  next
    case False
    then have "k' = k1 \<and> E k1 \<and> (\<forall>x. r \<noteq> Done (Ok x))"
      using k(2) m post by (auto simp: sys_then_def split: outcome.splits sum.splits)
    then show ?thesis by (auto split: outcome.splits sum.splits)
  qed
qed

lemma hoare_seq: "hoare P m (\<lambda>_. R) E \<Longrightarrow> hoare R m' Q E \<Longrightarrow> hoare P (sys_seq m m') Q E"
  unfolding sys_seq_def by (rule hoare_then)

lemma hoare_catch:
  assumes "hoare P m Q F" "\<And>e. hoare F (h e) Q E" "\<And>k. F k \<Longrightarrow> E k"
  shows "hoare P (sys_catch m h) Q E"
proof (rule hoareI)
  fix k r k' assume k: "P k" "sys_catch m h k = Some (r, k')"
  then obtain r1 k1 where m: "m k = Some (r1, k1)" by (auto simp: sys_catch_def split: Option.bind_splits)
  have post: "case r1 of Done (Ok x) \<Rightarrow> Q x k1 | _ \<Rightarrow> F k1" using assms(1) k(1) m by (simp add: hoare_def)
  show "case r of Done (Ok x) \<Rightarrow> Q x k' | _ \<Rightarrow> E k'"
  proof (cases "\<exists>e. r1 = Done (Err e)")
    case True
    then obtain e where e: "r1 = Done (Err e)" by blast
    then have "h e k1 = Some (r, k')" using k(2) m by (simp add: sys_catch_def)
    then show ?thesis using assms(2) [of e] post e by (simp add: hoare_def)
  next
    case False
    then have "r = r1 \<and> k' = k1"
      using k(2) m by (auto simp: sys_catch_def split: outcome.splits sum.splits)
    then show ?thesis using post assms(3) False by (auto split: outcome.splits sum.splits)
  qed
qed

lemma hoare_ok: "(\<And>k. P k \<Longrightarrow> Q x k) \<Longrightarrow> hoare P (sys_ok x) Q E"
  by (auto simp: hoare_def sys_ok_def)

lemma hoare_err: "(\<And>k. P k \<Longrightarrow> E k) \<Longrightarrow> hoare P (sys_err e) Q E"
  by (auto simp: hoare_def sys_err_def)

lemma hoare_panic: "hoare P sys_panic Q E"
  by (auto simp: hoare_def sys_panic_def)

lemma hoare_get: "(\<And>k. P k \<Longrightarrow> Q (f k) k) \<Longrightarrow> hoare P (sys_get f) Q E"
  by (auto simp: hoare_def sys_get_def)

lemma hoare_upd: "(\<And>k. P k \<Longrightarrow> Q () (f k)) \<Longrightarrow> hoare P (sys_upd f) Q E"
  by (auto simp: hoare_def sys_upd_def)

lemma hoare_pre: "hoare P' m Q E \<Longrightarrow> (\<And>k. P k \<Longrightarrow> P' k) \<Longrightarrow> hoare P m Q E"
  by (auto simp: hoare_def)

lemma hoare_post:
  assumes "hoare P m Q' E'" "\<And>x k. Q' x k \<Longrightarrow> Q x k" "\<And>k. E' k \<Longrightarrow> E k"
  shows "hoare P m Q E"
proof (rule hoareI)
  fix k r k' assume "P k" "m k = Some (r, k')"
  then have "case r of Done (Ok x) \<Rightarrow> Q' x k' | _ \<Rightarrow> E' k'" using assms(1) by (simp add: hoare_def)
  then show "case r of Done (Ok x) \<Rightarrow> Q x k' | _ \<Rightarrow> E k'"
    using assms(2,3) by (auto split: outcome.splits sum.splits)
qed

lemma hoare_each:
  assumes "\<And>i. i \<in> set is \<Longrightarrow> hoare I (body i) (\<lambda>_. I) E"
  shows "hoare I (sys_each is body) (\<lambda>_. I) E"
  using assms by (induction "is") (auto intro: hoare_ok hoare_seq)

text \<open>A triple for one state at a time.\<close>

lemma hoare_state: "(\<And>k. P k \<Longrightarrow> hoare (\<lambda>k'. k' = k) m Q E) \<Longrightarrow> hoare P m Q E"
  by (auto simp: hoare_def)

lemma hoare_get_state:
  assumes "\<And>k. P k \<Longrightarrow> hoare (\<lambda>k'. k' = k) (m (f k)) Q E"
  shows "hoare P (sys_then (sys_get f) m) Q E"
  using assms by (auto simp: hoare_def sys_then_def sys_get_def)

section \<open>Well-formed states\<close>

definition file_refs :: "nat \<Rightarrow> kernel \<Rightarrow> nat" where
  "file_refs f k = (if f < length (k_files k) then f_refs (k_files k ! f) else 0)"

definition slot_refs :: "nat \<Rightarrow> kernel \<Rightarrow> nat" where
  "slot_refs f k = (\<Sum>d\<leftarrow>k_data k. count_list (pd_ofiles d) (Some f))"

definition end_open :: "bool \<Rightarrow> pipe \<Rightarrow> bool" where
  "end_open w pi = (if w then pi_write_open pi else pi_read_open pi)"

definition pipe_end :: "kernel \<Rightarrow> nat \<Rightarrow> nat \<Rightarrow> bool \<Rightarrow> bool" where
  "pipe_end k f q w \<longleftrightarrow> f < length (k_files k) \<and> f_inner (k_files k ! f) = FI_Pipe q \<and> f_writable (k_files k ! f) = w"

definition pipes_ok :: "kernel \<Rightarrow> bool" where
  "pipes_ok k \<longleftrightarrow> (\<forall>pi \<in> set (k_pipes k). pipe_inv pi) \<and>
     (\<forall>f q w. pipe_end k f q w \<longrightarrow> q < length (k_pipes k) \<and> (0 < file_refs f k \<longleftrightarrow> end_open w (k_pipes k ! q))) \<and>
     (\<forall>f g q w. pipe_end k f q w \<longrightarrow> pipe_end k g q w \<longrightarrow> f = g)"

definition env_ok :: "env \<Rightarrow> bool" where
  "env_ok e \<longleftrightarrow> sorted_wrt (<) (map fst e)"

definition data_ok :: "proc_data \<Rightarrow> bool" where
  "data_ok d \<longleftrightarrow> length (pd_ofiles d) = NOFILE \<and> length (pd_vmas d) = 100 \<and> (\<forall>e. pd_env d = Some e \<longrightarrow> env_ok e)"

definition tables_ok :: "kernel \<Rightarrow> bool" where
  "tables_ok k \<longleftrightarrow> length (k_inner k) = NPROC \<and> length (k_data k) = NPROC \<and> length (k_parents k) = NPROC \<and>
     (\<forall>d \<in> set (k_data k). data_ok d) \<and> (\<forall>q. Some q \<in> set (k_parents k) \<longrightarrow> q < NPROC)"

definition kernel_ok :: "nat list \<Rightarrow> kernel \<Rightarrow> bool" where
  "kernel_ok X k \<longleftrightarrow> tables_ok k \<and> pipes_ok k \<and> (\<forall>f. file_refs f k = slot_refs f k + count_list X f)"

lemma kernel_okD:
  assumes "kernel_ok X k"
  shows "length (k_inner k) = NPROC" "length (k_data k) = NPROC" "length (k_parents k) = NPROC"
    "\<And>d. d \<in> set (k_data k) \<Longrightarrow> data_ok d" "\<And>q. Some q \<in> set (k_parents k) \<Longrightarrow> q < NPROC" "pipes_ok k"
    "\<And>f. file_refs f k = slot_refs f k + count_list X f"
  using assms by (auto simp: kernel_ok_def tables_ok_def)

text \<open>The part of the state it is about.\<close>

definition ker_rest :: "kernel \<Rightarrow> _" where
  "ker_rest k = (k_pipes k, k_files k, length (k_inner k), k_data k, k_parents k)"

lemma kernel_ok_rest:
  assumes "ker_rest k' = ker_rest k" "kernel_ok X k"
  shows "kernel_ok X k'"
proof -
  have e: "k_pipes k' = k_pipes k" "k_files k' = k_files k" "length (k_inner k') = length (k_inner k)"
    "k_data k' = k_data k" "k_parents k' = k_parents k"
    using assms(1) by (simp_all add: ker_rest_def)
  show ?thesis
    using assms(2) unfolding kernel_ok_def tables_ok_def pipes_ok_def pipe_end_def file_refs_def slot_refs_def e .
qed

lemma fs_ker_rest:
  assumes "fs_state.more k' = fs_state.more (k :: kernel)"
  shows "ker_rest k' = ker_rest k"
  using assms by (cases k; cases k') (simp add: ker_rest_def)

section \<open>Operations that keep well-formedness\<close>

definition keeps :: "'a ksys \<Rightarrow> bool" where
  "keeps m \<longleftrightarrow> (\<forall>X. hoare (kernel_ok X) m (\<lambda>_. kernel_ok X) (kernel_ok X))"

lemma keeps_hoare: "keeps m \<Longrightarrow> hoare (kernel_ok X) m (\<lambda>_. kernel_ok X) (kernel_ok X)"
  by (simp add: keeps_def)

lemma keepsI:
  assumes "\<And>X k r k'. kernel_ok X k \<Longrightarrow> m k = Some (r, k') \<Longrightarrow> kernel_ok X k'"
  shows "keeps m"
  unfolding keeps_def hoare_def using assms by (auto split: outcome.splits sum.splits)

lemma keepsD:
  assumes "keeps m" "m k = Some (r, k')" "kernel_ok X k"
  shows "kernel_ok X k'"
proof -
  have "case r of Done (Ok x) \<Rightarrow> kernel_ok X k' | _ \<Rightarrow> kernel_ok X k'"
    using keeps_hoare [OF assms(1), of X] assms(2,3) unfolding hoare_def by blast
  then show ?thesis by (simp split: outcome.splits sum.splits)
qed

lemma keeps_rest: "(\<And>k r k'. m k = Some (r, k') \<Longrightarrow> ker_rest k' = ker_rest k) \<Longrightarrow> keeps m"
  by (rule keepsI) (blast intro: kernel_ok_rest)

named_theorems keep

lemma keeps_then [keep]: "keeps m \<Longrightarrow> (\<And>x. keeps (f x)) \<Longrightarrow> keeps (sys_then m f)"
  unfolding keeps_def by (blast intro: hoare_then)

lemma keeps_seq [keep]: "keeps m \<Longrightarrow> keeps m' \<Longrightarrow> keeps (sys_seq m m')"
  unfolding sys_seq_def by (rule keeps_then)

lemma keeps_catch [keep]: "keeps m \<Longrightarrow> (\<And>e. keeps (h e)) \<Longrightarrow> keeps (sys_catch m h)"
  unfolding keeps_def by (blast intro: hoare_catch)

lemma keeps_each [keep]: "(\<And>i. keeps (body i)) \<Longrightarrow> keeps (sys_each is body)"
  unfolding keeps_def by (blast intro: hoare_each)

lemma keeps_basic [keep]:
  "keeps (sys_ok x)" "keeps (sys_err e)" "keeps sys_panic" "keeps (sys_get f)" "keeps (sys_of r)" "keeps (sys_unwrap v)"
  by (auto simp: sys_ok_def sys_err_def sys_panic_def sys_get_def sys_of_def sys_unwrap_def
      split: option.splits intro!: keeps_rest)

lemma keeps_upd [keep]: "(\<And>X k. kernel_ok X k \<Longrightarrow> kernel_ok X (f k)) \<Longrightarrow> keeps (sys_upd f)"
  by (auto simp: sys_upd_def intro: keepsI)

lemma keeps_if [keep]: "(b \<Longrightarrow> keeps m) \<Longrightarrow> (\<not> b \<Longrightarrow> keeps m') \<Longrightarrow> keeps (if b then m else m')"
  by simp

lemma keeps_option [keep]: "(v = None \<Longrightarrow> keeps m) \<Longrightarrow> (\<And>x. v = Some x \<Longrightarrow> keeps (f x)) \<Longrightarrow> keeps (case v of None \<Rightarrow> m | Some x \<Rightarrow> f x)"
  by (cases v) simp_all

lemma keeps_prod [keep]: "(\<And>a b. v = (a, b) \<Longrightarrow> keeps (f a b)) \<Longrightarrow> keeps (case v of (a, b) \<Rightarrow> f a b)"
  by (cases v) simp

lemma keeps_Let [keep]: "keeps (f v) \<Longrightarrow> keeps (let x = v in f x)"
  by simp

lemma keeps_run [keep]: "(\<And>k k'. f k = Some k' \<Longrightarrow> ker_rest k' = ker_rest k) \<Longrightarrow> keeps (sys_run f)"
  by (rule keeps_rest) (auto simp: sys_run_def)

lemma keeps_val [keep]: "(\<And>k x k'. f k = Some (x, k') \<Longrightarrow> ker_rest k' = ker_rest k) \<Longrightarrow> keeps (sys_val f)"
  by (rule keeps_rest) (auto simp: sys_val_def)

text \<open>The file system.\<close>

lemma fs_rest_ker: "fs_rest k' = fs_rest (k :: kernel) \<Longrightarrow> ker_rest k' = ker_rest k"
  by (rule fs_ker_rest) (simp add: fs_rest_def)

lemma log_more_ker: "log_state.more k' = log_state.more (k :: kernel) \<Longrightarrow> ker_rest k' = ker_rest k"
  by (cases k; cases k') (simp add: ker_rest_def)

lemma keeps_op [keep]: "keeps (sys_run begin_op)" "keeps (sys_run end_op)"
  by (rule keeps_run, rule log_more_ker, drule begin_op_rest end_op_rest, simp)+

lemma keeps_fs [keep]:
  "keeps (sys_run (ilock ip))" "keeps (sys_run (iput i))" "keeps (sys_run (itrunc i))"
  by (rule keeps_run, erule fs_laws [THEN fs_rest_ker])+

lemma keeps_fs_val [keep]:
  "keeps (sys_val (namei cwd path))" "keeps (sys_val (create cwd path t major minor))" "keeps (sys_val (unlink cwd path))"
  by (rule keeps_val, erule fs_laws [THEN fs_rest_ker])+

lemma keeps_create [keep]: "keeps (sys_val (\<lambda>k. map_option (apfst g) (create cwd path t major minor k)))"
  by (rule keeps_val) (auto dest: create_rest fs_rest_ker)

lemma keeps_idup [keep]: "keeps (sys_val (\<lambda>k. Some (idup ip k)))"
  by (rule keeps_val) (auto dest: idup_rest fs_rest_ker)

lemma keeps_unlock [keep]: "keeps (sys_upd (idata_unlock i))"
  by (rule keeps_upd, rule kernel_ok_rest [OF fs_rest_ker]) simp_all

text \<open>Memory, console and network.\<close>

lemma keeps_vm_run [keep]: "keeps (vm_run f)"
  by (rule keeps_rest) (auto simp: vm_run_def ker_rest_def split: Option.bind_splits)

lemma keeps_vm_do [keep]: "keeps (vm_do f)"
  unfolding vm_do_def by (rule keeps_vm_run)

lemma keeps_net_run [keep]: "keeps (net_run f)"
  by (rule keeps_rest) (auto simp: net_run_def ker_rest_def split: Option.bind_splits)

lemma keeps_sleep [keep]: "keeps (sys_sleep p chan)"
  by (rule keeps_rest) (auto simp: sys_sleep_def ker_rest_def sleep_on_def)

lemma keeps_wakeup [keep]: "keeps (sys_wakeup p chan)"
  unfolding sys_wakeup_def by (rule keeps_upd, rule kernel_ok_rest) (auto simp: ker_rest_def)

text \<open>The helpers of the system calls.\<close>

lemma keeps_helpers [keep]:
  "keeps (get_data p)" "keeps (page_root p)" "keeps (trap_regs p)" "keeps (arg_raw p n)" "keeps (arg_i32 p n)"
  "keeps (arg_fd p n)" "keeps (alloc_fd p)" "keeps (get_file f)" "keeps (user_copy_out p va bs)" "keeps (drop_inode ip)"
  unfolding get_data_def page_root_def trap_regs_def arg_raw_def arg_i32_def arg_fd_def alloc_fd_def get_file_def
    user_copy_out_def drop_inode_def
  by (intro keep)+

lemma keeps_copy_in [keep]: "keeps (user_copy_in p va n)"
  unfolding user_copy_in_def
  by (intro keeps_then keep keeps_rest) (auto simp: sys_ok_def sys_err_def split: prod.splits sum.splits)

lemma keeps_fetch_str [keep]: "keeps (fetch_str p addr dst)"
  unfolding fetch_str_def
  by (intro keeps_then keep keeps_rest) (auto simp: sys_ok_def sys_err_def split: prod.splits sum.splits option.splits)

lemma keeps_arguments [keep]: "keeps (arg_str p n dst)" "keeps (fetch_addr p addr)"
  unfolding arg_str_def fetch_addr_def by (intro keep)+

lemma keeps_wake_pipe [keep]: "keeps (wake_pipe im p q chans)"
  unfolding wake_pipe_def by (intro keep)

text \<open>Updates of a process that leave its descriptors alone.\<close>

lemma upd_proc_ok:
  assumes "kernel_ok X k" "\<And>d. data_ok d \<Longrightarrow> data_ok (g d)" "\<And>d. pd_ofiles (g d) = pd_ofiles d"
  shows "kernel_ok X (upd_proc p g k)"
proof -
  note ok = kernel_okD [OF assms(1)]
  have d: "data_ok d" if "d \<in> set ((k_data k)[p := g (k_data k ! p)])" for d
  proof (cases "p < length (k_data k)")
    case True
    then have "data_ok (g (k_data k ! p))" using assms(2) ok(4) nth_mem by blast
    then show ?thesis using that ok(4) set_update_subset_insert [of "k_data k" p "g (k_data k ! p)"] by blast
  qed (use that ok(4) in \<open>simp add: list_update_beyond\<close>)
  have "map (\<lambda>d. count_list (pd_ofiles d) x) ((k_data k)[p := g (k_data k ! p)]) =
      map (\<lambda>d. count_list (pd_ofiles d) x) (k_data k)" for x
  proof (rule nth_equalityI)
    fix i
    show "map (\<lambda>d. count_list (pd_ofiles d) x) ((k_data k)[p := g (k_data k ! p)]) ! i =
        map (\<lambda>d. count_list (pd_ofiles d) x) (k_data k) ! i"
      if "i < length (map (\<lambda>d. count_list (pd_ofiles d) x) ((k_data k)[p := g (k_data k ! p)]))"
      using that by (cases "i = p") (simp_all add: assms(3))
  qed simp
  then have "slot_refs f (upd_proc p g k) = slot_refs f k" for f
    by (simp add: slot_refs_def upd_proc_def)
  moreover have "file_refs f (upd_proc p g k) = file_refs f k" "pipes_ok (upd_proc p g k) = pipes_ok k" for f
    by (simp_all add: file_refs_def pipes_ok_def pipe_end_def upd_proc_def)
  ultimately show ?thesis
    using ok d unfolding kernel_ok_def tables_ok_def by (simp add: upd_proc_def)
qed

lemma upd_inner_ok: "kernel_ok X k \<Longrightarrow> kernel_ok X (upd_inner p g k)"
  by (rule kernel_ok_rest) (auto simp: ker_rest_def upd_inner_def)

lemma data_ok_fields [simp]:
  "data_ok (pd_trapframe_update f0 d) = data_ok d"
  "data_ok (pd_regs_update f1 d) = data_ok d"
  "data_ok (pd_table_update f2 d) = data_ok d"
  "data_ok (pd_sz_update f3 d) = data_ok d"
  "data_ok (pd_cwd_update f4 d) = data_ok d"
  "data_ok (pd_context_update f5 d) = data_ok d"
  "data_ok (pd_cur_max_update f6 d) = data_ok d"
  by (simp_all add: data_ok_def)

lemma keeps_upd_proc [keep]:
  "(\<And>d. data_ok d \<Longrightarrow> data_ok (g d)) \<Longrightarrow> (\<And>d. pd_ofiles (g d) = pd_ofiles d) \<Longrightarrow> keeps (sys_upd (upd_proc p g))"
  by (intro keeps_upd upd_proc_ok) auto

lemma keeps_set_reg [keep]: "keeps (sys_upd (set_reg p r v))"
  unfolding set_reg_def by (rule keeps_upd_proc) simp_all

lemma keeps_upd_inner [keep]: "keeps (sys_upd (upd_inner p g))"
  by (intro keeps_upd upd_inner_ok)

lemma parents_frame [simp]:
  "pipes_ok (k\<lparr>k_parents := ps\<rparr>) = pipes_ok k" "file_refs f (k\<lparr>k_parents := ps\<rparr>) = file_refs f k"
  "slot_refs f (k\<lparr>k_parents := ps\<rparr>) = slot_refs f k"
  by (simp_all add: pipes_ok_def pipe_end_def file_refs_def slot_refs_def)

lemma parents_ok:
  assumes "kernel_ok X k" "\<And>q. v = Some q \<Longrightarrow> q < NPROC"
  shows "kernel_ok X (k_parents_update (\<lambda>ps. ps[i := v]) k)"
proof -
  have "q < NPROC" if "Some q \<in> set ((k_parents k)[i := v])" for q
    using that assms(2) kernel_okD(5) [OF assms(1)] set_update_subset_insert [of "k_parents k" i v] by blast
  then have "tables_ok (k\<lparr>k_parents := (k_parents k)[i := v]\<rparr>)"
    using kernel_okD(1-4) [OF assms(1)] by (simp add: tables_ok_def)
  moreover have "k_parents_update (\<lambda>ps. ps[i := v]) k = k\<lparr>k_parents := (k_parents k)[i := v]\<rparr>" by simp
  ultimately show ?thesis
    using kernel_okD(6,7) [OF assms(1)] by (simp only: kernel_ok_def parents_frame) simp
qed

lemma keeps_parents [keep]: "q < NPROC \<Longrightarrow> keeps (sys_upd (k_parents_update (\<lambda>ps. ps[i := Some q])))"
  "keeps (sys_upd (k_parents_update (\<lambda>ps. ps[i := None])))"
  by (intro keeps_upd parents_ok; simp)+

section \<open>References\<close>

lemma count_list_update:
  "i < length xs \<Longrightarrow> count_list (xs[i := y]) x + of_bool (xs ! i = x) = count_list xs x + of_bool (y = x)"
proof (induction xs arbitrary: i)
  case (Cons a xs)
  then show ?case by (cases i) auto
qed simp

lemma sum_list_map_update:
  fixes h :: "'a \<Rightarrow> nat"
  shows "i < length xs \<Longrightarrow> sum_list (map h (xs[i := y])) + h (xs ! i) = sum_list (map h xs) + h y"
proof (induction xs arbitrary: i)
  case (Cons a xs)
  then show ?case by (cases i) auto
qed simp

definition refs_of :: "nat option \<Rightarrow> nat list" where
  "refs_of v = (case v of None \<Rightarrow> [] | Some f \<Rightarrow> [f])"

lemma count_refs_of [simp]: "count_list (refs_of v) f = of_bool (v = Some f)"
  by (auto simp: refs_of_def split: option.splits)

lemma refs_of_simps [simp]: "refs_of None = []" "refs_of (Some f) = [f]"
  by (simp_all add: refs_of_def)

text \<open>Putting a descriptor into a slot: the local reference to the new file becomes one to the old file.\<close>

abbreviation set_slot :: "nat \<Rightarrow> nat option \<Rightarrow> proc_data \<Rightarrow> proc_data" where
  "set_slot i v \<equiv> pd_ofiles_update (\<lambda>fs. fs[i := v])"

lemma data_ok_set_slot [simp]: "data_ok (set_slot i v d) = data_ok d"
  by (simp add: data_ok_def)

lemma set_slot_ok:
  assumes "kernel_ok (refs_of v @ X) k" "p < NPROC" "i < NOFILE"
  shows "kernel_ok (refs_of (pd_ofiles (k_data k ! p) ! i) @ X) (upd_proc p (set_slot i v) k)"
proof -
  note ok = kernel_okD [OF assms(1)]
  let ?d = "k_data k ! p" and ?k = "upd_proc p (set_slot i v) k"
  have p: "p < length (k_data k)" using ok(2) assms(2) by simp
  have i: "i < length (pd_ofiles ?d)" using ok(4) [of ?d] p assms(3) by (simp add: data_ok_def)
  have "slot_refs f ?k + of_bool (pd_ofiles ?d ! i = Some f) = slot_refs f k + of_bool (v = Some f)" for f
    using sum_list_map_update [OF p, of "\<lambda>d. count_list (pd_ofiles d) (Some f)" "set_slot i v ?d"]
      count_list_update [OF i, of v "Some f"] by (simp add: slot_refs_def upd_proc_def)
  moreover have "file_refs f ?k = file_refs f k" for f by (simp add: file_refs_def upd_proc_def)
  moreover have "pipes_ok ?k" using ok(6) by (simp add: pipes_ok_def pipe_end_def file_refs_def upd_proc_def)
  moreover have "tables_ok ?k"
    using ok(1-5) p set_update_subset_insert [of "k_data k" p "set_slot i v ?d"] by (fastforce simp: tables_ok_def upd_proc_def)
  ultimately show ?thesis
    using ok(7) unfolding kernel_ok_def by (simp add: add.commute add.left_commute)
qed

lemma nth_update_if: "j < length xs \<Longrightarrow> xs[i := y] ! j = (if i = j then y else xs ! j)"
  by simp

lemma file_refs_in: "f < length (k_files k) \<Longrightarrow> file_refs f k = f_refs (k_files k ! f)"
  by (simp add: file_refs_def)

lemma file_refs_upd:
  "file_refs g (upd_file f h k) = (if g = f \<and> f < length (k_files k) then f_refs (h (k_files k ! f)) else file_refs g k)"
  by (simp add: file_refs_def upd_file_def)

lemma upd_file_frame [simp]:
  "tables_ok (upd_file f h k) = tables_ok k" "slot_refs g (upd_file f h k) = slot_refs g k"
  "k_pipes (upd_file f h k) = k_pipes k"
  by (simp_all add: tables_ok_def slot_refs_def upd_file_def)

lemma pipe_end_refs [simp]: "pipe_end (upd_file f (f_refs_update h) k) = pipe_end k"
  by (auto simp: pipe_end_def upd_file_def nth_update_if fun_eq_iff split: if_splits)

lemma upd_pipe_frame:
  "tables_ok (upd_pipe q pi k) = tables_ok k" "slot_refs g (upd_pipe q pi k) = slot_refs g k"
  "file_refs g (upd_pipe q pi k) = file_refs g k" "pipe_end (upd_pipe q pi k) = pipe_end k"
  "k_pipes (upd_pipe q pi k) = (k_pipes k)[q := pi]"
  by (simp_all add: tables_ok_def slot_refs_def file_refs_def pipe_end_def fun_eq_iff upd_pipe_def)

lemma pipes_ok_cong:
  assumes "pipes_ok k" "k_pipes k' = k_pipes k" "pipe_end k' = pipe_end k"
    "\<And>g q w. pipe_end k g q w \<Longrightarrow> 0 < file_refs g k' \<longleftrightarrow> 0 < file_refs g k"
  shows "pipes_ok k'"
  using assms(1,4) unfolding pipes_ok_def assms(2,3) by blast

lemma arc_clone_ok:
  assumes "kernel_ok X k" "0 < file_refs f k"
  shows "kernel_ok (f # X) (upd_file f (f_refs_update Suc) k)"
proof -
  have f: "f < length (k_files k)" "0 < f_refs (k_files k ! f)" using assms(2) by (simp_all add: file_refs_def split: if_splits)
  have "file_refs g (upd_file f (f_refs_update Suc) k) = file_refs g k + of_bool (g = f)" for g
    using f by (simp add: file_refs_upd file_refs_in)
  moreover from this have "0 < file_refs g (upd_file f (f_refs_update Suc) k) \<longleftrightarrow> 0 < file_refs g k" for g
    using assms(2) by auto
  then have "pipes_ok (upd_file f (f_refs_update Suc) k)"
    by (intro pipes_ok_cong [OF kernel_okD(6) [OF assms(1)]]) simp_all
  ultimately show ?thesis
    using assms(1) unfolding kernel_ok_def by simp
qed

text \<open>Dropping a local reference that is not the last one.\<close>

lemma arc_drop_shared:
  assumes "kernel_ok (f # X) k" "f_refs (k_files (upd_file f (f_refs_update (\<lambda>n. n - 1)) k) ! f) \<noteq> 0 \<or> (\<forall>q w. \<not> pipe_end k f q w)"
  shows "kernel_ok X (upd_file f (f_refs_update (\<lambda>n. n - 1)) k)"
proof -
  let ?k = "upd_file f (f_refs_update (\<lambda>n. n - 1)) k"
  note ok = kernel_okD [OF assms(1)]
  have r: "file_refs f k = Suc (slot_refs f k + count_list X f)" using ok(7) [of f] by simp
  then have f: "f < length (k_files k)" by (simp add: file_refs_def split: if_splits)
  have refs: "file_refs g ?k = slot_refs g k + count_list X g" for g
    using f r ok(7) [of g] by (auto simp: file_refs_upd file_refs_in)
  have "0 < file_refs g ?k \<longleftrightarrow> 0 < file_refs g k" if "pipe_end k g q w" for g q w
  proof (cases "g = f")
    case True
    then have "file_refs f ?k \<noteq> 0" using assms(2) that f by (auto simp: file_refs_def upd_file_def)
    then show ?thesis using True r by simp
  qed (simp add: file_refs_upd)
  then have "pipes_ok ?k" by (intro pipes_ok_cong [OF ok(6)]) simp_all
  then show ?thesis using assms(1) refs by (simp add: kernel_ok_def)
qed

text \<open>Dropping the last reference to an end of a pipe.\<close>

lemma arc_drop_pipe:
  assumes "kernel_ok (f # X) k" "pipe_end k f q w" "f_refs (k_files (upd_file f (f_refs_update (\<lambda>n. n - 1)) k) ! f) = 0"
  shows "kernel_ok X (upd_pipe q (fst (pipe_close w (k_pipes k ! q))) (upd_file f (f_refs_update (\<lambda>n. n - 1)) k))"
proof -
  define k1 where "k1 = upd_file f (f_refs_update (\<lambda>n. n - 1)) k"
  let ?pi = "fst (pipe_close w (k_pipes k ! q))"
  let ?k = "upd_pipe q ?pi k1"
  note ok = kernel_okD [OF assms(1)]
  have f: "f < length (k_files k)" using assms(2) by (simp add: pipe_end_def)
  have q: "q < length (k_pipes k)" using ok(6) assms(2) by (auto simp: pipes_ok_def)
  have inv: "pipe_inv (k_pipes k ! q)" using ok(6) q by (simp add: pipes_ok_def)
  have close: "pipe_inv ?pi" "end_open w ?pi = False" "end_open (\<not> w) ?pi = end_open (\<not> w) (k_pipes k ! q)"
    using inv by (auto simp: pipe_close_def pipe_inv_def end_open_def)
  have frame: "tables_ok ?k = tables_ok k" "slot_refs g ?k = slot_refs g k" "file_refs g ?k = file_refs g k1"
    "pipe_end ?k = pipe_end k" "k_pipes ?k = (k_pipes k)[q := ?pi]" for g
    by (simp_all only: upd_pipe_frame upd_file_frame pipe_end_refs k1_def)
  have refs: "file_refs g k1 = slot_refs g k + count_list X g" for g
    using f ok(7) [of g] ok(7) [of f] by (auto simp: file_refs_upd file_refs_in k1_def)
  have zero: "file_refs f k1 = 0" using assms(3) by (simp add: file_refs_def k1_def)
  have "q' < length ((k_pipes k)[q := ?pi]) \<and> (0 < file_refs g k1 \<longleftrightarrow> end_open w' ((k_pipes k)[q := ?pi] ! q'))"
    if g: "pipe_end k g q' w'" for g q' w'
  proof (cases "g = f")
    case True
    then have "q' = q \<and> w' = w" using g assms(2) by (auto simp: pipe_end_def)
    then show ?thesis using True zero close q by simp
  next
    case False
    then have "\<not> (q' = q \<and> w' = w)" using g assms(2) ok(6) unfolding pipes_ok_def by blast
    moreover have "q' < length (k_pipes k) \<and> (0 < file_refs g k \<longleftrightarrow> end_open w' (k_pipes k ! q'))"
      using g ok(6) by (simp add: pipes_ok_def)
    moreover have "file_refs g k1 = file_refs g k" using False by (simp add: file_refs_upd k1_def)
    ultimately show ?thesis using close(3) by (cases "q' = q"; cases "w' = w") auto
  qed
  moreover have "\<forall>pi \<in> set ((k_pipes k)[q := ?pi]). pipe_inv pi"
    using ok(6) close(1) set_update_subset_insert [of "k_pipes k" q ?pi] by (auto simp: pipes_ok_def)
  ultimately have "pipes_ok ?k" using ok(6) unfolding pipes_ok_def frame by blast
  then have "kernel_ok X ?k" using assms(1) refs by (simp add: kernel_ok_def frame)
  then show ?thesis by (simp add: k1_def)
qed

section \<open>Operations on references\<close>

text \<open>Operations that do not fail and do not wait.\<close>

definition always_ok :: "('k, 'a) sys \<Rightarrow> bool" where
  "always_ok m \<longleftrightarrow> (\<forall>k r k'. m k = Some (r, k') \<longrightarrow> (\<exists>x. r = Done (Ok x)))"

lemma hoare_always_ok: "hoare P m Q E \<Longrightarrow> always_ok m \<Longrightarrow> hoare P m Q E'"
  by (rule hoareI) (fastforce simp: hoare_def always_ok_def)

named_theorems always

lemma always_then [always]: "always_ok m \<Longrightarrow> (\<And>x. always_ok (f x)) \<Longrightarrow> always_ok (sys_then m f)"
  by (fastforce simp: always_ok_def sys_then_def split: Option.bind_splits outcome.splits sum.splits)

lemma always_seq [always]: "always_ok m \<Longrightarrow> always_ok m' \<Longrightarrow> always_ok (sys_seq m m')"
  unfolding sys_seq_def by (rule always_then)

lemma always_basic [always]:
  "always_ok (sys_ok x)" "always_ok (sys_get f)" "always_ok (sys_upd u)" "always_ok (sys_run r)" "always_ok (sys_val v)"
  "always_ok (net_run n)" "always_ok (sys_wakeup p chan)"
  by (auto simp: always_ok_def sys_ok_def sys_get_def sys_upd_def sys_run_def sys_val_def net_run_def sys_wakeup_def
      split: Option.bind_splits)

lemma always_each [always]: "(\<And>i. always_ok (body i)) \<Longrightarrow> always_ok (sys_each is body)"
  by (induction "is") (auto intro: always)

lemma always_drop [always]: "always_ok (file_drop im p f)" "always_ok (arc_drop im p g)"
proof -
  show f: "always_ok (file_drop im p f)" for f
    by (auto simp: file_drop_def drop_inode_def wake_pipe_def split: file_inner.splits intro!: always)
  show "always_ok (arc_drop im p g)"
    by (auto simp: arc_drop_def get_file_def intro!: always f)
qed

lemma keeps_file_drop:
  assumes "\<And>q. f_inner f \<noteq> FI_Pipe q"
  shows "keeps (file_drop im p f)"
  using assms unfolding file_drop_def by (cases "f_inner f") (auto intro!: keep)

lemma arc_drop_hoare: "hoare (kernel_ok (f # X)) (arc_drop im p f) (\<lambda>_. kernel_ok X) E"
proof (rule hoare_always_ok [where E = "kernel_ok X"])
  show "hoare (kernel_ok (f # X)) (arc_drop im p f) (\<lambda>_. kernel_ok X) (kernel_ok X)"
  proof (rule hoareI)
    fix k r k' assume ok: "kernel_ok (f # X) k" and run: "arc_drop im p f k = Some (r, k')"
    define k1 where "k1 = upd_file f (f_refs_update (\<lambda>n. n - 1)) k"
    let ?fl = "k_files k1 ! f"
    have f: "f < length (k_files k)"
      using kernel_okD(7) [OF ok, of f] by (simp add: file_refs_def split: if_splits)
    have fl: "f_inner ?fl = f_inner (k_files k ! f)" "f_writable ?fl = f_writable (k_files k ! f)"
      using f by (simp_all add: k1_def upd_file_def)
    have k': "(if f_refs ?fl = 0 then file_drop im p ?fl else sys_ok ()) k1 = Some (r, k')"
      using run by (simp add: arc_drop_def sys_seq_def sys_then_def sys_upd_def get_file_def sys_get_def k1_def split: if_splits)
    have "kernel_ok X k'"
    proof (cases "f_refs ?fl = 0 \<and> (\<exists>q. f_inner ?fl = FI_Pipe q)")
      case True
      then obtain q where q: "f_inner ?fl = FI_Pipe q" by blast
      let ?c = "pipe_close (f_writable ?fl) (k_pipes k1 ! q)"
      have "wake_pipe im p q (snd ?c) (upd_pipe q (fst ?c) k1) = Some (r, k')"
        using k' True q by (simp add: file_drop_def sys_seq_def sys_then_def sys_get_def sys_upd_def split_beta)
      moreover have "kernel_ok X (upd_pipe q (fst ?c) k1)"
        using arc_drop_pipe [OF ok, of q "f_writable ?fl"] True q fl f by (simp add: pipe_end_def k1_def)
      ultimately show ?thesis by (rule keepsD [OF keeps_wake_pipe])
    next
      case False
      have "kernel_ok X k1"
        unfolding k1_def by (rule arc_drop_shared [OF ok]) (use False fl in \<open>auto simp: pipe_end_def k1_def\<close>)
      moreover have "keeps (if f_refs ?fl = 0 then file_drop im p ?fl else sys_ok ())"
        using False by (auto intro: keeps_file_drop keep)
      ultimately show ?thesis using keepsD k' by blast
    qed
    then show "case r of Done (Ok x) \<Rightarrow> kernel_ok X k' | _ \<Rightarrow> kernel_ok X k'"
      by (simp split: outcome.splits sum.splits)
  qed
qed (rule always)

lemma slot_hoare:
  assumes "p < NPROC" "i < NOFILE"
  shows "hoare (kernel_ok (refs_of v @ X))
     (sys_then (get_data p) (\<lambda>d. sys_seq (sys_upd (upd_proc p (set_slot i v)))
        (case pd_ofiles d ! i of None \<Rightarrow> sys_ok () | Some g \<Rightarrow> arc_drop im cur g))) (\<lambda>_. kernel_ok X) E"
  unfolding get_data_def
proof (rule hoare_get_state)
  fix k assume "kernel_ok (refs_of v @ X) k"
  note ok = set_slot_ok [OF this assms]
  let ?g = "pd_ofiles (k_data k ! p) ! i"
  have "hoare (kernel_ok (refs_of ?g @ X)) (case ?g of None \<Rightarrow> sys_ok () | Some g \<Rightarrow> arc_drop im cur g) (\<lambda>_. kernel_ok X) E"
    by (cases ?g) (auto intro: hoare_ok arc_drop_hoare)
  then show "hoare (\<lambda>k'. k' = k) (sys_seq (sys_upd (upd_proc p (set_slot i v)))
        (case ?g of None \<Rightarrow> sys_ok () | Some g \<Rightarrow> arc_drop im cur g)) (\<lambda>_. kernel_ok X) E"
    by (rule hoare_seq [rotated]) (rule hoare_upd, simp add: ok)
qed

lemma drop_slot_hoare:
  "p < NPROC \<Longrightarrow> i < NOFILE \<Longrightarrow> hoare (kernel_ok X) (drop_slot im p i) (\<lambda>_. kernel_ok X) E"
  using slot_hoare [of p i None X im p E] by (simp add: drop_slot_def)

lemma replace_slot_hoare:
  "p < NPROC \<Longrightarrow> i < NOFILE \<Longrightarrow> hoare (kernel_ok (f # X)) (replace_slot im cur p i f) (\<lambda>_. kernel_ok X) E"
  using slot_hoare [of p i "Some f" X im cur E] by (simp add: replace_slot_def)

lemma new_file_ok:
  assumes "kernel_ok X k"
    "\<And>q. fi = FI_Pipe q \<Longrightarrow> q < length (k_pipes k) \<and> end_open w (k_pipes k ! q) \<and> (\<forall>f. \<not> pipe_end k f q w)"
  shows "kernel_ok (length (k_files k) # X)
    (k\<lparr>k_files := k_files k @ [\<lparr>f_readable = r, f_writable = w, f_inner = fi, f_refs = 1\<rparr>]\<rparr>)"
proof -
  let ?n = "length (k_files k)"
  define k' where "k' = k\<lparr>k_files := k_files k @ [\<lparr>f_readable = r, f_writable = w, f_inner = fi, f_refs = 1\<rparr>]\<rparr>"
  note ok = kernel_okD [OF assms(1)]
  have refs: "file_refs f k' = file_refs f k + of_bool (f = ?n)" for f
    by (auto simp: file_refs_def k'_def nth_append)
  have ends: "pipe_end k' f q w' \<longleftrightarrow> pipe_end k f q w' \<or> f = ?n \<and> fi = FI_Pipe q \<and> w' = w" for f q w'
    by (auto simp: pipe_end_def k'_def nth_append)
  have old: "\<not> pipe_end k ?n q w'" for q w' by (simp add: pipe_end_def)
  have same: "k_pipes k' = k_pipes k" "tables_ok k' = tables_ok k" "slot_refs f k' = slot_refs f k" for f
    by (simp_all add: k'_def tables_ok_def slot_refs_def)
  have "q < length (k_pipes k) \<and> (0 < file_refs f k' \<longleftrightarrow> end_open w' (k_pipes k ! q))" if "pipe_end k' f q w'" for f q w'
    using that ends old assms(2) ok(6) by (auto simp: refs pipes_ok_def)
  moreover have unique: "f = g" if "pipe_end k f q w'" "pipe_end k g q w'" for f g q w'
    using that ok(6) unfolding pipes_ok_def by blast
  moreover have fresh: "\<not> pipe_end k f q w" if "fi = FI_Pipe q" for f q using assms(2) [OF that] by blast
  have "f = g" if "pipe_end k' f q w'" "pipe_end k' g q w'" for f g q w'
    using that unique [of f q w' g] fresh by (auto simp: ends)
  ultimately have "pipes_ok k'"
    using ok(6) unfolding pipes_ok_def same by blast
  then have "kernel_ok (?n # X) k'"
    using assms(1) refs by (auto simp: kernel_ok_def same)
  then show ?thesis by (simp add: k'_def)
qed

lemma new_file_hoare:
  "(\<And>q. fi \<noteq> FI_Pipe q) \<Longrightarrow> hoare (kernel_ok X) (new_file r w fi) (\<lambda>f. kernel_ok (f # X)) E"
  by (rule hoareI) (clarsimp simp: new_file_def, rule new_file_ok [unfolded One_nat_def], simp_all, metis)

lemma alloc_pipe_hoare: "hoare (kernel_ok X) alloc_pipe (\<lambda>(rf, wf). kernel_ok (rf # wf # X)) E"
proof (rule hoareI)
  fix k r k' assume ok: "kernel_ok X k" and run: "alloc_pipe k = Some (r, k')"
  define fl where "fl r w = \<lparr>f_readable = r, f_writable = w, f_inner = FI_Pipe (length (k_pipes k)), f_refs = 1\<rparr>" for r w
  define k1 where "k1 = k\<lparr>k_pipes := k_pipes k @ [pipe_new]\<rparr>"
  define k2 where "k2 = k1\<lparr>k_files := k_files k1 @ [fl True False]\<rparr>"
  let ?q = "length (k_pipes k)" and ?n = "length (k_files k)"
  have lt: "q < ?q" if "pipe_end k f q w" for f q w using kernel_okD(6) [OF ok] that by (auto simp: pipes_ok_def)
  have same: "pipe_end k1 = pipe_end k" "file_refs f k1 = file_refs f k" "tables_ok k1 = tables_ok k" "slot_refs f k1 = slot_refs f k" for f
    by (simp_all add: k1_def pipe_end_def file_refs_def tables_ok_def slot_refs_def fun_eq_iff)
  have "\<forall>pi \<in> set (k_pipes k1). pipe_inv pi" using kernel_okD(6) [OF ok] pipe_new_inv(1) by (auto simp: k1_def pipes_ok_def)
  moreover have "q < length (k_pipes k1) \<and> (0 < file_refs f k1 \<longleftrightarrow> end_open w (k_pipes k1 ! q))" if "pipe_end k f q w" for f q w
  proof -
    have "(0 < file_refs f k) = end_open w (k_pipes k ! q)" using kernel_okD(6) [OF ok] that by (simp add: pipes_ok_def)
    then show ?thesis using lt [OF that] by (simp add: same) (simp add: k1_def nth_append)
  qed
  ultimately have "pipes_ok k1" using kernel_okD(6) [OF ok] unfolding pipes_ok_def same by blast
  then have ok1: "kernel_ok X k1" using ok by (simp add: kernel_ok_def same)
  have no: "\<not> pipe_end k1 f ?q w" for f w using lt [of f ?q w] by (auto simp: same)
  have ok2: "kernel_ok (?n # X) k2"
    using new_file_ok [OF ok1, of "FI_Pipe ?q" False True] no
    by (simp add: k2_def k1_def fl_def end_open_def pipe_new_def)
  have "\<not> pipe_end k2 f ?q True" for f
    using no [of f True] by (auto simp: pipe_end_def k2_def fl_def nth_append split: if_splits)
  then have "kernel_ok (Suc ?n # ?n # X) (k2\<lparr>k_files := k_files k2 @ [fl False True]\<rparr>)"
    using new_file_ok [OF ok2, of "FI_Pipe ?q" True False]
    by (simp add: k2_def k1_def fl_def end_open_def pipe_new_def)
  moreover have "count_list (Suc ?n # ?n # X) f = count_list (?n # Suc ?n # X) f" for f by simp
  ultimately have "kernel_ok (?n # Suc ?n # X) (k2\<lparr>k_files := k_files k2 @ [fl False True]\<rparr>)"
    unfolding kernel_ok_def by simp
  moreover have "r = Done (Ok (?n, Suc ?n)) \<and> k' = k2\<lparr>k_files := k_files k2 @ [fl False True]\<rparr>"
    using run by (auto simp: alloc_pipe_def sys_then_def sys_seq_def sys_get_def sys_upd_def new_file_def sys_ok_def
        k2_def k1_def fl_def)
  ultimately show "case r of Done (Ok x) \<Rightarrow> (case x of (a, b) \<Rightarrow> kernel_ok (a # b # X)) k' | _ \<Rightarrow> E k'"
    by simp
qed

end
