(* ===== verification/Syscall_Inv.thy ===== *)
theory Syscall_Inv
  imports Kernel_Inv
begin

text \<open>
  Every system call keeps the kernel well-formed: the rules of \<open>Kernel_Inv\<close> applied to the operations
  on files, to the life of a process, to the loader and to the system calls, and through the
  dispatcher to a whole system call.
\<close>

section \<open>Files\<close>

text \<open>A step of a component followed by the rest of the operation.\<close>

lemma keeps_bind:
  assumes "\<And>k x k'. g k = Some (x, k') \<Longrightarrow> ker_rest k' = ker_rest k" "\<And>x. keeps (m x)"
  shows "keeps (\<lambda>k. g k \<bind> (\<lambda>(x, k). m x k))"
proof (rule keepsI)
  fix X k r k' assume "kernel_ok X k" "g k \<bind> (\<lambda>(x, k). m x k) = Some (r, k')"
  then obtain x k1 where "g k = Some (x, k1)" "m x k1 = Some (r, k')" "kernel_ok X k1"
    using assms(1) kernel_ok_rest by (fastforce split: Option.bind_splits)
  then show "kernel_ok X k'" using assms(2) keepsD by blast
qed

lemma upd_pipe_ok:
  assumes "kernel_ok X k" "q < length (k_pipes k) \<Longrightarrow> pipe_inv (k_pipes k ! q) \<Longrightarrow> pipe_inv pi \<and>
     pi_read_open pi = pi_read_open (k_pipes k ! q) \<and> pi_write_open pi = pi_write_open (k_pipes k ! q)"
  shows "kernel_ok X (upd_pipe q pi k)"
proof (cases "q < length (k_pipes k)")
  case True
  note ok = kernel_okD(6) [OF assms(1)]
  have pi: "pipe_inv pi" "end_open w pi = end_open w (k_pipes k ! q)" for w
    using assms(2) [OF True] True ok by (auto simp: pipes_ok_def end_open_def)
  then have "end_open w ((k_pipes k)[q := pi] ! q') = end_open w (k_pipes k ! q')" if "q' < length (k_pipes k)" for w q'
    using that by (simp add: nth_update_if)
  moreover have "\<forall>pi' \<in> set ((k_pipes k)[q := pi]). pipe_inv pi'"
    using ok pi(1) set_update_subset_insert [of "k_pipes k" q pi] by (auto simp: pipes_ok_def)
  ultimately have "pipes_ok (upd_pipe q pi k)"
    using ok by (auto simp: pipes_ok_def upd_pipe_frame)
  then show ?thesis using assms(1) by (simp add: kernel_ok_def upd_pipe_frame)
qed (use assms(1) in \<open>simp add: upd_pipe_def list_update_beyond\<close>)

lemma keeps_offset [keep]: "keeps (sys_upd (upd_file f (f_inner_update (\<lambda>_. FI_Inode ip off))))"
proof (rule keeps_upd)
  fix X k assume ok: "kernel_ok X k"
  let ?k = "upd_file f (f_inner_update (\<lambda>_. FI_Inode ip off)) k"
  have refs: "file_refs g ?k = file_refs g k" for g by (simp add: file_refs_upd file_refs_in)
  have "pipe_end k g q w" if "pipe_end ?k g q w" for g q w
    using that by (auto simp: pipe_end_def upd_file_def nth_update_if split: if_splits)
  then have "pipes_ok ?k" using kernel_okD(6) [OF ok] unfolding pipes_ok_def refs by simp blast
  then show "kernel_ok X ?k" using ok by (simp add: kernel_ok_def refs)
qed

lemma pipe_read_keeps:
  assumes "pipe_inv p" "pipe_read store n m p = (r, m', p', w)"
  shows "pipe_inv p' \<and> pi_read_open p' = pi_read_open p \<and> pi_write_open p' = pi_write_open p"
proof -
  have "pipe_inv p' \<and> pi_read_open p' = pi_read_open p \<and> pi_write_open p' = pi_write_open p"
    if "pipe_inv p" "pipe_read_loop store is m p = (m', p')" for "is" m p m' p'
    using that
  proof (induction "is" arbitrary: m p)
    case (Cons i "is")
    show ?case
    proof (cases "pipe_take p")
      case None
      then show ?thesis using Cons.prems by simp
    next
      case (Some cp)
      obtain c p1 where cp: "cp = (c, p1)" by force
      have p1: "pipe_inv p1" "pi_read_open p1 = pi_read_open p \<and> pi_write_open p1 = pi_write_open p"
        using pipe_queue.get_inv [OF Cons.prems(1) Some [unfolded cp]] pipe_take_fields [OF Some [unfolded cp]] by simp_all
      show ?thesis
        using Cons.prems(2) Cons.IH [OF p1(1)] p1 Some cp by (cases "store m i c") auto
    qed
  qed simp
  then show ?thesis
    using assms by (auto simp: pipe_read_def Let_def split: if_splits prod.splits)
qed

lemma keeps_device_write [keep]: "keeps (device_write p major addr n)"
  unfolding device_write_def
proof (intro keeps_if keeps_then keep keeps_rest, goal_cases)
  case (1 root k r k')
  then show ?case
    by (auto simp: Let_def sys_ok_def sys_sleep_def ker_rest_def sleep_on_def split: Option.bind_splits option.splits)
qed

lemma keeps_device_read [keep]: "keeps (device_read im p major addr n)"
  unfolding device_read_def
proof (intro keeps_if keeps_then keep keeps_rest, goal_cases)
  case (1 root k r k')
  then show ?case
    by (auto simp: Let_def sys_ok_def sys_sleep_def ker_rest_def sleep_on_def split: Option.bind_splits read_outcome.splits)
qed

lemma keeps_socket_write [keep]: "keeps (socket_file_write p so addr n)"
  unfolding socket_file_write_def
proof (rule keeps_then, rule keep, rule keepsI)
  fix root X r and k k' :: kernel
  let ?m = "sys_then (net_run (socket_write (\<lambda>m. copy_in root addr (of_nat m) (k_vm k)) so n)) sys_of"
  assume ok: "kernel_ok X k" and run: "?m k = Some (r, k')"
  have "keeps ?m" by (intro keeps_then keep)
  from keepsD [OF this run ok] show "kernel_ok X k'" .
qed

lemma keeps_socket_read [keep]: "keeps (socket_file_read im p so addr n)"
  unfolding socket_file_read_def
proof (intro keeps_then keep keeps_rest, goal_cases)
  case (1 root k r k')
  then show ?case
    by (auto simp: Let_def sys_of_def sys_sleep_def ker_rest_def sleep_on_def split: Option.bind_splits option.splits)
qed

text \<open>The end of a transfer over a pipe.\<close>

lemma pipe_finish:
  assumes "kernel_ok X (u k)" "sys_seq (sys_upd u) (sys_seq (wake_pipe im p q w)
     (case r of Sleeps c _ \<Rightarrow> sys_sleep p (im_pipe im q c) | Returns (Err e) \<Rightarrow> sys_err e
      | Returns (Ok i) \<Rightarrow> sys_ok (of_nat i :: usize))) k = Some (res, k')"
  shows "kernel_ok X k'"
proof (rule keepsD [OF _ _ assms(1)])
  let ?m = "sys_seq (wake_pipe im p q w) (case r of Sleeps c _ \<Rightarrow> sys_sleep p (im_pipe im q c)
      | Returns (Err e) \<Rightarrow> sys_err e | Returns (Ok i) \<Rightarrow> sys_ok (of_nat i :: usize))"
  show "keeps ?m" by (rule keeps_seq, rule keep) (auto split: pipe_outcome.splits sum.splits intro: keep)
  show "?m (u k) = Some (res, k')" using assms(2) by (simp add: sys_seq_def sys_then_def sys_upd_def)
qed

lemma keeps_pipe_write [keep]: "keeps (file_pipe_write im p q addr n)"
  unfolding file_pipe_write_def
proof (rule keeps_then, rule keep, rule keepsI, goal_cases)
  case (1 root X k res k')
  obtain r pi w where e: "pipe_write (user_fetch root addr (k_vm k)) (unat n) (k_pipes k ! q) = (r, pi, w)"
    by (metis prod_cases3)
  have "kernel_ok X (upd_pipe q pi k)"
    by (rule upd_pipe_ok [OF 1(1)]) (use e in \<open>auto simp: pipe_write_def dest: pipe_write_from_law\<close>)
  then show ?case using 1(2) unfolding e Let_def prod.case by (rule pipe_finish)
qed

lemma keeps_pipe_read [keep]: "keeps (file_pipe_read im p q addr n)"
  unfolding file_pipe_read_def
proof (rule keeps_then, rule keep, rule keepsI, goal_cases)
  case (1 root X k res k')
  obtain r v pi w where e: "pipe_read (user_put root addr) (nat (sint n)) (k_vm k) (k_pipes k ! q) = (r, v, pi, w)"
    by (metis prod_cases4)
  have "kernel_ok X (k\<lparr>k_vm := v\<rparr>)" by (rule kernel_ok_rest [OF _ 1(1)]) (simp add: ker_rest_def)
  then have "kernel_ok X (upd_pipe q pi (k\<lparr>k_vm := v\<rparr>))"
    by (rule upd_pipe_ok) (use e in \<open>auto dest: pipe_read_keeps\<close>)
  then show ?case using 1(2) unfolding e Let_def prod.case by (rule pipe_finish)
qed

lemma keeps_inode_write [keep]: "keeps (file_inode_write p f ip offset addr n)"
  unfolding file_inode_write_def
proof (rule keeps_seq, rule keep, rule keeps_seq, rule keep, rule keeps_then, rule keep, rule keepsI, goal_cases)
  case (1 root X k res k')
  obtain r m k1 where w: "writei (user_source root) (i_index ip) offset n (addr, k_vm k) k = Some (r, m, k1)"
    using 1(2) by (cases "writei (user_source root) (i_index ip) offset n (addr, k_vm k) k") auto
  have k1: "kernel_ok X k1" by (rule kernel_ok_rest [OF writei_rest [OF w, THEN fs_rest_ker] 1(1)])
  show ?case
  proof (cases r)
    case (Inl u)
    then have "k' = idata_unlock (i_index ip) k1" using 1(2) w by (simp add: sys_err_def split_beta)
    then show ?thesis using keepsD [OF keeps_unlock _ k1] by (simp add: sys_upd_def)
  next
    case (Inr u)
    let ?m = "sys_seq (sys_upd (upd_file f (f_inner_update (\<lambda>_. FI_Inode ip (offset + n)))))
           (sys_seq (sys_upd (idata_unlock (i_index ip))) (sys_seq (sys_run end_op) (sys_ok n)))"
    have "?m k1 = Some (res, k')" using 1(2) w Inr by (simp add: split_beta)
    moreover have "keeps ?m" by (intro keeps_seq keep)
    ultimately show ?thesis using k1 keepsD by blast
  qed
qed

lemma keeps_inode_read [keep]: "keeps (file_inode_read p f ip offset addr n)"
  unfolding file_inode_read_def
proof (rule keeps_seq, rule keep, rule keeps_then, rule keep, rule keepsI, goal_cases)
  case (1 root X k res k')
  obtain r a v k1 where w: "readi (user_sink root) (i_index ip) offset n (addr, k_vm k) k = Some (r, (a, v), k1)"
    using 1(2) by (cases "readi (user_sink root) (i_index ip) offset n (addr, k_vm k) k") auto
  have "kernel_ok X k1" by (rule kernel_ok_rest [OF readi_rest [OF w, THEN fs_rest_ker] 1(1)])
  then have k1: "kernel_ok X (k1\<lparr>k_vm := v\<rparr>)" by (rule kernel_ok_rest [rotated]) (simp add: ker_rest_def)
  show ?case
  proof (cases r)
    case (Inl u)
    then have "k' = idata_unlock (i_index ip) (k1\<lparr>k_vm := v\<rparr>)" using 1(2) w by (simp add: sys_err_def)
    then show ?thesis using keepsD [OF keeps_unlock _ k1] by (simp add: sys_upd_def)
  next
    case (Inr m)
    let ?m = "sys_seq (sys_upd (upd_file f (f_inner_update (\<lambda>_. FI_Inode ip (offset + m)))))
           (sys_seq (sys_upd (idata_unlock (i_index ip))) (sys_ok m))"
    have "?m (k1\<lparr>k_vm := v\<rparr>) = Some (res, k')" using 1(2) w Inr by simp
    moreover have "keeps ?m" by (intro keeps_seq keep)
    ultimately show ?thesis using k1 keepsD by blast
  qed
qed

lemma keeps_file_ops [keep]:
  "keeps (file_write im p f addr n)" "keeps (file_read im p f addr n)" "keeps (file_stat_of f st)" "keeps (file_seek f off)"
proof -
  have stat: "keeps (inode_stat ip)" for ip
    unfolding inode_stat_def by (intro keeps_seq keeps_then keep)
  show "keeps (file_write im p f addr n)" "keeps (file_read im p f addr n)"
    unfolding file_write_def file_read_def
    by (rule keeps_then, rule keep, rule keeps_if, rule keep, auto split: file_inner.splits intro: keep)+
  show "keeps (file_stat_of f st)"
    unfolding file_stat_of_def by (rule keeps_then, rule keep) (auto split: file_inner.splits intro: keep stat)
  show "keeps (file_seek f off)"
    unfolding file_seek_def by (rule keeps_then, rule keep) (auto split: file_inner.splits intro!: keeps_seq keep)
qed

text \<open>Triples that start with an operation that keeps the state well-formed.\<close>

lemma hoare_keeps_then:
  "keeps m \<Longrightarrow> (\<And>x. hoare (kernel_ok X) (f x) Q (kernel_ok X)) \<Longrightarrow> hoare (kernel_ok X) (sys_then m f) Q (kernel_ok X)"
  by (rule hoare_then [OF keeps_hoare])

lemma hoare_keeps_seq:
  "keeps m \<Longrightarrow> hoare (kernel_ok X) m' Q (kernel_ok X) \<Longrightarrow> hoare (kernel_ok X) (sys_seq m m') Q (kernel_ok X)"
  by (rule hoare_seq [OF keeps_hoare])

lemma file_open_hoare:
  "hoare (kernel_ok X) (file_open p path o_mode) (\<lambda>r. kernel_ok (refs_of r @ X)) (kernel_ok X)"
proof -
  have none: "hoare (kernel_ok X) (sys_seq (sys_run end_op) (sys_ok None)) (\<lambda>r. kernel_ok (refs_of r @ X)) (kernel_ok X)"
    by (intro hoare_keeps_seq hoare_ok keep) simp
  have new: "hoare (kernel_ok X) (sys_seq (sys_run end_op) (sys_then (new_file r w fi) (\<lambda>f. sys_ok (Some f))))
      (\<lambda>r. kernel_ok (refs_of r @ X)) (kernel_ok X)" if "\<And>q. fi \<noteq> FI_Pipe q" for r w fi
    by (rule hoare_keeps_seq, rule keep, rule hoare_then [OF new_file_hoare], rule that, rule hoare_ok) simp
  show ?thesis
    unfolding file_open_def Let_def
    by (rule hoare_keeps_seq, rule keep, rule hoare_keeps_then, rule keep, rule hoare_keeps_then, (rule keep)+)
      (auto split: option.splits inode_type.splits intro!: hoare_keeps_seq hoare_keeps_then none new keep hoare_panic)
qed

lemma alloc_socket_hoare: "hoare (kernel_ok X) (alloc_socket d t pr) (\<lambda>f. kernel_ok (f # X)) (kernel_ok X)"
  unfolding alloc_socket_def by (intro hoare_keeps_then keep new_file_hoare) simp

section \<open>Processes\<close>

text \<open>What the first steps of an operation tell about the values they return.\<close>

lemma keeps_data:
  assumes "p < NPROC" "\<And>d. data_ok d \<Longrightarrow> keeps (f d)"
  shows "keeps (sys_then (get_data p) f)"
proof (rule keepsI)
  fix X k r k' assume ok: "kernel_ok X k" and run: "sys_then (get_data p) f k = Some (r, k')"
  have "data_ok (k_data k ! p)" using kernel_okD(2,4) [OF ok] assms(1) by simp
  moreover have "f (k_data k ! p) k = Some (r, k')" using run by (simp add: sys_then_def get_data_def sys_get_def)
  ultimately show "kernel_ok X k'" using assms(2) ok keepsD by blast
qed

lemma keeps_returns:
  assumes "keeps m" "\<And>k x k'. kernel_ok X k \<Longrightarrow> m k = Some (Done (Ok x), k') \<Longrightarrow> R x"
    "\<And>x. R x \<Longrightarrow> hoare (kernel_ok X) (f x) Q (kernel_ok X)"
  shows "hoare (kernel_ok X) (sys_then m f) Q (kernel_ok X)"
proof (rule hoare_then [where R = "\<lambda>x k. kernel_ok X k \<and> R x"])
  show "hoare (kernel_ok X) m (\<lambda>x k. kernel_ok X k \<and> R x) (kernel_ok X)"
  proof (rule hoareI)
    fix k r k' assume k: "kernel_ok X k" "m k = Some (r, k')"
    then have "kernel_ok X k'" using keepsD assms(1) by blast
    then show "case r of Done (Ok x) \<Rightarrow> kernel_ok X k' \<and> R x | _ \<Rightarrow> kernel_ok X k'"
      using assms(2) k by (auto split: outcome.splits sum.splits)
  qed
  show "hoare (\<lambda>k. kernel_ok X k \<and> R x) (f x) Q (kernel_ok X)" for x
    using assms(3) [of x] by (auto simp: hoare_def)
qed

lemma arg_fd_range:
  assumes "arg_fd p n k = Some (Done (Ok fd), k')"
  shows "fd < NOFILE"
proof -
  obtain w :: u32 where "fd = unat w" "\<not> sint w < 0" "\<not> sint w \<ge> int NOFILE"
    using assms by (auto simp: arg_fd_def sys_then_def get_data_def sys_get_def sys_err_def sys_ok_def
        split: Option.bind_splits outcome.splits sum.splits if_splits)
  moreover from this have "uint w = sint w" by (simp add: uint_sint take_bit_int_eq_self param_values)
  ultimately show ?thesis by (simp add: unat_eq_nat_uint)
qed

lemma alloc_fd_range:
  assumes "p < NPROC" "kernel_ok X k" "alloc_fd p k = Some (Done (Ok r), k')"
  shows "r = None \<or> (\<exists>i. r = Some i \<and> i < NOFILE)"
proof -
  have "length (pd_ofiles (k_data k ! p)) = NOFILE"
    using kernel_okD(2,4) [OF assms(2)] assms(1) by (simp add: data_ok_def)
  moreover have "r = find_index (\<lambda>f. f = None) (pd_ofiles (k_data k ! p))"
    using assms(3) by (auto simp: alloc_fd_def sys_then_def get_data_def sys_get_def sys_ok_def)
  ultimately show ?thesis
    using find_index_SomeD(1) [of "\<lambda>f. f = None" "pd_ofiles (k_data k ! p)"] by (metis option.exhaust)
qed

text \<open>A new descriptor: the operation goes on with an index into the table, or has none.\<close>

lemma alloc_fd_hoare:
  assumes "p < NPROC" "hoare (kernel_ok X) (f None) Q (kernel_ok X)"
    "\<And>i. i < NOFILE \<Longrightarrow> hoare (kernel_ok X) (f (Some i)) Q (kernel_ok X)"
  shows "hoare (kernel_ok X) (sys_then (alloc_fd p) f) Q (kernel_ok X)"
proof (rule keeps_returns [where R = "\<lambda>r. r = None \<or> (\<exists>i. r = Some i \<and> i < NOFILE)"])
  show "keeps (alloc_fd p)" by (rule keep)
  show "r = None \<or> (\<exists>i. r = Some i \<and> i < NOFILE)" if "kernel_ok X k" "alloc_fd p k = Some (Done (Ok r), k')" for k r k'
    by (rule alloc_fd_range [OF assms(1) that])
  show "hoare (kernel_ok X) (f r) Q (kernel_ok X)" if "r = None \<or> (\<exists>i. r = Some i \<and> i < NOFILE)" for r
    using that assms(2,3) by auto
qed

lemma arg_fd_hoare:
  assumes "\<And>fd. fd < NOFILE \<Longrightarrow> hoare (kernel_ok X) (f fd) Q (kernel_ok X)"
  shows "hoare (kernel_ok X) (sys_then (arg_fd p n) f) Q (kernel_ok X)"
  using assms by (intro keeps_returns [where R = "\<lambda>fd. fd < NOFILE"]) (auto intro: keep dest: arg_fd_range)

lemma keeps_each_in: "(\<And>i. i \<in> set is \<Longrightarrow> keeps (body i)) \<Longrightarrow> keeps (sys_each is body)"
  unfolding keeps_def by (blast intro: hoare_each)

lemma keeps_drop_slot: "p < NPROC \<Longrightarrow> i < NOFILE \<Longrightarrow> keeps (drop_slot im p i)"
  unfolding keeps_def by (blast intro: drop_slot_hoare)

lemma keeps_drop_cwd [keep]: "keeps (drop_cwd c)"
  unfolding drop_cwd_def by (cases c) (auto intro: keep)

lemma keeps_reparent [keep]: "keeps (reparent im p i)"
  unfolding reparent_def by (intro keeps_then keeps_if keeps_seq keep) (simp add: NPROC_def)

lemma keeps_exit: "p < NPROC \<Longrightarrow> keeps (proc_exit im p status)"
proof -
  assume p: "p < NPROC"
  have last: "keeps (\<lambda>k. Some (Exited, upd_inner p g k))" for g
    by (rule keepsI) (auto intro: upd_inner_ok)
  have slots: "keeps (sys_each [0..<length (pd_ofiles d)] (drop_slot im p))" if "data_ok d" for d
    using that p by (intro keeps_each_in keeps_drop_slot) (auto simp: data_ok_def)
  show ?thesis
    unfolding proc_exit_def
    by (rule keeps_if, rule keep, rule keeps_data [OF p]) (intro keeps_seq keeps_then slots last keep; simp)
qed

lemma keeps_unmap [keep]: "keeps (unmap_if_mapped root va)"
  by (rule keeps_rest) (auto simp: unmap_if_mapped_def sys_ok_def vm_run_def ker_rest_def split: Option.bind_splits sum.splits)

lemma keeps_expect [keep]: "keeps m \<Longrightarrow> keeps (expect_sys m)"
  unfolding expect_sys_def by (intro keeps_catch keep)

lemma keeps_unmap_vma [keep]: "keeps (unmap_vma root vm)"
  unfolding unmap_vma_def by (cases vm) (auto intro!: keeps_each keep)

lemma keeps_free_memory [keep]: "keeps (free_memory p)"
  unfolding free_memory_def
  by (intro keeps_then keeps_option keeps_seq keeps_each keeps_upd_proc keep) (auto simp: data_ok_def)

lemma keeps_proc_free [keep]: "keeps (proc_free p)"
  unfolding proc_free_def
  by (intro keeps_then keeps_if keeps_seq keeps_upd_proc keep) (auto simp: data_ok_def env_ok_def)

lemma keeps_init_page_table [keep]: "keeps (init_page_table im p)"
  unfolding init_page_table_def
  by (intro keeps_then keeps_option keeps_seq keeps_upd_proc keep) simp_all

lemma keeps_alloc_proc [keep]: "keeps (alloc_proc im)"
proof -
  have pid: "keeps alloc_pid"
    unfolding alloc_pid_def by (intro keeps_then keeps_seq keep) (erule kernel_ok_rest [rotated], simp add: ker_rest_def)
  have "data_ok (init_context im d)" if "data_ok d" for d
    using that by (auto simp: init_context_def data_ok_def env_ok_def split: option.splits)
  then show ?thesis
    unfolding alloc_proc_def
    by (intro keeps_then keeps_option keeps_if keeps_seq keeps_upd_proc keep pid) (simp_all add: init_context_def)
qed

lemma keeps_wait [keep]: "keeps (proc_wait im p addr)"
  unfolding proc_wait_def by (intro keeps_then keeps_option keeps_prod keeps_if keeps_seq keep)

section \<open>Fork\<close>

lemma slot_ref_pos:
  assumes "kernel_ok X k" "p < NPROC" "i < NOFILE" "pd_ofiles (k_data k ! p) ! i = Some f"
  shows "0 < file_refs f k"
proof -
  note ok = kernel_okD [OF assms(1)]
  have p: "k_data k ! p \<in> set (k_data k)" using ok(2) assms(2) by simp
  have "Some f \<in> set (pd_ofiles (k_data k ! p))"
    using ok(4) [OF p] assms(3) unfolding assms(4) [symmetric] by (simp add: data_ok_def)
  then have "0 < count_list (pd_ofiles (k_data k ! p)) (Some f)" using count_list_0_iff by fastforce
  also have "\<dots> \<le> slot_refs f k"
    unfolding slot_refs_def by (rule member_le_sum_list) (use p in auto)
  finally show ?thesis using ok(7) by simp
qed

text \<open>Operations that leave the processes alone.\<close>

definition same_procs :: "'a ksys \<Rightarrow> bool" where
  "same_procs m \<longleftrightarrow> (\<forall>k r k'. m k = Some (r, k') \<longrightarrow> k_data k' = k_data k)"

named_theorems same_procs_laws

lemma same_procs_then [same_procs_laws]: "same_procs m \<Longrightarrow> (\<And>x. same_procs (f x)) \<Longrightarrow> same_procs (sys_then m f)"
  by (fastforce simp: same_procs_def sys_then_def split: Option.bind_splits outcome.splits sum.splits)

lemma same_procs_seq [same_procs_laws]: "same_procs m \<Longrightarrow> same_procs m' \<Longrightarrow> same_procs (sys_seq m m')"
  unfolding sys_seq_def by (rule same_procs_then)

lemma same_procs_basic [same_procs_laws]:
  "same_procs (sys_ok x)" "same_procs (sys_get f)" "same_procs (net_run n)" "same_procs (sys_wakeup p chan)"
  "same_procs (sys_upd (upd_file g u))" "same_procs (sys_upd (upd_pipe q pi))"
  by (auto simp: same_procs_def sys_ok_def sys_get_def net_run_def sys_wakeup_def sys_upd_def upd_file_def upd_pipe_def
      split: Option.bind_splits)

lemma same_procs_each [same_procs_laws]: "(\<And>i. same_procs (body i)) \<Longrightarrow> same_procs (sys_each is body)"
  by (induction "is") (auto intro: same_procs_laws)

lemma same_procs_run [same_procs_laws]:
  "(\<And>k k'. f k = Some k' \<Longrightarrow> ker_rest k' = ker_rest k) \<Longrightarrow> same_procs (sys_run f)"
  by (fastforce simp: same_procs_def sys_run_def ker_rest_def)

lemma same_procs_fs [same_procs_laws]:
  "same_procs (sys_run begin_op)" "same_procs (sys_run end_op)" "same_procs (sys_run (iput i))"
proof -
  show "same_procs (sys_run begin_op)" "same_procs (sys_run end_op)"
    by (rule same_procs_run, rule log_more_ker, drule begin_op_rest end_op_rest, simp)+
  show "same_procs (sys_run (iput i))"
    by (rule same_procs_run, rule fs_rest_ker, rule iput_rest)
qed

lemma same_procs_arc_drop: "same_procs (arc_drop im p f)"
proof -
  have "same_procs (file_drop im p fl)" for fl
    unfolding file_drop_def drop_inode_def wake_pipe_def
    by (cases "f_inner fl") (auto intro!: same_procs_laws simp: split_beta)
  then show ?thesis
    unfolding arc_drop_def get_file_def by (auto intro!: same_procs_laws)
qed

lemma fork_file_hoare:
  assumes "p < NPROC" "c < NPROC" "i < NOFILE" "fs ! i = Some f"
  shows "hoare (\<lambda>k. kernel_ok X k \<and> pd_ofiles (k_data k ! p) = fs) (sys_seq (arc_clone f) (replace_slot im p c i f))
    (\<lambda>_ k. kernel_ok X k \<and> pd_ofiles (k_data k ! p) = fs) (kernel_ok X)"
proof (rule hoareI)
  fix k r k' assume k: "kernel_ok X k \<and> pd_ofiles (k_data k ! p) = fs"
    and run: "sys_seq (arc_clone f) (replace_slot im p c i f) k = Some (r, k')"
  define k1 where "k1 = upd_file f (f_refs_update Suc) k"
  define k2 where "k2 = upd_proc c (set_slot i (Some f)) k1"
  have run1: "replace_slot im p c i f k1 = Some (r, k')"
    using run by (simp add: sys_seq_def sys_then_def arc_clone_def sys_upd_def k1_def)
  have k1: "kernel_ok (f # X) k1" "k_data k1 = k_data k"
    unfolding k1_def using arc_clone_ok [OF _ slot_ref_pos] k assms by (auto simp: upd_file_def)
  have "hoare (kernel_ok (f # X)) (replace_slot im p c i f) (\<lambda>_. kernel_ok X) (kernel_ok X)"
    by (rule replace_slot_hoare [OF assms(2,3)])
  then have "case r of Done (Ok x) \<Rightarrow> kernel_ok X k' | _ \<Rightarrow> kernel_ok X k'"
    using k1(1) run1 unfolding hoare_def by blast
  then have ok: "kernel_ok X k'" by (simp split: outcome.splits sum.splits)
  have "pd_ofiles (k_data k2 ! p) = fs"
  proof (cases "p = c")
    case True
    have "length fs = NOFILE" using k kernel_okD(2,4) [of X k] assms(1) by (auto simp: data_ok_def)
    then have "fs[i := Some f] = fs" using assms(3,4) by (metis list_update_id)
    then show ?thesis using True k k1(2) kernel_okD(2) [of X k] assms(1) by (simp add: k2_def upd_proc_def)
  qed (use k k1(2) in \<open>simp add: k2_def upd_proc_def\<close>)
  moreover have "same_procs (case pd_ofiles (k_data k1 ! c) ! i of None \<Rightarrow> sys_ok () | Some g \<Rightarrow> arc_drop im p g)"
    by (cases "pd_ofiles (k_data k1 ! c) ! i") (auto intro: same_procs_laws same_procs_arc_drop)
  then have "k_data k' = k_data k2"
    using run1 by (simp add: replace_slot_def sys_then_def sys_seq_def get_data_def sys_get_def sys_upd_def k2_def same_procs_def)
  ultimately show "case r of Done (Ok x) \<Rightarrow> kernel_ok X k' \<and> pd_ofiles (k_data k' ! p) = fs | _ \<Rightarrow> kernel_ok X k'"
    using ok by (simp split: outcome.splits sum.splits)
qed

lemma fork_files_hoare:
  assumes "p < NPROC" "c < NPROC" "data_ok d"
  shows "hoare (\<lambda>k. kernel_ok X k \<and> pd_ofiles (k_data k ! p) = pd_ofiles d) (fork_files im p c d)
    (\<lambda>_. kernel_ok X) (kernel_ok X)"
proof (rule hoare_post)
  show "hoare (\<lambda>k. kernel_ok X k \<and> pd_ofiles (k_data k ! p) = pd_ofiles d) (fork_files im p c d)
    (\<lambda>_ k. kernel_ok X k \<and> pd_ofiles (k_data k ! p) = pd_ofiles d) (kernel_ok X)"
    unfolding fork_files_def
  proof (rule hoare_each)
    fix i assume "i \<in> set [0..<length (pd_ofiles d)]"
    then have "i < NOFILE" using assms(3) by (simp add: data_ok_def)
    then show "hoare (\<lambda>k. kernel_ok X k \<and> pd_ofiles (k_data k ! p) = pd_ofiles d)
       (case pd_ofiles d ! i of None \<Rightarrow> sys_ok () | Some f \<Rightarrow> sys_seq (arc_clone f) (replace_slot im p c i f))
       (\<lambda>_ k. kernel_ok X k \<and> pd_ofiles (k_data k ! p) = pd_ofiles d) (kernel_ok X)"
      using fork_file_hoare [OF assms(1,2)] by (cases "pd_ofiles d ! i") (auto intro: hoare_ok)
  qed
qed simp_all

lemma alloc_proc_range:
  assumes "kernel_ok X k" "alloc_proc im k = Some (Done (Ok (Some c)), k')"
  shows "c < NPROC"
proof -
  have "find_index (\<lambda>i. p_state i = Unused) (k_inner k) = Some c"
    using assms(2) by (auto simp: alloc_proc_def alloc_pid_def sys_then_def sys_seq_def sys_get_def sys_upd_def sys_ok_def
        split: Option.bind_splits option.splits outcome.splits sum.splits if_splits)
  then show ?thesis using find_index_SomeD(1) kernel_okD(1) [OF assms(1)] by fastforce
qed

lemma env_insert_ok:
  assumes "env_ok e"
  shows "env_ok (env_insert n v e)"
proof -
  have keys: "a = n \<or> (\<exists>b. (a, b) \<in> set e)" if "(a, b) \<in> set (env_insert n v e)" for a b n v e
    using that by (induction n v e rule: env_insert.induct) (auto split: if_splits)
  show ?thesis
    using assms
  proof (induction n v e rule: env_insert.induct)
    case (2 n v n' v' e)
    have "n' < a" if "n \<noteq> n'" "\<not> n < n'" "(a, b) \<in> set (env_insert n v e)" for a b
      using keys [OF that(3)] 2(2) that(1,2) by (force simp: env_ok_def)
    with 2 show ?case by (auto simp: env_ok_def)
  qed (simp add: env_ok_def)
qed

lemma fork_env_ok: "data_ok d \<Longrightarrow> data_ok cd \<Longrightarrow> data_ok (fork_env d cd)"
proof -
  assume ok: "data_ok d" "data_ok cd"
  have "env_ok (fold (\<lambda>(n, v). env_insert n v) e e')" if "env_ok e'" for e e'
    using that by (induction e arbitrary: e') (auto intro: env_insert_ok)
  then show ?thesis
    using ok by (auto simp: fork_env_def data_ok_def env_ok_def split: option.splits)
qed

lemma fork_env_files [simp]: "pd_ofiles (fork_env d cd) = pd_ofiles cd"
  by (simp add: fork_env_def split: option.splits)

lemma keeps_fork_cwd [keep]: "keeps (fork_cwd c d)"
  unfolding fork_cwd_def by (intro keeps_then keeps_seq keeps_upd_proc keep) simp_all

text \<open>Steps before the descriptors are copied.\<close>

lemma hoare_same_procs:
  assumes "keeps m" "same_procs m"
  shows "hoare (\<lambda>k. kernel_ok X k \<and> pd_ofiles (k_data k ! p) = fs) m (\<lambda>_ k. kernel_ok X k \<and> pd_ofiles (k_data k ! p) = fs) (kernel_ok X)"
proof (rule hoareI)
  fix k r k' assume k: "kernel_ok X k \<and> pd_ofiles (k_data k ! p) = fs" "m k = Some (r, k')"
  have "kernel_ok X k'" using k keepsD [OF assms(1)] by blast
  moreover have "k_data k' = k_data k" using k(2) assms(2) by (simp add: same_procs_def)
  ultimately show "case r of Done (Ok x) \<Rightarrow> kernel_ok X k' \<and> pd_ofiles (k_data k' ! p) = fs | _ \<Rightarrow> kernel_ok X k'"
    using k(1) by (simp split: outcome.splits sum.splits)
qed

lemma same_procs_memory [same_procs_laws]: "same_procs (page_root p)" "same_procs (vm_run f)"
  by (auto simp: same_procs_def page_root_def get_data_def sys_then_def sys_get_def sys_unwrap_def sys_ok_def sys_panic_def
      vm_run_def split: Option.bind_splits option.splits)

lemma fork_copy_hoare:
  assumes "p < NPROC" "c < NPROC" "data_ok d"
  shows "hoare (\<lambda>k. kernel_ok X k \<and> pd_ofiles (k_data k ! p) = pd_ofiles d)
     (sys_seq (sys_upd (upd_proc c (\<lambda>cd. cd\<lparr>pd_sz := pd_sz d, pd_regs := (pd_regs d)(TF_a0 := 0)\<rparr>)))
           (sys_seq (fork_files im p c d)
           (sys_seq (fork_cwd c d)
           (sys_seq (sys_upd (upd_proc c (fork_env d)))
           (sys_seq (sys_upd (k_parents_update (\<lambda>ps. ps[c := Some p])))
           (sys_seq (sys_upd (upd_inner c (p_state_update (\<lambda>_. Runnable))))
             (sys_get (\<lambda>k. p_pid (k_inner k ! c)))))))))
     (\<lambda>_. kernel_ok X) (kernel_ok X)"
proof (rule hoare_seq [OF hoare_upd hoare_seq [OF fork_files_hoare [OF assms]]])
  fix k assume k: "kernel_ok X k \<and> pd_ofiles (k_data k ! p) = pd_ofiles d"
  let ?g = "\<lambda>cd. cd\<lparr>pd_sz := pd_sz d, pd_regs := (pd_regs d)(TF_a0 := 0)\<rparr>"
  have "pd_ofiles ((k_data k)[c := ?g (k_data k ! c)] ! p) = pd_ofiles (k_data k ! p)"
    using k kernel_okD(2) [of X k] assms(1) by (simp add: nth_update_if)
  moreover have "kernel_ok X (upd_proc c ?g k)" using k by (intro upd_proc_ok) simp_all
  ultimately show "kernel_ok X (upd_proc c ?g k) \<and> pd_ofiles (k_data (upd_proc c ?g k) ! p) = pd_ofiles d"
    using k by (simp add: upd_proc_def)
next
  show "hoare (kernel_ok X) (sys_seq (fork_cwd c d) (sys_seq (sys_upd (upd_proc c (fork_env d)))
      (sys_seq (sys_upd (k_parents_update (\<lambda>ps. ps[c := Some p])))
      (sys_seq (sys_upd (upd_inner c (p_state_update (\<lambda>_. Runnable)))) (sys_get (\<lambda>k. p_pid (k_inner k ! c)))))))
     (\<lambda>_. kernel_ok X) (kernel_ok X)"
    by (rule keeps_hoare, intro keeps_seq keeps_fork_cwd keeps_upd_proc keeps_parents keeps_upd_inner keeps_basic)
      (use assms in \<open>auto intro: fork_env_ok\<close>)
qed

lemma keeps_fork: "p < NPROC \<Longrightarrow> keeps (proc_fork im p)"
  unfolding keeps_def proc_fork_def
proof (intro allI keeps_returns [where R = "\<lambda>c. \<forall>i. c = Some i \<longrightarrow> i < NPROC"], goal_cases)
  case (1 X)
  show ?case by (rule keep)
next
  case (2 X k c k')
  then show ?case by (auto dest: alloc_proc_range)
next
  case (3 X c)
  show ?case
  proof (cases c)
    case None
    then show ?thesis by (auto intro: hoare_err)
  next
    case (Some i)
    then have i: "i < NPROC" using 3(2) by simp
    show ?thesis
      unfolding Some option.case
    proof (subst get_data_def, rule hoare_get_state, goal_cases)
      case (1 k)
      let ?d = "k_data k ! p"
      have d: "data_ok ?d" using kernel_okD(2,4) [OF 1] 3(1) by simp
      show ?case
        by (rule hoare_pre [where P' = "\<lambda>k. kernel_ok X k \<and> pd_ofiles (k_data k ! p) = pd_ofiles ?d"],
            rule hoare_then, rule hoare_same_procs, (rule keep same_procs_laws)+,
            rule hoare_then, rule hoare_same_procs, (rule keep same_procs_laws)+,
            rule hoare_then, rule hoare_same_procs, (rule keep same_procs_laws)+)
          (use 1 in \<open>auto intro!: fork_copy_hoare [OF 3(1) i d] hoare_pre [OF keeps_hoare] keeps_seq keep\<close>)
    qed
  qed
qed

end
