(* ===== verification/Dispatch_Inv.thy ===== *)
theory Dispatch_Inv
  imports Syscall_Inv
begin

text \<open>
  Every system call, and the dispatcher of \<open>kernel/src/proc.rs\<close>, keeps the well-formed states of
  \<open>Kernel_Inv\<close>.
\<close>

section \<open>The program loader\<close>

lemma keeps_read_header [keep]: "keeps (read_header ip off n)"
proof (rule keepsI)
  fix X r and k k' :: kernel
  assume ok: "kernel_ok X k" and run: "read_header ip off n k = Some (r, k')"
  obtain v bs where rd: "readi kernel_sink (i_index ip) off (of_nat n) [] k = Some (v, bs, k')"
    using run by (auto simp: read_header_def sys_ok_def split: Option.bind_splits sum.splits if_splits)
  show "kernel_ok X k'" by (rule kernel_ok_rest [OF readi_rest [OF rd, THEN fs_rest_ker] ok])
qed

lemma keeps_load_segment [keep]: "keeps (load_segment pgt ip va offset sz)"
  unfolding load_segment_def
proof (rule keeps_each, rule keepsI)
  fix i X r and k k' :: kernel
  let ?n = "min (sz - i) PAGESIZE"
  let ?m = "\<lambda>k. case walk_addr pgt (va + i) (k_vm k) of Err e \<Rightarrow> sys_err e k
     | Ok pa \<Rightarrow> do {
         let n = ?n;
         (r, (_, v), k) \<leftarrow> readi phys_sink (i_index ip) (offset + i) n (pa, k_vm k) k;
         let k = k\<lparr>k_vm := v\<rparr>;
         case r of Err _ \<Rightarrow> sys_err ''load_segment: cannot read the program segment'' k | Ok _ \<Rightarrow> sys_ok () k }"
  assume ok: "kernel_ok X k" and run: "?m k = Some (r, k')"
  show "kernel_ok X k'"
  proof (cases "walk_addr pgt (va + i) (k_vm k)")
    case (Inl e)
    then show ?thesis using ok run by (simp add: sys_err_def)
  next
    case (Inr pa)
    then obtain x a v k1 where rd: "readi phys_sink (i_index ip) (offset + i) ?n (pa, k_vm k) k = Some (x, (a, v), k1)"
      and k': "k' = k1\<lparr>k_vm := v\<rparr>"
      using run by (auto simp: Let_def sys_ok_def sys_err_def split: Option.bind_splits sum.splits)
    have "kernel_ok X k1" by (rule kernel_ok_rest [OF readi_rest [OF rd, THEN fs_rest_ker] ok])
    then show ?thesis unfolding k' by (rule kernel_ok_rest [rotated]) (simp add: ker_rest_def)
  qed
qed

lemma keeps_close_image [keep]: "keeps (close_image ip)"
  unfolding close_image_def by (intro keeps_seq keep)

lemma keeps_fail [keep]: "keeps (fail_load pgt sz ip msg)" "keeps (fail_args pgt sz msg)"
  unfolding fail_load_def fail_args_def by (intro keeps_seq keep)+

lemma keeps_load_headers [keep]: "keeps (load_headers ip pgt offs sz)"
proof (induction offs arbitrary: sz)
  case (Cons off offs)
  show ?case
    by (simp only: load_headers.simps, intro keeps_then keeps_option keeps_Let keeps_if keeps_seq keeps_catch keep Cons)
qed (auto intro: keep)

lemma keeps_push_args [keep]: "keeps (push_args pgt sz base args i sp ustack)"
proof (induction args arbitrary: i sp ustack)
  case (Cons arg args)
  show ?case
  proof (cases arg)
    case (Some a)
    show ?thesis
      unfolding Some push_args.simps
      by (intro keeps_then keeps_Let keeps_if keeps_seq keeps_catch keep Cons)
  qed (auto intro: keep)
qed (auto intro: keep)

lemma keeps_load_stack [keep]: "keeps (load_stack p hdr pgt sz argv)"
  unfolding load_stack_def
  by (intro keeps_then keeps_prod keeps_Let keeps_if keeps_seq keeps_catch keeps_set_reg keeps_upd_proc keep) simp_all

lemma keeps_elf_load [keep]: "keeps (elf_load im p path argv)"
  unfolding elf_load_def load_image_def
  by (intro keeps_then keeps_option keeps_Let keeps_if keeps_seq keeps_catch keep)

section \<open>System calls without new descriptors\<close>

lemma keeps_from_utf8 [keep]: "keeps (from_utf8 bs msg)"
  unfolding from_utf8_def by (intro keeps_if keep)

lemma keeps_getenv: "keeps (sys_getenv p)"
  unfolding sys_getenv_def
  by (intro keeps_then keeps_prod keeps_option keeps_Let keeps_if keeps_seq keep)

lemma keeps_setenv:
  assumes "p < NPROC"
  shows "keeps (sys_setenv p)"
proof -
  have "data_ok (d'\<lparr>pd_env := Some e\<rparr>)" if "data_ok d'" "env_ok e" for d' e
    using that by (simp add: data_ok_def)
  then have upd: "keeps (sys_upd (upd_proc p (pd_env_update (\<lambda>_. Some e))))" if "env_ok e" for e
    using that by (intro keeps_upd_proc) simp_all
  have old: "env_ok (case pd_env d of None \<Rightarrow> [] | Some e \<Rightarrow> e)" if "data_ok d" for d
    using that by (auto simp: data_ok_def env_ok_def split: option.splits)
  show ?thesis
    unfolding sys_setenv_def
    by (intro keeps_data assms keeps_then keeps_prod keeps_Let keeps_if keeps_seq upd keep)
      (simp_all add: old env_insert_ok)
qed

lemma keeps_unsetenv:
  assumes "p < NPROC"
  shows "keeps (sys_unsetenv p)"
proof -
  have "env_ok (env_remove n e)" if "env_ok e" for n e
    using that by (simp add: env_ok_def env_remove_def sorted_wrt_map sorted_wrt_filter)
  then have upd: "keeps (sys_upd (upd_proc p (pd_env_update (\<lambda>_. Some (env_remove n e)))))" if "env_ok e" for n e
    using that by (intro keeps_upd_proc) (simp_all add: data_ok_def)
  show ?thesis
    unfolding sys_unsetenv_def
    by (intro keeps_data assms keeps_then keeps_prod keeps_option keeps_if keeps_seq upd keep)
      (simp_all add: data_ok_def)
qed

lemma keeps_listenv: "keeps (sys_listenv p)"
proof -
  have loop: "keeps (listenv_loop p uaddr size pieces offset)" for uaddr size pieces offset
    by (induction pieces arbitrary: offset) (simp_all only: listenv_loop.simps, (intro keeps_if keeps_seq keep | assumption)+)
  show ?thesis
    unfolding sys_listenv_def by (intro keeps_then keeps_option loop keep)
qed

lemma keeps_exec: "keeps (sys_exec im p)"
proof -
  have args: "keeps (fetch_args p base is)" for base "is"
    by (induction "is") (simp_all only: fetch_args.simps, (intro keeps_then keeps_if keeps_prod keep | assumption)+)
  show ?thesis
    unfolding sys_exec_def by (intro keeps_then keeps_prod args keep)
qed

lemma keeps_sbrk: "keeps (sys_sbrk p)"
  unfolding sys_sbrk_def
  by (intro keeps_then keeps_Let keeps_seq keeps_if keeps_upd_proc keep) simp_all

lemma keeps_mmap: "keeps (sys_mmap p)"
  unfolding sys_mmap_def
  by (intro keeps_then keeps_Let keeps_option keeps_seq keeps_if keeps_upd_proc keep) (simp_all add: data_ok_def)

lemma keeps_in_op [keep]: "keeps m \<Longrightarrow> keeps (in_op m)"
  unfolding in_op_def by (intro keeps_catch keeps_seq keep)

lemma keeps_of [keep]: "keeps (sys_of r)"
  by (rule keepsI) (simp add: sys_of_def)

lemma keeps_chdir: "keeps (sys_chdir p)"
  unfolding sys_chdir_def
  by (intro keeps_then keeps_prod keeps_Let keeps_option keeps_seq keeps_if keeps_upd_proc keep) simp_all

lemma keeps_create_at [keep]: "keeps (sys_create_at p path t major minor)"
  unfolding sys_create_at_def by (intro keeps_then keeps_seq keep)

lemma keeps_i32_to_u16 [keep]: "keeps (i32_to_u16 n)"
  unfolding i32_to_u16_def by (intro keeps_if keep)

lemma keeps_directory_calls: "keeps (sys_mknod p)" "keeps (sys_mkdir p)" "keeps (sys_unlink p)"
  unfolding sys_mknod_def sys_mkdir_def sys_unlink_def
  by (intro keeps_then keeps_prod keeps_seq keep)+

lemma keeps_slot_file [keep]: "keeps (slot_file p fd msg)"
  unfolding slot_file_def by (intro keeps_then keeps_option keep)

lemma keeps_read_write: "keeps (sys_read im p)" "keeps (sys_write im p)" "keeps (sys_fstat im p)"
  unfolding sys_read_def sys_write_def sys_fstat_def by (intro keeps_then keeps_seq keep)+

lemma keeps_socket_call: "keeps (socket_call op e e' p)"
  unfolding socket_call_def by (intro keeps_then keeps_option keeps_seq keeps_if keep)

section \<open>System calls that install descriptors\<close>

lemma kernel_ok_swap: "kernel_ok (a # b # X) = kernel_ok (b # a # X)"
proof -
  have "count_list (a # b # X) f = count_list (b # a # X) f" for f by simp
  then show ?thesis by (intro ext) (simp only: kernel_ok_def)
qed

text \<open>Looking for a free slot never fails, so a file held across it is not lost.\<close>

lemma alloc_fd_any:
  assumes "p < NPROC" "hoare (kernel_ok X) (f None) Q E" "\<And>i. i < NOFILE \<Longrightarrow> hoare (kernel_ok X) (f (Some i)) Q E"
  shows "hoare (kernel_ok X) (sys_then (alloc_fd p) f) Q E"
proof (rule hoare_then [where R = "\<lambda>r k. kernel_ok X k \<and> (\<forall>i. r = Some i \<longrightarrow> i < NOFILE)"])
  have "always_ok (alloc_fd p)" unfolding alloc_fd_def get_data_def by (intro always)
  moreover have "hoare (kernel_ok X) (alloc_fd p) (\<lambda>r k. kernel_ok X k \<and> (\<forall>i. r = Some i \<longrightarrow> i < NOFILE)) (kernel_ok X)"
  proof (rule hoareI, goal_cases)
    case (1 k r k')
    have "keeps (alloc_fd p)" by (rule keep)
    then have "kernel_ok X k'" using 1 keepsD by blast
    then show ?case using 1 alloc_fd_range [OF assms(1) 1(1)] by (fastforce split: outcome.split sum.split)
  qed
  ultimately show "hoare (kernel_ok X) (alloc_fd p) (\<lambda>r k. kernel_ok X k \<and> (\<forall>i. r = Some i \<longrightarrow> i < NOFILE)) E"
    by (rule hoare_always_ok [rotated])
  show "hoare (\<lambda>k. kernel_ok X k \<and> (\<forall>i. r = Some i \<longrightarrow> i < NOFILE)) (f r) Q E" for r
  proof (cases "\<forall>i. r = Some i \<longrightarrow> i < NOFILE")
    case True
    then show ?thesis using assms(2,3) by (cases r) (auto elim: hoare_pre)
  qed (auto simp: hoare_def)
qed

lemma keeps_pipe:
  assumes "p < NPROC"
  shows "keeps (sys_pipe im p)"
  unfolding keeps_def sys_pipe_def
proof (rule allI, rule hoare_keeps_then, rule keep, rule hoare_then [OF alloc_pipe_hoare], goal_cases)
  case (1 X addr fs)
  obtain rf wf where fs: "fs = (rf, wf)" by (cases fs)
  have drop: "hoare (kernel_ok (wf # rf # X)) (sys_seq (arc_drop im p wf) (sys_seq (arc_drop im p rf) (sys_err e)))
     (\<lambda>_. kernel_ok X) (kernel_ok X)" for e
    by (rule hoare_seq, rule arc_drop_hoare, rule hoare_seq, rule arc_drop_hoare) (auto intro: hoare_err)
  have drop1: "hoare (kernel_ok (wf # X)) (sys_seq (arc_drop im p wf) (sys_err e)) (\<lambda>_. kernel_ok X) (kernel_ok X)" for e
    by (rule hoare_seq, rule arc_drop_hoare) (auto intro: hoare_err)
  have put: "hoare (kernel_ok X) (sys_seq (user_copy_out p addr bs) (sys_seq (user_copy_out p a' bs') (sys_ok 0)))
     (\<lambda>_. kernel_ok X) (kernel_ok X)" for bs a' bs'
    by (rule keeps_hoare, intro keeps_seq keep)
  show ?case
    unfolding fs prod.case
  proof (rule alloc_fd_any [OF assms], goal_cases)
    case 1
    then show ?case unfolding option.case by (subst kernel_ok_swap) (rule drop)
  next
    case (2 i)
    then show ?case
      unfolding option.case
      by (intro hoare_seq [OF replace_slot_hoare [OF assms]] alloc_fd_any [OF assms])
        (auto intro!: drop1 put hoare_seq [OF replace_slot_hoare [OF assms]])
  qed
qed

lemma keeps_dup:
  assumes "p < NPROC"
  shows "keeps (sys_dup im p)"
  unfolding keeps_def sys_dup_def
proof (intro allI arg_fd_hoare alloc_fd_hoare assms, goal_cases)
  case (1 X old)
  then show ?case by (auto intro: hoare_err)
next
  case (2 X old new)
  show ?case
    unfolding option.case get_data_def
  proof (rule hoare_get_state, goal_cases)
    case (1 k)
    show ?case
    proof (cases "pd_ofiles (k_data k ! p) ! old")
      case None
      then show ?thesis by (simp add: hoare_def sys_then_def sys_unwrap_def sys_panic_def)
    next
      case (Some f)
      have "kernel_ok (f # X) (upd_file f (f_refs_update Suc) k)"
        using arc_clone_ok [OF 1 slot_ref_pos [OF 1 assms 2(1) Some]] .
      then have "hoare (\<lambda>k'. k' = k) (arc_clone f) (\<lambda>_. kernel_ok (f # X)) (kernel_ok X)"
        by (auto simp: arc_clone_def intro!: hoare_upd)
      moreover have "hoare (kernel_ok (f # X)) (sys_seq (replace_slot im p p new f) (sys_ok (of_nat new)))
         (\<lambda>_. kernel_ok X) (kernel_ok X)"
        by (rule hoare_seq [OF replace_slot_hoare [OF assms 2(2)]]) (auto intro: hoare_ok)
      ultimately have "hoare (\<lambda>k'. k' = k) (sys_seq (arc_clone f) (sys_seq (replace_slot im p p new f) (sys_ok (of_nat new))))
         (\<lambda>_. kernel_ok X) (kernel_ok X)" by (rule hoare_seq)
      then show ?thesis using Some by (simp add: hoare_def sys_then_def sys_unwrap_def sys_ok_def)
    qed
  qed
qed

lemma keeps_open:
  assumes "p < NPROC"
  shows "keeps (sys_open im p)"
  unfolding keeps_def sys_open_def
proof (rule allI, rule hoare_keeps_then, rule keep, clarify, rule hoare_keeps_then, rule keep,
    rule hoare_then [OF file_open_hoare], goal_cases)
  case (1 X len path o_mode f)
  have none: "hoare (kernel_ok (g # X)) (sys_seq (arc_drop im p g) (sys_err e)) (\<lambda>_. kernel_ok X) (kernel_ok X)" for g e
    by (rule hoare_seq, rule arc_drop_hoare) (auto intro: hoare_err)
  have put: "hoare (kernel_ok (g # X)) (sys_seq (replace_slot im p p fd g) (sys_ok (of_nat fd))) (\<lambda>_. kernel_ok X) (kernel_ok X)"
    if "fd < NOFILE" for fd g
    by (rule hoare_seq [OF replace_slot_hoare [OF assms that]]) (auto intro: hoare_ok)
  show ?case
  proof (cases f)
    case (Some g)
    show ?thesis unfolding Some option.case refs_of_simps append.simps by (rule alloc_fd_any [OF assms]) (auto intro: none put)
  qed (auto intro: hoare_err)
qed

lemma keeps_close:
  assumes "p < NPROC"
  shows "keeps (sys_close im p)"
  unfolding keeps_def sys_close_def
  by (intro allI arg_fd_hoare hoare_seq [OF drop_slot_hoare [OF assms]]) (auto intro: hoare_ok)

lemma keeps_socket:
  assumes "p < NPROC"
  shows "keeps (sys_socket im p)"
  unfolding keeps_def sys_socket_def
proof (rule allI, rule hoare_keeps_then [OF keeps_helpers(5)], rule hoare_keeps_then [OF keeps_helpers(5)],
    rule hoare_keeps_then [OF keeps_helpers(5)], rule alloc_fd_hoare [OF assms], goal_cases)
  case (2 X domain t protocol fd)
  then show ?case
    unfolding option.case
    by (intro hoare_then [OF alloc_socket_hoare] hoare_seq [OF replace_slot_hoare [OF assms]]) (auto intro: hoare_ok)
qed (auto intro: hoare_err)

section \<open>The dispatcher\<close>

lemma keeps_table: "p < NPROC \<Longrightarrow> keeps (sys_table im p num)"
  unfolding sys_table_def sys_fork_def sys_exit_def sys_wait_def sys_bind_def sys_connect_def
  by (intro keeps_if keeps_fork keeps_then keeps_exit keeps_pipe keeps_read_write keeps_exec keeps_chdir keeps_dup keeps_sbrk
      keeps_open keeps_directory_calls keeps_close keeps_socket keeps_socket_call keeps_mmap keeps_getenv keeps_setenv
      keeps_unsetenv keeps_listenv keep)

lemma keeps_syscall: "p < NPROC \<Longrightarrow> keeps (syscall im p)"
  unfolding syscall_def by (intro keeps_then keeps_seq keeps_catch keeps_table keeps_set_reg keep)

end
