(* ===== verification/Spec2Isabelle.thy ===== *)
theory Spec2Isabelle
  imports Kalloc Log User_Memory Kvm Fs_Frame Console Pipe Sched Net_Laws Virtio_Laws User_Heap Syscall Dispatch_Inv
begin

text \<open>
  A verification development for \<open>xv6rs\<close>, a RISC-V teaching kernel written in Rust.

  \<^item> \<open>Xv6_Prelude\<close>: machine types, results and panics, table search, rounding, parameters
    (\<open>kernel/src/param.rs\<close>).
  \<^item> \<open>Heap_Iface\<close>: the contract of a global allocator and of its client.
  \<^item> \<open>Kalloc\<close>: the kernel heap (\<open>kernel/src/kalloc.rs\<close>, \<open>kernel/src/kalloc/linked_list.rs\<close>).
\<close>

end
